(* ===== verification/RDB_Prelude.thy ===== *)
theory RDB_Prelude
  imports Main "HOL-Library.Word" "HOL-Library.Multiset" "HOL-Library.Sublist"
begin

text \<open>
  What every component of the development shares: the model's machine types, the error
  type of the program, the collections of rewrite rules, and generic facts on
  lists and words.

  A \<open>char\<close> buffer, a \<open>std::string\<close> and a \<open>Slice\<close> (\<^verbatim>\<open>include/slice.h\<close>) are lists of
  8-bit words.  A \<open>size_t\<close> that counts the bytes of an object in memory is a \<open>nat\<close>;
  integers whose wrap-around the program relies on, or that are written to disk, keep
  their width.
\<close>

unbundle bit_operations_syntax

type_synonym byte = "8 word"
type_synonym bytes = "byte list"
type_synonym u32 = "32 word"
type_synonym u64 = "64 word"

named_theorems coding_simps \<open>round trips and lengths of the byte encodings\<close>
named_theorems cmp_simps \<open>facts on three-way comparison results\<close>

section \<open>Status (include/status.h, src/util/status.cc)\<close>

text \<open>
  \<^verbatim>\<open>Status\<close> is either OK (a null state pointer) or an error code with a message; the
  two-argument constructor joins its messages with a colon and a space, unless the second
  one is empty.
\<close>

datatype code = kNotFound | kCorruption | kNotSupported | kInvalidArgument | kIOError

datatype status = OK | Err code string

definition mk_status :: "code \<Rightarrow> string \<Rightarrow> string \<Rightarrow> status" where
  "mk_status c msg1 msg2 = Err c (msg1 @ (if msg2 = [] then [] else '': '' @ msg2))"

definition Corruption :: "string \<Rightarrow> status" where
  "Corruption msg = mk_status kCorruption msg []"

definition NotFound :: "string \<Rightarrow> status" where
  "NotFound msg = mk_status kNotFound msg []"

definition InvalidArgument :: "string \<Rightarrow> string \<Rightarrow> status" where
  "InvalidArgument msg1 msg2 = mk_status kInvalidArgument msg1 msg2"

definition IOError :: "string \<Rightarrow> string \<Rightarrow> status" where
  "IOError msg1 msg2 = mk_status kIOError msg1 msg2"

fun ok :: "status \<Rightarrow> bool" where
  "ok OK = True"
| "ok (Err c m) = False"

lemma ok_iff [simp]: "ok s \<longleftrightarrow> s = OK"
  by (cases s) auto

lemma status_errors [simp]:
  "mk_status c m1 m2 \<noteq> OK" "OK \<noteq> mk_status c m1 m2"
  "Corruption m \<noteq> OK" "OK \<noteq> Corruption m" "NotFound m \<noteq> OK" "OK \<noteq> NotFound m"
  "InvalidArgument m1 m2 \<noteq> OK" "OK \<noteq> InvalidArgument m1 m2"
  "IOError m1 m2 \<noteq> OK" "OK \<noteq> IOError m1 m2"
  by (simp_all add: mk_status_def Corruption_def NotFound_def InvalidArgument_def IOError_def)

text \<open>A string literal of the source as bytes.\<close>

definition str :: "string \<Rightarrow> bytes" where
  "str s = map (\<lambda>c. of_char c) s"

definition chars_of :: "bytes \<Rightarrow> string" where
  "chars_of bs = map (\<lambda>b. char_of (unat b)) bs"

text \<open>Decimal printing of an unsigned number (\<open>%u\<close>, \<open>%llu\<close>).\<close>

fun show_nat :: "nat \<Rightarrow> string" where
  "show_nat n = (if n < 10 then [char_of (48 + n)] else show_nat (n div 10) @ [char_of (48 + n mod 10)])"

declare show_nat.simps [simp del]

section \<open>Generic facts on lists\<close>

lemma suffix_drop_eq: "suffix ys xs \<longleftrightarrow> (\<exists>n. ys = drop n xs)"
  by (metis suffix_def suffix_drop append_eq_conv_conj)

lemma suffix_length_less: "suffix ys xs \<Longrightarrow> ys \<noteq> xs \<Longrightarrow> length ys < length xs"
  by (auto simp: suffix_def)

lemma take_append_exact [simp]: "n = length xs \<Longrightarrow> take n (xs @ ys) = xs"
  by simp

lemma drop_append_exact [simp]: "n = length xs \<Longrightarrow> drop n (xs @ ys) = ys"
  by simp

lemma sorted_wrt_nth_mono:
  assumes "sorted_wrt P xs" "i < j" "j < length xs"
  shows "P (xs ! i) (xs ! j)"
  using assms by (simp add: sorted_wrt_iff_nth_less)

lemma unat_word_less: "unat (v :: 'a::len word) < 2 ^ LENGTH('a)"
  by (rule unsigned_less)

lemma byte_bit_ge: "8 \<le> n \<Longrightarrow> \<not> bit (b :: byte) n"
  using bit_imp_le_length [of b n] by auto

lemma fold_take_drop: "fold f (drop n xs) (fold f (take n xs) a) = fold f xs a"
  by (metis append_take_drop_id comp_apply fold_append)

end
