(* ===== verification/Coding.thy ===== *)
theory Coding
  imports RDB_Prelude
begin

text \<open>
  The integer and slice encodings of \<^verbatim>\<open>src/util/coding.h\<close> and \<^verbatim>\<open>src/util/coding.cc\<close>.
  An encoder that appends to a \<open>std::string\<close> returns the bytes it appends; a decoder that
  moves a pointer between \<open>p\<close> and \<open>limit\<close>, or consumes a \<open>Slice\<close>, takes the remaining
  bytes and returns the value with the bytes that are left, or \<open>None\<close> where the source
  returns a null pointer or \<open>false\<close>.  Reading a fixed-width integer past the end of its
  buffer is undefined in the source and unspecified here (\<open>!\<close>); every caller guards it.
\<close>

section \<open>Fixed-width integers\<close>

definition EncodeFixed32 :: "u32 \<Rightarrow> bytes" where
  "EncodeFixed32 value =
     [ucast value, ucast (drop_bit 8 value), ucast (drop_bit 16 value), ucast (drop_bit 24 value)]"

definition EncodeFixed64 :: "u64 \<Rightarrow> bytes" where
  "EncodeFixed64 value =
     [ucast value, ucast (drop_bit 8 value), ucast (drop_bit 16 value), ucast (drop_bit 24 value),
      ucast (drop_bit 32 value), ucast (drop_bit 40 value), ucast (drop_bit 48 value),
      ucast (drop_bit 56 value)]"

definition DecodeFixed32 :: "bytes \<Rightarrow> u32" where
  "DecodeFixed32 buffer =
     ucast (buffer ! 0) OR push_bit 8 (ucast (buffer ! 1)) OR push_bit 16 (ucast (buffer ! 2))
     OR push_bit 24 (ucast (buffer ! 3))"

definition DecodeFixed64 :: "bytes \<Rightarrow> u64" where
  "DecodeFixed64 buffer =
     ucast (buffer ! 0) OR push_bit 8 (ucast (buffer ! 1)) OR push_bit 16 (ucast (buffer ! 2))
     OR push_bit 24 (ucast (buffer ! 3)) OR push_bit 32 (ucast (buffer ! 4))
     OR push_bit 40 (ucast (buffer ! 5)) OR push_bit 48 (ucast (buffer ! 6))
     OR push_bit 56 (ucast (buffer ! 7))"

definition PutFixed32 :: "bytes \<Rightarrow> u32 \<Rightarrow> bytes" where
  "PutFixed32 dst value = dst @ EncodeFixed32 value"

definition PutFixed64 :: "bytes \<Rightarrow> u64 \<Rightarrow> bytes" where
  "PutFixed64 dst value = dst @ EncodeFixed64 value"

section \<open>Variable-width integers\<close>

text \<open>The 32-bit encoder is unrolled, one branch per length.\<close>

definition EncodeVarint32 :: "u32 \<Rightarrow> bytes" where
  "EncodeVarint32 v =
     (if v < 2 ^ 7 then [ucast v]
      else if v < 2 ^ 14 then [ucast (v OR 128), ucast (drop_bit 7 v)]
      else if v < 2 ^ 21 then
        [ucast (v OR 128), ucast (drop_bit 7 v OR 128), ucast (drop_bit 14 v)]
      else if v < 2 ^ 28 then
        [ucast (v OR 128), ucast (drop_bit 7 v OR 128), ucast (drop_bit 14 v OR 128),
         ucast (drop_bit 21 v)]
      else
        [ucast (v OR 128), ucast (drop_bit 7 v OR 128), ucast (drop_bit 14 v OR 128),
         ucast (drop_bit 21 v OR 128), ucast (drop_bit 28 v)])"

definition PutVarint32 :: "bytes \<Rightarrow> u32 \<Rightarrow> bytes" where
  "PutVarint32 dst value = dst @ EncodeVarint32 value"

lemma drop_bit_7_less:
  fixes v :: "'a::len word"
  assumes "128 \<le> unat v"
  shows "unat (drop_bit 7 v) < unat v"
proof -
  have "unat (drop_bit 7 v) = unat v div 128"
    by (subst unat_drop_bit_eq) (simp add: drop_bit_eq_div)
  then show ?thesis using assms by simp
qed

text \<open>The 64-bit encoder is the loop.\<close>

function EncodeVarint64 :: "u64 \<Rightarrow> bytes" where
  "EncodeVarint64 value =
     (if 128 \<le> value then ucast (value OR 128) # EncodeVarint64 (drop_bit 7 value)
      else [ucast value])"
  by pat_completeness auto
termination
  by (relation "measure unat") (auto simp: word_le_nat_alt intro!: drop_bit_7_less)

definition PutVarint64 :: "bytes \<Rightarrow> u64 \<Rightarrow> bytes" where
  "PutVarint64 dst value = dst @ EncodeVarint64 value"

function VartintLength :: "u64 \<Rightarrow> nat" where
  "VartintLength v = (if 128 \<le> v then Suc (VartintLength (drop_bit 7 v)) else 1)"
  by pat_completeness auto
termination
  by (relation "measure unat") (auto simp: word_le_nat_alt intro!: drop_bit_7_less)

declare EncodeVarint64.simps [simp del] VartintLength.simps [simp del]

text \<open>
  The decoders read up to five (ten) bytes; \<open>shift\<close> is the loop variable, \<open>result\<close> the
  accumulator.  Bits shifted out of the word are lost, as in the source.
\<close>

fun GetVarint32PtrFallback :: "nat \<Rightarrow> u32 \<Rightarrow> bytes \<Rightarrow> (u32 \<times> bytes) option" where
  "GetVarint32PtrFallback shift result [] = None"
| "GetVarint32PtrFallback shift result (p # ps) =
     (if shift \<le> 28 then
        (if (ucast p :: u32) AND 128 \<noteq> 0 then
           GetVarint32PtrFallback (shift + 7) (result OR push_bit shift (ucast p AND 127)) ps
         else Some (result OR push_bit shift (ucast p), ps))
      else None)"

definition GetVarint32Ptr :: "bytes \<Rightarrow> (u32 \<times> bytes) option" where
  "GetVarint32Ptr ps =
     (case ps of
        [] \<Rightarrow> GetVarint32PtrFallback 0 0 ps
      | p # ps' \<Rightarrow> if (ucast p :: u32) AND 128 = 0 then Some (ucast p, ps')
                   else GetVarint32PtrFallback 0 0 ps)"

definition GetVarint32 :: "bytes \<Rightarrow> (u32 \<times> bytes) option" where
  "GetVarint32 input = GetVarint32Ptr input"

fun GetVarint64Ptr :: "nat \<Rightarrow> u64 \<Rightarrow> bytes \<Rightarrow> (u64 \<times> bytes) option" where
  "GetVarint64Ptr shift result [] = None"
| "GetVarint64Ptr shift result (p # ps) =
     (if shift \<le> 63 then
        (if (ucast p :: u64) AND 128 \<noteq> 0 then
           GetVarint64Ptr (shift + 7) (result OR push_bit shift (ucast p AND 127)) ps
         else Some (result OR push_bit shift (ucast p), ps))
      else None)"

definition GetVarint64 :: "bytes \<Rightarrow> (u64 \<times> bytes) option" where
  "GetVarint64 input = GetVarint64Ptr 0 0 input"

section \<open>Length-prefixed slices\<close>

text \<open>\<open>value.size()\<close> is converted to 32 bits by the call.\<close>

definition PutLengthPrefixedSlice :: "bytes \<Rightarrow> bytes \<Rightarrow> bytes" where
  "PutLengthPrefixedSlice dst value = PutVarint32 dst (of_nat (length value)) @ value"

definition GetLengthPrefixedSlice :: "bytes \<Rightarrow> (bytes \<times> bytes) option" where
  "GetLengthPrefixedSlice input =
     (case GetVarint32 input of
        None \<Rightarrow> None
      | Some (len, rest) \<Rightarrow>
          if unat len \<le> length rest then Some (take (unat len) rest, drop (unat len) rest)
          else None)"

section \<open>Lemmas\<close>

lemma length_EncodeFixed [simp, coding_simps]:
  "length (EncodeFixed32 v) = 4" "length (EncodeFixed64 w) = 8"
  by (simp_all add: EncodeFixed32_def EncodeFixed64_def)


lemma DecodeFixed32_Encode [simp, coding_simps]: "DecodeFixed32 (EncodeFixed32 v @ rest) = v"
proof (rule bit_word_eqI)
  fix n assume n: "n < LENGTH(32)"
  consider "n < 8" | "8 \<le> n" "n < 16" | "16 \<le> n" "n < 24" | "24 \<le> n" using n by linarith
  then show "bit (DecodeFixed32 (EncodeFixed32 v @ rest)) n = bit v n"
    using n by cases (simp_all add: DecodeFixed32_def EncodeFixed32_def bit_simps less_diff_conv2)
qed

lemma DecodeFixed64_Encode [simp, coding_simps]: "DecodeFixed64 (EncodeFixed64 v @ rest) = v"
proof (rule bit_word_eqI)
  fix n assume n: "n < LENGTH(64)"
  consider "n < 8" | "8 \<le> n" "n < 16" | "16 \<le> n" "n < 24" | "24 \<le> n" "n < 32"
    | "32 \<le> n" "n < 40" | "40 \<le> n" "n < 48" | "48 \<le> n" "n < 56" | "56 \<le> n" using n by linarith
  then show "bit (DecodeFixed64 (EncodeFixed64 v @ rest)) n = bit v n"
    using n by cases (simp_all add: DecodeFixed64_def EncodeFixed64_def bit_simps less_diff_conv2)
qed

text \<open>
  Varints: a continuation byte carries seven bits of the value and the marker 128, the last
  byte is below 128; \<open>varint_join\<close> is the step of the decoding loop.
\<close>

lemma bit_128: "bit (128 :: int) n \<longleftrightarrow> n = 7"
proof -
  have "(128 :: int) = 2 ^ 7" by simp
  then show ?thesis by (auto simp only: bit_exp_iff possible_bit_int)
qed

lemma bit_127: "bit (127 :: int) n \<longleftrightarrow> n < 7"
proof -
  have "(127 :: int) = mask 7" by (simp add: mask_eq_exp_minus_1)
  then show ?thesis by (auto simp only: bit_mask_iff possible_bit_int)
qed

lemma take_bit_7_id:
  fixes x :: "'a::len word"
  assumes "x < 128" "8 \<le> LENGTH('a)"
  shows "take_bit 7 x = x"
proof -
  have "(128::nat) < 2 ^ LENGTH('a)"
    using assms(2) power_increasing [of 8 "LENGTH('a)" "2::nat"] by simp
  then have "unat x < 128" using assms by (simp add: word_less_nat_alt take_bit_nat_eq_self)
  then have "take_bit 7 (unat x) = unat x" by (simp add: take_bit_nat_eq_self_iff)
  then show ?thesis
    by (metis unsigned_take_bit_eq unsigned_word_eqI)
qed

lemma cont_byte:
  fixes x :: "'a::len word"
  assumes "8 \<le> LENGTH('a)"
  shows "(ucast (ucast (x OR 128) :: byte) :: 'a word) AND 128 \<noteq> 0"
    and "(ucast (ucast (x OR 128) :: byte) :: 'a word) AND 127 = take_bit 7 x"
proof -
  show "(ucast (ucast (x OR 128) :: byte) :: 'a word) AND 127 = take_bit 7 x"
    by (rule bit_word_eqI) (auto simp: bit_simps bit_128 bit_127)
  have "bit ((ucast (ucast (x OR 128) :: byte) :: 'a word) AND 128) 7"
    using assms by (simp add: bit_simps bit_128)
  then show "(ucast (ucast (x OR 128) :: byte) :: 'a word) AND 128 \<noteq> 0" by auto
qed

lemma last_byte:
  fixes x :: "'a::len word"
  assumes "x < 128" "8 \<le> LENGTH('a)"
  shows "x AND 128 = 0" "(ucast (ucast x :: byte) :: 'a word) = x"
proof -
  have t: "x = take_bit 7 x" using take_bit_7_id [of x] assms by simp
  show "(ucast (ucast x :: byte) :: 'a word) = x"
    by (subst (1 2) t, rule bit_word_eqI) (auto simp: bit_simps)
  show "x AND 128 = 0"
    by (subst t, rule bit_word_eqI) (auto simp: bit_simps bit_128)
qed

lemma varint_join:
  fixes v :: "'a::len word"
  shows "(acc OR push_bit s (take_bit 7 v)) OR push_bit (s + 7) (drop_bit 7 v) = acc OR push_bit s v"
proof (rule bit_word_eqI)
  fix n assume "n < LENGTH('a)"
  then show "bit ((acc OR push_bit s (take_bit 7 v)) OR push_bit (s + 7) (drop_bit 7 v)) n
    = bit (acc OR push_bit s v) n"
    by (cases "n < s + 7") (auto simp: bit_simps not_less)
qed

lemma unat_128: "8 \<le> LENGTH('a::len) \<Longrightarrow> unat (128 :: 'a word) = 128"
proof -
  assume "8 \<le> LENGTH('a)"
  then have "(128::nat) < 2 ^ LENGTH('a)"
    using power_increasing [of 8 "LENGTH('a)" "2::nat"] by simp
  then show ?thesis by (simp add: take_bit_nat_eq_self)
qed

lemma GetVarint64Ptr_Encode:
  assumes "unat v * 2 ^ s < 2 ^ 64" "s \<le> 63"
  shows "GetVarint64Ptr s acc (EncodeVarint64 v @ rest) = Some (acc OR push_bit s v, rest)"
  using assms
proof (induction v arbitrary: s acc rule: EncodeVarint64.induct)
  case (1 v)
  show ?case
  proof (cases "128 \<le> v")
    case True
    then have v: "128 \<le> unat v" by (simp add: word_le_nat_alt)
    have d: "unat (drop_bit 7 v) = unat v div 128" by (subst unat_drop_bit_eq) (simp add: drop_bit_eq_div)
    have "(2::nat) ^ (s + 7) \<le> unat v * 2 ^ s" using v by (simp add: power_add)
    then have "(2::nat) ^ (s + 7) < 2 ^ 64" using "1.prems" by linarith
    then have "s + 7 < 64" using power_less_imp_less_exp [of "2::nat" "s + 7" 64] by simp
    then have s: "s + 7 \<le> 63" by simp
    have "unat v div 128 * 2 ^ (s + 7) \<le> unat v * 2 ^ s" by (simp add: power_add)
    then have "unat (drop_bit 7 v) * 2 ^ (s + 7) < 2 ^ 64" using "1.prems" by (simp only: d)
    from "1.IH" [OF True this s] True "1.prems"(2) show ?thesis
      by (subst EncodeVarint64.simps) (simp add: cont_byte varint_join)
  next
    case False
    with "1.prems" show ?thesis by (subst EncodeVarint64.simps) (auto simp: last_byte not_le)
  qed
qed

lemma GetVarint32PtrFallback_Encode:
  assumes "unat w * 2 ^ s < 2 ^ 32" "s \<le> 28" "7 dvd s"
  shows "GetVarint32PtrFallback s acc (EncodeVarint64 w @ rest) = Some (acc OR push_bit s (ucast w), rest)"
  using assms
proof (induction w arbitrary: s acc rule: EncodeVarint64.induct)
  case (1 v)
  have u: "(ucast (ucast x :: byte) :: u32) = ucast (ucast (ucast x :: u32) :: byte)" for x :: u64
    by (rule bit_word_eqI) (auto simp: bit_simps)
  have o: "(ucast (v OR 128) :: u32) = ucast v OR 128" by (rule bit_word_eqI) (auto simp: bit_simps)
  show ?case
  proof (cases "128 \<le> v")
    case True
    then have v: "128 \<le> unat v" by (simp add: word_le_nat_alt)
    have d: "unat (drop_bit 7 v) = unat v div 128" by (subst unat_drop_bit_eq) (simp add: drop_bit_eq_div)
    have "(2::nat) ^ (s + 7) \<le> unat v * 2 ^ s" using v by (simp add: power_add)
    then have "(2::nat) ^ (s + 7) < 2 ^ 32" using "1.prems" by linarith
    then have "s + 7 < 32" using power_less_imp_less_exp [of "2::nat" "s + 7" 32] by simp
    then have s: "s + 7 \<le> 28" "7 dvd s + 7" using "1.prems"(3) by (auto simp: dvd_def) presburger
    have "unat v div 128 * 2 ^ (s + 7) \<le> unat v * 2 ^ s" by (simp add: power_add)
    then have le: "unat (drop_bit 7 v) * 2 ^ (s + 7) < 2 ^ 32" using "1.prems" by (simp only: d)
    have dd: "(ucast (drop_bit 7 v) :: u32) = drop_bit 7 (ucast v)"
    proof -
      have "unat v < 2 ^ 32" using "1.prems"(1) by (metis le_less_trans nat_mult_le_cancel_disj one_le_numeral one_le_power mult.right_neutral)
      then have v32: "unat (ucast v :: u32) = unat v" "unat v div 128 < 2 ^ 32"
        by (simp_all add: unsigned_ucast_eq take_bit_nat_eq_self)
      have "unat (ucast (drop_bit 7 v) :: u32) = unat v div 128"
        using v32 by (subst unsigned_ucast_eq, subst d) (simp add: take_bit_nat_eq_self)
      moreover have "unat (drop_bit 7 (ucast v :: u32)) = unat v div 128"
        using v32 by (subst unat_drop_bit_eq) (simp add: drop_bit_eq_div)
      ultimately show ?thesis by (metis unsigned_word_eqI)
    qed
    from "1.IH" [OF True le s] True "1.prems"(2) show ?thesis
      by (subst EncodeVarint64.simps) (simp add: u o cont_byte varint_join dd)
  next
    case False
    then have "unat (ucast v :: u32) < 128" by (simp add: word_less_nat_alt not_le unsigned_ucast_eq take_bit_nat_eq_self)
    then have "(ucast v :: u32) < 128" by (simp add: word_less_nat_alt)
    with "1.prems" False show ?thesis by (subst EncodeVarint64.simps) (simp add: u last_byte)
  qed
qed

lemma unat_ucast_32_64 [simp]: "unat (ucast (v :: u32) :: u64) = unat v"
  using unat_word_less [of v] by (subst unsigned_ucast_eq) (auto intro!: take_bit_nat_eq_self)

lemma ucast_ucast_32_64 [simp]: "(ucast (ucast (v :: u32) :: u64) :: u32) = v"
  by (rule bit_word_eqI) (auto simp: bit_simps)

lemma EncodeVarint32_eq: "EncodeVarint32 v = EncodeVarint64 (ucast v)"
proof -
  have o: "(ucast (drop_bit n v OR 128) :: byte) = ucast (drop_bit n (ucast v :: u64) OR 128)"
    "(ucast (drop_bit n v) :: byte) = ucast (drop_bit n (ucast v :: u64))" for n
    by (rule bit_word_eqI; auto simp: bit_simps dest: bit_imp_le_length)+
  have lt: "(128 \<le> drop_bit n (ucast v :: u64)) = (2 ^ (n + 7) \<le> unat v)" for n
  proof -
    have "unat (drop_bit n (ucast v :: u64)) = unat v div 2 ^ n"
      by (subst unat_drop_bit_eq) (simp add: drop_bit_eq_div)
    then show ?thesis
      by (simp only: word_le_nat_alt) (simp add: power_add less_eq_div_iff_mult_less_eq mult.commute)
  qed
  show ?thesis
    using o [of 0] o [of 7] o [of 14] o [of 21] o [of 28] lt [of 0] lt [of 7] lt [of 14] lt [of 21] lt [of 28]
      unat_word_less [of v]
    by (auto simp: EncodeVarint32_def EncodeVarint64.simps word_less_nat_alt)
qed

lemma GetVarint32Ptr_fallback: "GetVarint32Ptr ps = GetVarint32PtrFallback 0 0 ps"
  by (auto simp: GetVarint32Ptr_def split: list.split)

lemma GetVarint32_Encode64 [coding_simps]:
  "unat w < 2 ^ 32 \<Longrightarrow> GetVarint32 (EncodeVarint64 w @ rest) = Some (ucast w, rest)"
  using GetVarint32PtrFallback_Encode [of w 0 0 rest]
  by (simp add: GetVarint32_def GetVarint32Ptr_fallback)

lemma GetVarint32_Encode [simp, coding_simps]: "GetVarint32 (EncodeVarint32 v @ rest) = Some (v, rest)"
  using unat_word_less [of v]
  by (simp add: EncodeVarint32_eq GetVarint32_Encode64)

lemma GetVarint64_Encode [simp, coding_simps]: "GetVarint64 (EncodeVarint64 v @ rest) = Some (v, rest)"
  using unat_word_less [of v] GetVarint64Ptr_Encode [of v 0 0 rest]
  by (simp add: GetVarint64_def)

lemma GetLengthPrefixedSlice_Put [simp, coding_simps]:
  "length v < 2 ^ 32 \<Longrightarrow> GetLengthPrefixedSlice (PutLengthPrefixedSlice [] v @ rest) = Some (v, rest)"
  by (simp add: GetLengthPrefixedSlice_def PutLengthPrefixedSlice_def PutVarint32_def
    unat_of_nat take_bit_nat_eq_self)

lemma length_EncodeVarint64: "length (EncodeVarint64 v) = VartintLength v"
  by (induction v rule: EncodeVarint64.induct)
     (subst EncodeVarint64.simps, subst VartintLength.simps, simp)

lemma VartintLength_pos: "0 < VartintLength v"
  by (subst VartintLength.simps) simp

lemma VartintLength_le: "unat v < 2 ^ (7 * k) \<Longrightarrow> 0 < k \<Longrightarrow> VartintLength v \<le> k"
proof (induction v arbitrary: k rule: VartintLength.induct)
  case (1 v)
  have d: "unat (drop_bit 7 v) = unat v div 128" by (subst unat_drop_bit_eq) (simp add: drop_bit_eq_div)
  show ?case
  proof (cases "128 \<le> v")
    case True
    then have "128 \<le> unat v" by (simp add: word_le_nat_alt)
    with "1.prems" have "k \<noteq> 1" by auto
    then obtain j where k: "k = Suc j" "0 < j" using "1.prems"(2) by (cases k) auto
    have "unat (drop_bit 7 v) < 2 ^ (7 * j)"
      using "1.prems"(1) unfolding d k by (simp add: power_add less_mult_imp_div_less mult.commute)
    with "1.IH" [OF True this k(2)] show ?thesis by (subst VartintLength.simps) (simp add: k)
  qed (use "1.prems" in \<open>subst VartintLength.simps, simp\<close>)
qed

lemma varint_length_bounds:
  "0 < length (EncodeVarint32 x)" "length (EncodeVarint32 x) \<le> 5"
  "0 < length (EncodeVarint64 v)" "length (EncodeVarint64 v) \<le> 10"
  using VartintLength_le [of v 10] unat_word_less [of v]
    VartintLength_le [of "ucast x" 5] unat_word_less [of x]
  by (simp_all add: EncodeVarint32_eq length_EncodeVarint64 VartintLength_pos)

lemma GetVarint32PtrFallback_suffix:
  "GetVarint32PtrFallback s acc ps = Some (v, rest) \<Longrightarrow> suffix rest ps \<and> length rest < length ps"
  by (induction s acc ps rule: GetVarint32PtrFallback.induct)
     (auto split: if_splits intro: suffix_ConsI)

lemma GetVarint64Ptr_suffix:
  "GetVarint64Ptr s acc ps = Some (v, rest) \<Longrightarrow> suffix rest ps \<and> length rest < length ps"
  by (induction s acc ps rule: GetVarint64Ptr.induct)
     (auto split: if_splits intro: suffix_ConsI)

lemma GetLengthPrefixedSlice_shorter:
  assumes "GetLengthPrefixedSlice input = Some (v, rest)"
  shows "length rest < length input"
  using assms GetVarint32PtrFallback_suffix
  by (fastforce simp: GetLengthPrefixedSlice_def GetVarint32_def GetVarint32Ptr_fallback
      split: option.splits if_splits prod.splits)

lemma coding_nil [simp]:
  "DecodeFixed32 (EncodeFixed32 v) = v" "DecodeFixed64 (EncodeFixed64 w) = w"
  "GetVarint32 (EncodeVarint32 v) = Some (v, [])" "GetVarint64 (EncodeVarint64 w) = Some (w, [])"
  using DecodeFixed32_Encode [of v "[]"] DecodeFixed64_Encode [of w "[]"]
    GetVarint32_Encode [of v "[]"] GetVarint64_Encode [of w "[]"] by simp_all

text \<open>An array of fixed-width integers.\<close>

lemma length_fixed_concat: "length (concat (map (\<lambda>r. EncodeFixed32 (f r)) rs)) = 4 * length rs"
  by (induction rs) auto

lemma drop_fixed_concat: "j \<le> length rs \<Longrightarrow>
    drop (j * 4) (concat (map (\<lambda>r. EncodeFixed32 (f r)) rs)) = concat (map (\<lambda>r. EncodeFixed32 (f r)) (drop j rs))"
proof (induction rs arbitrary: j)
  case (Cons r rs)
  then show ?case by (cases j) (simp_all add: add.commute drop_append [of 4] flip: drop_drop)
qed simp

section \<open>Properties\<close>

text \<open>
  C14: Every integer that is appended to a string is read back, and exactly its bytes are
  consumed, whatever follows: fixed-width integers, and varints of 32 and of 64 bits.
\<close>

theorem integer_roundtrip:
  "DecodeFixed32 (PutFixed32 [] a @ rest) = a \<and> DecodeFixed64 (PutFixed64 [] b @ rest) = b
   \<and> GetVarint32 (PutVarint32 [] a @ rest) = Some (a, rest)
   \<and> GetVarint64 (PutVarint64 [] b @ rest) = Some (b, rest)"
  by (simp add: PutFixed32_def PutFixed64_def PutVarint32_def PutVarint64_def)

text \<open>
  C15: The unrolled 32-bit encoder writes the bytes of the 64-bit loop; the loop writes
  \<open>VartintLength\<close> bytes, at most five for a 32-bit value and at most ten for a 64-bit one
  (the sizes of the stack buffers of \<open>PutVarint32\<close> and \<open>PutVarint64\<close>).
\<close>

theorem varint_encoders_agree:
  "EncodeVarint32 a = EncodeVarint64 (ucast a) \<and> length (EncodeVarint64 b) = VartintLength b
   \<and> length (EncodeVarint32 a) \<le> 5 \<and> length (EncodeVarint64 b) \<le> 10"
  using varint_length_bounds length_EncodeVarint64 EncodeVarint32_eq by blast

text \<open>
  C16: A slice that is appended with its length is read back whole and what follows is left
  in the input.
\<close>

theorem length_prefixed_roundtrip:
  "length value < 2 ^ 32 \<Longrightarrow>
   GetLengthPrefixedSlice (PutLengthPrefixedSlice [] value @ rest) = Some (value, rest)"
  by (rule GetLengthPrefixedSlice_Put)

theorem length_prefixed_roundtrip_witness:
  "GetLengthPrefixedSlice (PutLengthPrefixedSlice [] [1, 2, 3] @ [9]) = Some ([1, 2, 3], [9])"
  by (rule length_prefixed_roundtrip) simp

end
