(* ===== verification/Comparators.thy ===== *)
theory Comparators
  imports Coding
begin

text \<open>
  \<^verbatim>\<open>include/slice.h\<close> (comparison of slices) and \<^verbatim>\<open>src/util/comparator.cc\<close>.  The abstract class
  \<open>Comparator\<close> is a record of its virtual functions; the functions that change a
  \<open>std::string*\<close> in place return the new string.  The contract of
  \<^verbatim>\<open>include/comparator.h\<close> is the locale \<open>comparator_contract\<close>: the sign of \<open>Compare\<close> is a
  total preorder, a separator lies in \<open>[start, limit)\<close> and a successor is not below its key.
  The tables, versions and iterators of the later theories rely on this contract only.
\<close>

section \<open>Slices\<close>

text \<open>\<open>memcmp\<close> on two regions of equal length: the sign of the first difference, as
  unsigned bytes.\<close>

fun memcmp :: "bytes \<Rightarrow> bytes \<Rightarrow> int" where
  "memcmp (a # as) (b # bs) = (if a = b then memcmp as bs else if a < b then - 1 else 1)"
| "memcmp _ _ = 0"

definition slice_compare :: "bytes \<Rightarrow> bytes \<Rightarrow> int" where
  "slice_compare a b =
     (let min_len = (if length a < length b then length a else length b);
          r = memcmp (take min_len a) (take min_len b)
      in if r = 0 then
           (if length a < length b then - 1 else if length a > length b then 1 else r)
         else r)"

definition slice_eq :: "bytes \<Rightarrow> bytes \<Rightarrow> bool" where
  "slice_eq x y \<longleftrightarrow> length x = length y \<and> memcmp x (take (length x) y) = 0"

definition starts_with :: "bytes \<Rightarrow> bytes \<Rightarrow> bool" where
  "starts_with a x \<longleftrightarrow> length x \<le> length a \<and> memcmp (take (length x) a) x = 0"

section \<open>Comparators\<close>

record comparator =
  Name :: string
  Compare :: "bytes \<Rightarrow> bytes \<Rightarrow> int"
  FindShortestSeparator :: "bytes \<Rightarrow> bytes \<Rightarrow> bytes"
  FindShortSuccessor :: "bytes \<Rightarrow> bytes"

text \<open>The loop that finds the first position where the two strings differ.\<close>

fun diff_index :: "bytes \<Rightarrow> bytes \<Rightarrow> nat" where
  "diff_index (a # as) (b # bs) = (if a = b then Suc (diff_index as bs) else 0)"
| "diff_index _ _ = 0"

definition bytewise_FindShortestSeparator :: "bytes \<Rightarrow> bytes \<Rightarrow> bytes" where
  "bytewise_FindShortestSeparator start limit =
     (let min_length = min (length start) (length limit);
          i = diff_index start limit
      in if min_length \<le> i then start
         else let diff_byte = start ! i
              in if diff_byte < 255 \<and> unat diff_byte + 1 < unat (limit ! i)
                 then take (i + 1) (start[i := diff_byte + 1])
                 else start)"

fun bytewise_FindShortSuccessor :: "bytes \<Rightarrow> bytes" where
  "bytewise_FindShortSuccessor [] = []"
| "bytewise_FindShortSuccessor (b # bs) =
     (if b \<noteq> 255 then [b + 1] else b # bytewise_FindShortSuccessor bs)"

definition BytewiseComparator :: comparator where
  "BytewiseComparator =
     \<lparr> Name = ''rocketdb.BytewiseComparator'', Compare = slice_compare,
       FindShortestSeparator = bytewise_FindShortestSeparator,
       FindShortSuccessor = bytewise_FindShortSuccessor \<rparr>"

section \<open>The contract\<close>

locale comparator_contract =
  fixes cmp :: comparator and wf :: "bytes \<Rightarrow> bool"
  assumes cmp_refl: "wf a \<Longrightarrow> Compare cmp a a = 0"
    and cmp_sym: "wf a \<Longrightarrow> wf b \<Longrightarrow> Compare cmp a b < 0 \<longleftrightarrow> 0 < Compare cmp b a"
    and cmp_le_trans: "wf a \<Longrightarrow> wf b \<Longrightarrow> wf c \<Longrightarrow>
      Compare cmp a b \<le> 0 \<Longrightarrow> Compare cmp b c \<le> 0 \<Longrightarrow> Compare cmp a c \<le> 0"
    and sep_wf: "wf a \<Longrightarrow> wf b \<Longrightarrow> Compare cmp a b < 0 \<Longrightarrow> wf (FindShortestSeparator cmp a b)"
    and sep_ge: "wf a \<Longrightarrow> wf b \<Longrightarrow> Compare cmp a b < 0 \<Longrightarrow>
      Compare cmp a (FindShortestSeparator cmp a b) \<le> 0"
    and sep_lt: "wf a \<Longrightarrow> wf b \<Longrightarrow> Compare cmp a b < 0 \<Longrightarrow>
      Compare cmp (FindShortestSeparator cmp a b) b < 0"
    and succ_wf: "wf a \<Longrightarrow> wf (FindShortSuccessor cmp a)"
    and succ_ge: "wf a \<Longrightarrow> Compare cmp a (FindShortSuccessor cmp a) \<le> 0"
begin

lemma cmp_eq_sym: "wf a \<Longrightarrow> wf b \<Longrightarrow> Compare cmp a b = 0 \<longleftrightarrow> Compare cmp b a = 0"
  using cmp_sym [of a b] cmp_sym [of b a] by linarith

lemma cmp_not_less: "wf a \<Longrightarrow> wf b \<Longrightarrow> \<not> Compare cmp a b < 0 \<longleftrightarrow> Compare cmp b a \<le> 0"
  using cmp_sym [of a b] by linarith

lemma cmp_less_le_trans:
  assumes "wf a" "wf b" "wf c" "Compare cmp a b < 0" "Compare cmp b c \<le> 0"
  shows "Compare cmp a c < 0"
proof (rule ccontr)
  assume "\<not> Compare cmp a c < 0"
  then have "Compare cmp c a \<le> 0" using assms cmp_not_less by blast
  then have "Compare cmp b a \<le> 0" using assms cmp_le_trans by blast
  then show False using assms cmp_sym by fastforce
qed

lemma cmp_le_less_trans:
  assumes "wf a" "wf b" "wf c" "Compare cmp a b \<le> 0" "Compare cmp b c < 0"
  shows "Compare cmp a c < 0"
proof (rule ccontr)
  assume "\<not> Compare cmp a c < 0"
  then have "Compare cmp c a \<le> 0" using assms cmp_not_less by blast
  then have "Compare cmp c b \<le> 0" using assms cmp_le_trans by blast
  then show False using assms cmp_sym by fastforce
qed

lemma cmp_less_trans:
  "wf a \<Longrightarrow> wf b \<Longrightarrow> wf c \<Longrightarrow> Compare cmp a b < 0 \<Longrightarrow> Compare cmp b c < 0 \<Longrightarrow> Compare cmp a c < 0"
  by (rule cmp_less_le_trans) auto

lemma cmp_cong_left:
  assumes "wf a" "wf b" "wf c" "Compare cmp a b = 0"
  shows "Compare cmp a c < 0 \<longleftrightarrow> Compare cmp b c < 0"
  using assms cmp_le_less_trans [of a b c] cmp_le_less_trans [of b a c] cmp_eq_sym [of a b] by auto

end

text \<open>A comparator that identifies only equal keys and leaves a key that is not below the
  limit alone: what the internal key comparator needs of the user's comparator.\<close>

locale strict_comparator = comparator_contract +
  assumes cmp_eq: "wf a \<Longrightarrow> wf b \<Longrightarrow> Compare cmp a b = 0 \<Longrightarrow> a = b"
    and sep_same: "wf a \<Longrightarrow> FindShortestSeparator cmp a a = a"
begin

lemma cmp_eq_iff: "wf a \<Longrightarrow> wf b \<Longrightarrow> Compare cmp a b = 0 \<longleftrightarrow> a = b"
  using cmp_eq cmp_refl by blast

end

section \<open>Lemmas\<close>

text \<open>\<open>slice_compare\<close> is the lexicographic order on unsigned bytes.\<close>

fun bytes_less :: "bytes \<Rightarrow> bytes \<Rightarrow> bool" where
  "bytes_less [] bs = (bs \<noteq> [])"
| "bytes_less (a # as) [] = False"
| "bytes_less (a # as) (b # bs) = (a < b \<or> a = b \<and> bytes_less as bs)"

lemma bytes_less_Nil [simp]: "\<not> bytes_less a []"
  by (cases a) auto

lemma bytes_less_irrefl [simp]: "\<not> bytes_less a a"
  by (induction a) auto

lemma bytes_less_trans: "bytes_less a b \<Longrightarrow> bytes_less b c \<Longrightarrow> bytes_less a c"
proof (induction a b arbitrary: c rule: bytes_less.induct)
  case (3 a as b bs)
  then show ?case by (cases c) auto
qed auto

lemma bytes_less_linear: "bytes_less a b \<or> a = b \<or> bytes_less b a"
  by (induction a b rule: bytes_less.induct) auto

lemma slice_compare_Nil [simp]:
  "slice_compare [] b = (if b = [] then 0 else - 1)" "slice_compare a [] = (if a = [] then 0 else 1)"
  by (auto simp: slice_compare_def)

lemma slice_compare_Cons [simp]:
  "slice_compare (a # as) (b # bs) =
     (if a = b then slice_compare as bs else if a < b then - 1 else 1)"
  by (auto simp: slice_compare_def Let_def)

lemma slice_compare_less: "slice_compare a b < 0 \<longleftrightarrow> bytes_less a b"
  by (induction a b rule: bytes_less.induct) auto

lemma slice_compare_greater: "0 < slice_compare a b \<longleftrightarrow> bytes_less b a"
  by (induction a b rule: bytes_less.induct) (auto simp: neq_Nil_conv)

lemma slice_compare_eq [simp]: "slice_compare a b = 0 \<longleftrightarrow> a = b"
  by (induction a b rule: bytes_less.induct) auto

lemma slice_compare_le: "slice_compare a b \<le> 0 \<longleftrightarrow> bytes_less a b \<or> a = b"
  using slice_compare_less [of a b] slice_compare_eq [of a b] by linarith

lemmas slice_compare_order [cmp_simps] = slice_compare_less slice_compare_greater slice_compare_le

lemma memcmp_eq_0: "length a = length b \<Longrightarrow> memcmp a b = 0 \<longleftrightarrow> a = b"
  by (induction a b rule: memcmp.induct) auto

lemma slice_eq_iff: "slice_eq x y \<longleftrightarrow> x = y"
  by (auto simp: slice_eq_def memcmp_eq_0)

lemma starts_with_iff: "starts_with a x \<longleftrightarrow> prefix x a"
  by (auto simp: starts_with_def memcmp_eq_0 prefix_def)
     (metis append_take_drop_id)

text \<open>Separators and successors, by induction on the common prefix.\<close>

lemma bytewise_sep_Nil [simp]:
  "bytewise_FindShortestSeparator [] b = []" "bytewise_FindShortestSeparator a [] = a"
  by (auto simp: bytewise_FindShortestSeparator_def)

lemma bytewise_sep_Cons [simp]:
  "bytewise_FindShortestSeparator (a # as) (b # bs) =
     (if a = b then a # bytewise_FindShortestSeparator as bs
      else if a < 255 \<and> unat a + 1 < unat b then [a + 1] else a # as)"
  by (auto simp: bytewise_FindShortestSeparator_def Let_def)

lemma byte_incr:
  fixes a b :: byte
  shows "a \<noteq> 255 \<Longrightarrow> a < a + 1"
    and "Suc (unat a) < unat b \<Longrightarrow> a < a + 1"
    and "Suc (unat a) < unat b \<Longrightarrow> a + 1 < b"
proof -
  have *: "unat (a + 1) = Suc (unat a)" if "a \<noteq> 255"
  proof -
    have "a + 1 \<noteq> 0"
    proof
      assume "a + 1 = 0"
      then have "a = - 1" by (simp add: eq_neg_iff_add_eq_0)
      with that show False by simp
    qed
    then show ?thesis using unatSuc [of a] by (simp add: add.commute)
  qed
  show "a \<noteq> 255 \<Longrightarrow> a < a + 1" using * by (simp add: word_less_nat_alt)
  show "Suc (unat a) < unat b \<Longrightarrow> a < a + 1" "Suc (unat a) < unat b \<Longrightarrow> a + 1 < b"
    using * unat_word_less [of b] by (cases "a = 255"; simp add: word_less_nat_alt)+
qed

lemma bytewise_sep_bounds:
  "bytes_less a b \<Longrightarrow> (a = bytewise_FindShortestSeparator a b \<or> bytes_less a (bytewise_FindShortestSeparator a b))
     \<and> bytes_less (bytewise_FindShortestSeparator a b) b"
  by (induction a b rule: bytes_less.induct) (auto simp: byte_incr)

lemma bytewise_sep_same [simp]: "bytewise_FindShortestSeparator a a = a"
  by (induction a) auto

lemma bytewise_succ_ge:
  "a \<noteq> bytewise_FindShortSuccessor a \<Longrightarrow> bytes_less a (bytewise_FindShortSuccessor a)"
  by (induction a) (auto simp: byte_incr)

interpretation bytewise: strict_comparator BytewiseComparator "\<lambda>_. True"
  by unfold_locales
     (use bytewise_sep_bounds in
       \<open>auto simp: BytewiseComparator_def cmp_simps intro: bytes_less_trans bytewise_succ_ge\<close>)

end
