(* ===== verification/Bloom.thy ===== *)
theory Bloom
  imports Coding
begin

text \<open>
  \<^verbatim>\<open>src/util/hash.cc\<close>, the interface \<^verbatim>\<open>include/filter_policy.h\<close> and its implementation
  \<^verbatim>\<open>src/util/bloom.cc\<close>.  \<open>FilterPolicy\<close> is a record of its virtual functions and its contract
  (a key that was summarised is never ruled out) the locale \<open>filter_policy_contract\<close>.
\<close>

section \<open>Hash\<close>

function Hash_loop :: "u32 \<Rightarrow> u32 \<Rightarrow> bytes \<Rightarrow> u32 \<times> bytes" where
  "Hash_loop m h data =
     (if 4 \<le> length data then
        let w = DecodeFixed32 data;
            h1 = (h + w) * m
        in Hash_loop m (h1 XOR drop_bit 16 h1) (drop 4 data)
      else (h, data))"
  by pat_completeness auto
termination by (relation "measure (\<lambda>(m, h, data). length data)") auto

declare Hash_loop.simps [simp del]

text \<open>The switch over the one to three bytes that are left falls through from 3 to 1.\<close>

definition Hash :: "bytes \<Rightarrow> u32 \<Rightarrow> u32" where
  "Hash data seed =
     (let m = 0xc6a4a793; r = 24;
          (h, left) = Hash_loop m (seed XOR (of_nat (length data) * m)) data;
          h = (if length left = 3 then h + push_bit 16 (ucast (left ! 2)) else h);
          h = (if 2 \<le> length left then h + push_bit 8 (ucast (left ! 1)) else h)
      in if 1 \<le> length left
         then let h = (h + ucast (left ! 0)) * m in h XOR drop_bit r h
         else h)"

section \<open>Filter policies\<close>

record filter_policy =
  fp_Name :: string
  CreateFilter :: "bytes list \<Rightarrow> bytes \<Rightarrow> bytes"
  KeyMayMatch :: "bytes \<Rightarrow> bytes \<Rightarrow> bool"

definition BloomHash :: "bytes \<Rightarrow> u32" where
  "BloomHash key = Hash key 0xbc9f1d34"

text \<open>
  The constructor's \<open>static_cast<size_t>(bits_per_key * 0.69)\<close>, clipped to 1 .. 30; the
  product is exact up to the clipping point, so it is written with integers.
\<close>

definition bloom_k :: "nat \<Rightarrow> nat" where
  "bloom_k bits_per_key =
     (let k = bits_per_key * 69 div 100; k = (if k < 1 then 1 else k) in if 30 < k then 30 else k)"

definition bloom_delta :: "u32 \<Rightarrow> u32" where
  "bloom_delta h = drop_bit 17 h OR push_bit 15 h"

definition bloom_bitpos :: "u32 \<Rightarrow> nat \<Rightarrow> nat" where
  "bloom_bitpos h bits = unat h mod bits"

fun bloom_set_bits :: "nat \<Rightarrow> u32 \<Rightarrow> u32 \<Rightarrow> nat \<Rightarrow> bytes \<Rightarrow> bytes" where
  "bloom_set_bits 0 h delta bits array = array"
| "bloom_set_bits (Suc j) h delta bits array =
     (let bitpos = bloom_bitpos h bits;
          array = array[bitpos div 8 := array ! (bitpos div 8) OR push_bit (bitpos mod 8) 1]
      in bloom_set_bits j (h + delta) delta bits array)"

definition bloom_CreateFilter :: "nat \<Rightarrow> bytes list \<Rightarrow> bytes \<Rightarrow> bytes" where
  "bloom_CreateFilter bits_per_key keys dst =
     (let k = bloom_k bits_per_key;
          bits = length keys * bits_per_key;
          bits = (if bits < 64 then 64 else bits);
          nbytes = (bits + 7) div 8;
          bits = nbytes * 8;
          array = replicate nbytes 0;
          array = fold (\<lambda>key array. let h = BloomHash key
                                    in bloom_set_bits k h (bloom_delta h) bits array) keys array
      in dst @ array @ [of_nat k])"

fun bloom_test_bits :: "nat \<Rightarrow> u32 \<Rightarrow> u32 \<Rightarrow> nat \<Rightarrow> bytes \<Rightarrow> bool" where
  "bloom_test_bits 0 h delta bits array = True"
| "bloom_test_bits (Suc j) h delta bits array =
     (let bitpos = bloom_bitpos h bits
      in if array ! (bitpos div 8) AND push_bit (bitpos mod 8) 1 = 0 then False
         else bloom_test_bits j (h + delta) delta bits array)"

text \<open>\<open>array[len - 1]\<close> is a signed \<open>char\<close>: a byte of 128 or more converts to a huge
  \<open>size_t\<close>, which is above 30 like the byte itself.\<close>

definition bloom_KeyMayMatch :: "bytes \<Rightarrow> bytes \<Rightarrow> bool" where
  "bloom_KeyMayMatch key bloom_filter =
     (let len = length bloom_filter in
      if len < 2 then False
      else let bits = (len - 1) * 8; k = unat (bloom_filter ! (len - 1))
           in if 30 < k then True
              else let h = BloomHash key in bloom_test_bits k h (bloom_delta h) bits bloom_filter)"

definition BloomFilterPolicy :: "nat \<Rightarrow> filter_policy" where
  "BloomFilterPolicy bits_per_key =
     \<lparr> fp_Name = ''rockedb.BuiltinBloomFilter'', CreateFilter = bloom_CreateFilter bits_per_key,
       KeyMayMatch = bloom_KeyMayMatch \<rparr>"

locale filter_policy_contract =
  fixes policy :: filter_policy
  assumes filter_append: "CreateFilter policy keys dst = dst @ CreateFilter policy keys []"
    and filter_no_miss: "key \<in> set keys \<Longrightarrow> KeyMayMatch policy key (CreateFilter policy keys [])"

section \<open>Lemmas\<close>

text \<open>\<open>bloom_bit\<close> reads one bit of the array; setting bits only adds bits.\<close>

definition bloom_bit :: "bytes \<Rightarrow> nat \<Rightarrow> bool" where
  "bloom_bit array p \<longleftrightarrow> bit (array ! (p div 8)) (p mod 8)"

lemma bloom_bit_test: "array ! (p div 8) AND 2 ^ (p mod 8) = 0 \<longleftrightarrow> \<not> bloom_bit array p"
  by (simp add: bloom_bit_def and_exp_eq_0_iff_not_bit)

lemma length_bloom_set_bits [simp]: "length (bloom_set_bits j h d bits array) = length array"
  by (induction j arbitrary: h array) (auto simp: Let_def)

lemma bloom_bit_update:
  assumes "p div 8 < length array"
  shows "bloom_bit (array[p div 8 := array ! (p div 8) OR 2 ^ (p mod 8)]) q
    \<longleftrightarrow> bloom_bit array q \<or> p = q"
proof (cases "p div 8 = q div 8")
  case True
  then have "p = q \<longleftrightarrow> p mod 8 = q mod 8" by (metis div_mult_mod_eq)
  moreover have "bit (2 ^ a :: byte) b \<longleftrightarrow> a = b" if "b < 8" for a b
    using that by (auto simp: bit_exp_iff)
  ultimately show ?thesis using True assms by (auto simp: bloom_bit_def bit_or_iff)
qed (auto simp: bloom_bit_def)

lemma bloom_set_bits_mono:
  assumes "length array = n" "0 < n"
  shows "bloom_bit array q \<Longrightarrow> bloom_bit (bloom_set_bits j h d (8 * n) array) q"
  using assms
proof (induction j arbitrary: h array)
  case (Suc j)
  have "bloom_bitpos h (8 * n) div 8 < length array"
    using Suc.prems by (simp add: bloom_bitpos_def less_mult_imp_div_less mult.commute)
  with Suc show ?case by (simp add: Let_def bloom_bit_update)
qed simp

lemma bloom_set_then_test:
  assumes "length array = n" "0 < n"
  shows "bloom_test_bits j h d (8 * n) (bloom_set_bits j h d (8 * n) array @ tail)"
  using assms
proof (induction j arbitrary: h array)
  case (Suc j)
  let ?p = "bloom_bitpos h (8 * n)"
  let ?a = "array[?p div 8 := array ! (?p div 8) OR 2 ^ (?p mod 8)]"
  have p: "?p div 8 < length array"
    using Suc.prems by (simp add: bloom_bitpos_def less_mult_imp_div_less mult.commute)
  then have "bloom_bit ?a ?p" by (simp add: bloom_bit_update)
  then have "bloom_bit (bloom_set_bits j (h + d) d (8 * n) ?a) ?p"
    using Suc.prems by (intro bloom_set_bits_mono) auto
  then have "bloom_bit (bloom_set_bits j (h + d) d (8 * n) ?a @ tail) ?p"
    using p by (simp add: bloom_bit_def nth_append)
  then show ?case using Suc.IH [of ?a] Suc.prems by (simp add: Let_def bloom_bit_test)
qed simp

lemma bloom_test_mono:
  assumes "\<And>p. p < bits \<Longrightarrow> bloom_bit a p \<Longrightarrow> bloom_bit b p" "0 < bits"
  shows "bloom_test_bits j h d bits a \<Longrightarrow> bloom_test_bits j h d bits b"
  using assms by (induction j arbitrary: h) (auto simp: Let_def bloom_bit_test bloom_bitpos_def split: if_splits)

text \<open>The loop over the keys.\<close>

definition bloom_add :: "nat \<Rightarrow> nat \<Rightarrow> bytes \<Rightarrow> bytes \<Rightarrow> bytes" where
  "bloom_add k bits key array = (let h = BloomHash key in bloom_set_bits k h (bloom_delta h) bits array)"

lemma length_bloom_add [simp]: "length (fold (bloom_add k bits) keys array) = length array"
  by (induction keys arbitrary: array) (auto simp: bloom_add_def Let_def)

lemma bloom_add_mono:
  assumes "length array = n" "0 < n"
  shows "bloom_bit array q \<Longrightarrow> bloom_bit (fold (bloom_add k (8 * n)) keys array) q"
  using assms by (induction keys arbitrary: array) (auto simp: bloom_add_def Let_def bloom_set_bits_mono)

lemma bloom_add_test:
  assumes "length array = n" "0 < n" "key \<in> set keys"
  shows "bloom_test_bits k (BloomHash key) (bloom_delta (BloomHash key)) (8 * n)
    (fold (bloom_add k (8 * n)) keys array @ tail)"
  using assms
proof (induction keys arbitrary: array)
  case (Cons x keys)
  let ?a = "bloom_add k (8 * n) x array"
  have len: "length ?a = length array" by (simp add: bloom_add_def Let_def)
  show ?case
  proof (cases "key \<in> set keys")
    case True
    then show ?thesis using Cons.IH [of ?a] Cons.prems len by simp
  next
    case False
    then have "key = x" using Cons.prems by simp
    then have t: "bloom_test_bits k (BloomHash key) (bloom_delta (BloomHash key)) (8 * n) (?a @ tail)"
      using bloom_set_then_test Cons.prems(1,2) by (simp add: bloom_add_def Let_def)
    have "bloom_bit (fold (bloom_add k (8 * n)) keys ?a @ tail) p"
      if "p < (8 * n)" "bloom_bit (?a @ tail) p" for p
    proof -
      have "p div 8 < length array" using that(1) Cons.prems(1) by (simp add: less_mult_imp_div_less mult.commute)
      then show ?thesis using that(2) bloom_add_mono [of ?a n p k keys] len Cons.prems
        by (simp add: bloom_bit_def nth_append)
    qed
    from bloom_test_mono [OF this _ t] Cons.prems show ?thesis by simp
  qed
qed simp

lemma bloom_k_bounds: "1 \<le> bloom_k b" "bloom_k b \<le> 30"
  by (auto simp: bloom_k_def Let_def)

lemma bloom_CreateFilter_eq:
  "\<exists>nbytes. 8 \<le> nbytes \<and> bloom_CreateFilter b keys dst =
     dst @ fold (bloom_add (bloom_k b) (8 * nbytes)) keys (replicate nbytes 0) @ [of_nat (bloom_k b)]"
proof -
  define bits where "bits = (if length keys * b < 64 then 64 else length keys * b)"
  have "64 \<le> bits" by (simp add: bits_def)
  then have "8 \<le> (bits + 7) div 8" by presburger
  then show ?thesis
    by (intro exI [of _ "(bits + 7) div 8"])
       (simp add: bloom_CreateFilter_def Let_def bloom_add_def [abs_def] bits_def mult.commute [of 8])
qed

interpretation bloom: filter_policy_contract "BloomFilterPolicy bits_per_key" for bits_per_key
proof
  show "CreateFilter (BloomFilterPolicy bits_per_key) keys dst
    = dst @ CreateFilter (BloomFilterPolicy bits_per_key) keys []" for keys dst
    by (simp add: BloomFilterPolicy_def bloom_CreateFilter_def Let_def)
next
  fix key :: bytes and keys assume key: "key \<in> set keys"
  obtain nb where nb: "8 \<le> nb" and f: "bloom_CreateFilter bits_per_key keys [] =
     fold (bloom_add (bloom_k bits_per_key) (8 * nb)) keys (replicate nb 0) @ [of_nat (bloom_k bits_per_key)]"
    using bloom_CreateFilter_eq [of bits_per_key keys "[]"] by auto
  have k: "unat (of_nat (bloom_k bits_per_key) :: byte) = bloom_k bits_per_key"
    using bloom_k_bounds [of bits_per_key] by (simp add: unat_of_nat take_bit_nat_eq_self)
  show "KeyMayMatch (BloomFilterPolicy bits_per_key) key (CreateFilter (BloomFilterPolicy bits_per_key) keys [])"
    using nb k bloom_k_bounds [of bits_per_key] bloom_add_test [of "replicate nb 0" nb key keys] key
    by (simp add: BloomFilterPolicy_def bloom_KeyMayMatch_def f Let_def nth_append mult.commute [of nb])
qed

text \<open>
  C13: The Bloom filter has no false negatives: a key that was given to \<open>CreateFilter\<close> matches
  the bytes \<open>CreateFilter\<close> appends, for every number of bits per key.
\<close>

theorem bloom_no_false_negative:
  assumes "key \<in> set keys"
  shows "\<exists>filter. CreateFilter (BloomFilterPolicy b) keys dst = dst @ filter
    \<and> KeyMayMatch (BloomFilterPolicy b) key filter"
  using bloom.filter_append bloom.filter_no_miss [OF assms] by blast

theorem bloom_no_false_negative_witness:
  "\<exists>filter. CreateFilter (BloomFilterPolicy 10) [[97], [98]] [7] = [7] @ filter
    \<and> KeyMayMatch (BloomFilterPolicy 10) [98] filter"
  by (rule bloom_no_false_negative) simp

end
