(* ===== verification/Dbformat.thy ===== *)
theory Dbformat
  imports Comparators Bloom
begin

text \<open>
  The internal key format of \<^verbatim>\<open>src/db/dbformat.h\<close> and \<^verbatim>\<open>src/db/dbformat.cc\<close>: a user key
  followed by eight bytes that hold the sequence number (56 bits) and the value type, the
  order in which internal keys are stored (by user key, then newest first), and the keys of
  a lookup.
\<close>

section \<open>Constants and data\<close>

definition kNumLevels :: nat where "kNumLevels = 7"
definition kLO_CompactionTrigger :: nat where "kLO_CompactionTrigger = 4"
definition kLO_SlowdownWritesTrigger :: nat where "kLO_SlowdownWritesTrigger = 8"
definition kLO_StopWritesTrigger :: nat where "kLO_StopWritesTrigger = 12"
definition kMaxMeCompactLevel :: nat where "kMaxMeCompactLevel = 2"
definition kReadBytesPeriod :: nat where "kReadBytesPeriod = 1048576"

datatype ValueType = kTypeDeletion | kTypeValue

fun type_code :: "ValueType \<Rightarrow> u64" where
  "type_code kTypeDeletion = 0"
| "type_code kTypeValue = 1"

definition kValueTypeForSeek :: ValueType where "kValueTypeForSeek = kTypeValue"

definition kMaxSequenceNumber :: u64 where "kMaxSequenceNumber = push_bit 56 1 - 1"

record ParsedInternalKey =
  user_key :: bytes
  sequence :: u64
  vtype :: ValueType

section \<open>Encoding\<close>

definition PackSequenceAndType :: "u64 \<Rightarrow> ValueType \<Rightarrow> u64" where
  "PackSequenceAndType seq t = push_bit 8 seq OR type_code t"

definition AppendInternalKey :: "bytes \<Rightarrow> ParsedInternalKey \<Rightarrow> bytes" where
  "AppendInternalKey result key =
     PutFixed64 (result @ user_key key) (PackSequenceAndType (sequence key) (vtype key))"

definition InternalKey :: "bytes \<Rightarrow> u64 \<Rightarrow> ValueType \<Rightarrow> bytes" where
  "InternalKey u s t = AppendInternalKey [] \<lparr> user_key = u, sequence = s, vtype = t \<rparr>"

definition InternalKeyEncodingLength :: "ParsedInternalKey \<Rightarrow> nat" where
  "InternalKeyEncodingLength key = length (user_key key) + 8"

definition ExtractUserKey :: "bytes \<Rightarrow> bytes" where
  "ExtractUserKey internal_key = take (length internal_key - 8) internal_key"

text \<open>\<open>DecodeFixed64(key.data() + key.size() - 8)\<close>, the tag of an internal key.\<close>

definition ExtractTag :: "bytes \<Rightarrow> u64" where
  "ExtractTag internal_key = DecodeFixed64 (drop (length internal_key - 8) internal_key)"

definition ParseInternalKey :: "bytes \<Rightarrow> ParsedInternalKey option" where
  "ParseInternalKey internal_key =
     (let n = length internal_key in
      if n < 8 then None
      else let num = ExtractTag internal_key; c = num AND 255
           in if c \<le> 1 then
                Some \<lparr> user_key = take (n - 8) internal_key, sequence = drop_bit 8 num,
                       vtype = (if c = 0 then kTypeDeletion else kTypeValue) \<rparr>
              else None)"

section \<open>The order of internal keys\<close>

definition InternalKey_Compare :: "comparator \<Rightarrow> bytes \<Rightarrow> bytes \<Rightarrow> int" where
  "InternalKey_Compare ucmp akey bkey =
     (let r = Compare ucmp (ExtractUserKey akey) (ExtractUserKey bkey)
      in if r = 0 then
           let anum = ExtractTag akey; bnum = ExtractTag bkey
           in if anum > bnum then - 1 else if anum < bnum then 1 else r
         else r)"

definition InternalKey_FindShortestSeparator :: "comparator \<Rightarrow> bytes \<Rightarrow> bytes \<Rightarrow> bytes" where
  "InternalKey_FindShortestSeparator ucmp start limit =
     (let user_start = ExtractUserKey start; user_limit = ExtractUserKey limit;
          tmp = FindShortestSeparator ucmp user_start user_limit
      in if length tmp < length user_start \<and> Compare ucmp user_start tmp \<noteq> 0
         then PutFixed64 tmp (PackSequenceAndType kMaxSequenceNumber kValueTypeForSeek)
         else start)"

definition InternalKey_FindShortSuccessor :: "comparator \<Rightarrow> bytes \<Rightarrow> bytes" where
  "InternalKey_FindShortSuccessor ucmp key =
     (let ukey = ExtractUserKey key; tmp = FindShortSuccessor ucmp ukey
      in if length tmp < length ukey \<and> Compare ucmp ukey tmp < 0
         then PutFixed64 tmp (PackSequenceAndType kMaxSequenceNumber kValueTypeForSeek)
         else key)"

definition InternalKeyComparator :: "comparator \<Rightarrow> comparator" where
  "InternalKeyComparator ucmp =
     \<lparr> Name = ''rocketdb.InternalKeyComparator'', Compare = InternalKey_Compare ucmp,
       FindShortestSeparator = InternalKey_FindShortestSeparator ucmp,
       FindShortSuccessor = InternalKey_FindShortSuccessor ucmp \<rparr>"

section \<open>The filter policy over user keys\<close>

definition InternalFilterPolicy :: "filter_policy \<Rightarrow> filter_policy" where
  "InternalFilterPolicy user_policy =
     \<lparr> fp_Name = fp_Name user_policy,
       CreateFilter = (\<lambda>keys dst. CreateFilter user_policy (map ExtractUserKey keys) dst),
       KeyMayMatch = (\<lambda>key f. KeyMayMatch user_policy (ExtractUserKey key) f) \<rparr>"

section \<open>Lookup keys\<close>

text \<open>The buffer from \<open>start_\<close> to \<open>end_\<close>, and \<open>kstart_\<close> as an offset in it.\<close>

record LookupKey =
  lk_space :: bytes
  lk_kstart :: nat

definition LookupKey_init :: "bytes \<Rightarrow> u64 \<Rightarrow> LookupKey" where
  "LookupKey_init ukey s =
     (let klen = EncodeVarint32 (of_nat (length ukey + 8))
      in \<lparr> lk_space = klen @ ukey @ EncodeFixed64 (PackSequenceAndType s kValueTypeForSeek),
           lk_kstart = length klen \<rparr>)"

definition lk_memtable_key :: "LookupKey \<Rightarrow> bytes" where
  "lk_memtable_key k = lk_space k"

definition lk_internal_key :: "LookupKey \<Rightarrow> bytes" where
  "lk_internal_key k = drop (lk_kstart k) (lk_space k)"

definition lk_user_key :: "LookupKey \<Rightarrow> bytes" where
  "lk_user_key k =
     take (length (lk_space k) - lk_kstart k - 8) (drop (lk_kstart k) (lk_space k))"

section \<open>Lemmas\<close>

lemma bytewise_Compare [simp]: "Compare BytewiseComparator = slice_compare"
  by (simp add: BytewiseComparator_def)

lemma unat_kMaxSequenceNumber: "unat kMaxSequenceNumber = 2 ^ 56 - 1"
  by (simp add: kMaxSequenceNumber_def)

lemma le_kMaxSequenceNumber: "s \<le> kMaxSequenceNumber \<longleftrightarrow> unat s < 2 ^ 56"
  using unat_kMaxSequenceNumber by (auto simp: word_le_nat_alt)

lemma type_code_bound: "unat (type_code t) \<le> 1"
  by (cases t) auto

lemma unat_Pack:
  assumes "s \<le> kMaxSequenceNumber"
  shows "unat (PackSequenceAndType s t) = unat s * 256 + unat (type_code t)"
proof -
  have "unat s * 256 < 2 ^ 64" using assms by (simp add: le_kMaxSequenceNumber)
  then have p: "unat (push_bit 8 s) = unat s * 256"
    by (simp add: push_bit_eq_mult unat_word_ariths)
  have d: "push_bit 8 s OR type_code t = push_bit 8 s + type_code t"
    by (rule disjunctive_add [symmetric]) (cases t; auto simp: bit_simps bit_1_iff)
  show ?thesis
    unfolding PackSequenceAndType_def d using p type_code_bound [of t] assms
    by (subst unat_word_ariths) (simp add: le_kMaxSequenceNumber)
qed

lemma Pack_less_iff:
  assumes "s \<le> kMaxSequenceNumber" "s' \<le> kMaxSequenceNumber"
  shows "PackSequenceAndType s t < PackSequenceAndType s' t' \<longleftrightarrow>
    s < s' \<or> s = s' \<and> t = kTypeDeletion \<and> t' = kTypeValue"
proof -
  have "unat s < unat s' \<or> unat s = unat s' \<or> unat s' < unat s" by linarith
  then show ?thesis
    unfolding word_less_nat_alt unat_Pack [OF assms(1)] unat_Pack [OF assms(2)]
    using type_code_bound [of t] type_code_bound [of t']
    by (cases t; cases t') (auto simp: word_unat_eq_iff)
qed

lemma Pack_fields:
  assumes "s \<le> kMaxSequenceNumber"
  shows "drop_bit 8 (PackSequenceAndType s t) = s" "PackSequenceAndType s t AND 255 = type_code t"
proof -
  have "unat (drop_bit 8 (PackSequenceAndType s t)) = unat s"
    using type_code_bound [of t]
    by (subst unat_drop_bit_eq) (simp add: unat_Pack assms drop_bit_eq_div)
  then show "drop_bit 8 (PackSequenceAndType s t) = s" by (simp only: word_unat_eq_iff)
  have m: "(255 :: u64) = mask 8" by (simp add: mask_eq_exp_minus_1)
  show "PackSequenceAndType s t AND 255 = type_code t"
    unfolding m PackSequenceAndType_def
    by (rule bit_word_eqI) (cases t; auto simp: bit_simps bit_1_iff)
qed

lemma user_key_tag_append [simp]:
  "ExtractUserKey (u @ EncodeFixed64 n) = u" "ExtractTag (u @ EncodeFixed64 n) = n"
  by (simp_all add: ExtractUserKey_def ExtractTag_def)

lemma InternalKey_eq: "InternalKey u s t = u @ EncodeFixed64 (PackSequenceAndType s t)"
  by (simp add: InternalKey_def AppendInternalKey_def PutFixed64_def)

lemma InternalKey_parts [simp]:
  "ExtractUserKey (InternalKey u s t) = u" "ExtractTag (InternalKey u s t) = PackSequenceAndType s t"
  "length (InternalKey u s t) = length u + 8"
  by (simp_all add: InternalKey_eq)

lemma ParseInternalKey_InternalKey [simp]:
  assumes "s \<le> kMaxSequenceNumber"
  shows "ParseInternalKey (InternalKey u s t) = Some \<lparr> user_key = u, sequence = s, vtype = t \<rparr>"
  using InternalKey_parts(1) [of u s t]
  by (cases t) (simp_all add: ParseInternalKey_def Let_def Pack_fields assms ExtractUserKey_def)

lemma list8: "length bs = 8 \<Longrightarrow> \<exists>a b c d e f g h. bs = [a, b, c, d, e, f, g, h]"
  by (auto simp: numeral_eq_Suc length_Suc_conv)

lemma EncodeFixed64_Decode:
  assumes "length bs = 8"
  shows "EncodeFixed64 (DecodeFixed64 bs) = bs"
proof -
  obtain a b c d e f g h where bs: "bs = [a, b, c, d, e, f, g, h]" using list8 [OF assms] by blast
  show ?thesis
    unfolding bs EncodeFixed64_def DecodeFixed64_def
    by (simp, intro conjI; rule bit_word_eqI; simp add: bit_simps byte_bit_ge)
qed

lemma internal_key_split:
  assumes "8 \<le> length k"
  shows "k = ExtractUserKey k @ EncodeFixed64 (ExtractTag k)"
  using assms by (simp add: ExtractUserKey_def ExtractTag_def EncodeFixed64_Decode)

lemma ParseInternalKey_SomeD:
  assumes "ParseInternalKey k = Some p"
  shows "k = InternalKey (user_key p) (sequence p) (vtype p)" "8 \<le> length k"
    "sequence p \<le> kMaxSequenceNumber" "user_key p = ExtractUserKey k"
proof -
  have m: "(255 :: u64) = mask 8" by (simp add: mask_eq_exp_minus_1)
  have c: "ExtractTag k AND 255 = type_code (vtype p)" and k: "8 \<le> length k"
    and s: "sequence p = drop_bit 8 (ExtractTag k)" and u: "user_key p = ExtractUserKey k"
    using assms by (auto simp: ParseInternalKey_def Let_def ExtractUserKey_def split: if_splits)
       (metis One_nat_def le_Suc_eq le_zero_eq unat_1 unat_0 word_le_nat_alt word_unat_eq_iff)
  have "PackSequenceAndType (sequence p) (vtype p) = ExtractTag k"
    unfolding PackSequenceAndType_def c [symmetric] s m
    by (rule bit_word_eqI) (auto simp: bit_simps)
  then show "k = InternalKey (user_key p) (sequence p) (vtype p)"
    using internal_key_split [OF k] by (simp add: InternalKey_eq u)
  show "8 \<le> length k" "user_key p = ExtractUserKey k" by (fact k, fact u)
  show "sequence p \<le> kMaxSequenceNumber"
    unfolding le_kMaxSequenceNumber s using unat_word_less [of "ExtractTag k"]
    by (subst unat_drop_bit_eq) (simp add: drop_bit_eq_div)
qed

lemma LookupKey_views:
  "lk_internal_key (LookupKey_init u s) = InternalKey u s kValueTypeForSeek"
  "lk_user_key (LookupKey_init u s) = u"
  "length u + 8 < 2 ^ 32 \<Longrightarrow> lk_memtable_key (LookupKey_init u s) =
     PutLengthPrefixedSlice [] (InternalKey u s kValueTypeForSeek)"
  by (simp_all add: LookupKey_init_def lk_internal_key_def lk_user_key_def lk_memtable_key_def
      InternalKey_eq PutLengthPrefixedSlice_def PutVarint32_def Let_def)

section \<open>The internal comparator keeps the contract\<close>

text \<open>
  The theorems on internal keys are for user comparators that tell any two different keys apart.  The interface of \<^verbatim>\<open>include/comparator.h\<close> does not ask for it, and a
  comparator that ignores case, for one, is not covered.
\<close>

locale internal_keys = user: strict_comparator ucmp "\<lambda>_. True" for ucmp
begin

lemma ik_less: "Compare (InternalKeyComparator ucmp) a b < 0 \<longleftrightarrow>
    Compare ucmp (ExtractUserKey a) (ExtractUserKey b) < 0
    \<or> ExtractUserKey a = ExtractUserKey b \<and> ExtractTag b < ExtractTag a"
  using user.cmp_eq_iff [of "ExtractUserKey a" "ExtractUserKey b"]
  by (auto simp: InternalKeyComparator_def InternalKey_Compare_def Let_def)

lemma ik_greater: "0 < Compare (InternalKeyComparator ucmp) a b \<longleftrightarrow>
    Compare ucmp (ExtractUserKey b) (ExtractUserKey a) < 0
    \<or> ExtractUserKey a = ExtractUserKey b \<and> ExtractTag a < ExtractTag b"
  using user.cmp_eq_iff [of "ExtractUserKey a" "ExtractUserKey b"]
    user.cmp_sym [of "ExtractUserKey b" "ExtractUserKey a"]
  by (auto simp: InternalKeyComparator_def InternalKey_Compare_def Let_def)

lemma ik_eq: "Compare (InternalKeyComparator ucmp) a b = 0 \<longleftrightarrow>
    ExtractUserKey a = ExtractUserKey b \<and> ExtractTag a = ExtractTag b"
  using user.cmp_eq_iff [of "ExtractUserKey a" "ExtractUserKey b"]
  by (auto simp: InternalKeyComparator_def InternalKey_Compare_def Let_def)

lemma ik_le: "Compare (InternalKeyComparator ucmp) a b \<le> 0 \<longleftrightarrow>
    Compare ucmp (ExtractUserKey a) (ExtractUserKey b) < 0
    \<or> ExtractUserKey a = ExtractUserKey b \<and> ExtractTag b \<le> ExtractTag a"
  using ik_less [of a b] ik_eq [of a b] by auto

lemma ik_sep_bounds:
  fixes a b
  defines "s \<equiv> FindShortestSeparator (InternalKeyComparator ucmp) a b"
  assumes wf: "8 \<le> length a" "8 \<le> length b" and ab: "Compare (InternalKeyComparator ucmp) a b < 0"
  shows "8 \<le> length s" "Compare (InternalKeyComparator ucmp) a s \<le> 0"
    "Compare (InternalKeyComparator ucmp) s b < 0"
proof -
  define t where "t = FindShortestSeparator ucmp (ExtractUserKey a) (ExtractUserKey b)"
  show "8 \<le> length s"
    using wf by (auto simp: s_def InternalKeyComparator_def InternalKey_FindShortestSeparator_def
        Let_def PutFixed64_def)
  show "Compare (InternalKeyComparator ucmp) a s \<le> 0" "Compare (InternalKeyComparator ucmp) s b < 0"
  proof (atomize (full), cases "length t < length (ExtractUserKey a) \<and> Compare ucmp (ExtractUserKey a) t \<noteq> 0")
    case False
    then have "s = a"
      by (auto simp: s_def t_def InternalKeyComparator_def InternalKey_FindShortestSeparator_def Let_def)
    with ab show "Compare (InternalKeyComparator ucmp) a s \<le> 0 \<and> Compare (InternalKeyComparator ucmp) s b < 0"
      by (simp add: ik_le)
  next
    case True
    then have s: "s = t @ EncodeFixed64 (PackSequenceAndType kMaxSequenceNumber kValueTypeForSeek)"
      by (simp add: s_def t_def InternalKeyComparator_def InternalKey_FindShortestSeparator_def
          Let_def PutFixed64_def)
    have "ExtractUserKey a \<noteq> ExtractUserKey b"
      using True user.sep_same user.cmp_refl by (auto simp: t_def)
    with ab have lt: "Compare ucmp (ExtractUserKey a) (ExtractUserKey b) < 0" by (auto simp: ik_less)
    then have "Compare ucmp (ExtractUserKey a) t < 0" "Compare ucmp t (ExtractUserKey b) < 0"
      using True user.sep_ge [OF _ _ lt] user.sep_lt [OF _ _ lt] by (auto simp: t_def)
    then show "Compare (InternalKeyComparator ucmp) a s \<le> 0 \<and> Compare (InternalKeyComparator ucmp) s b < 0"
      by (simp add: ik_le ik_less s)
  qed
qed

lemma ik_succ_bounds:
  assumes "8 \<le> length a"
  shows "8 \<le> length (FindShortSuccessor (InternalKeyComparator ucmp) a)"
    "Compare (InternalKeyComparator ucmp) a (FindShortSuccessor (InternalKeyComparator ucmp) a) \<le> 0"
  using assms
  by (auto simp: ik_le)
     (auto simp: InternalKeyComparator_def InternalKey_FindShortSuccessor_def Let_def PutFixed64_def)

lemma ik_sep_same: "8 \<le> length a \<Longrightarrow> FindShortestSeparator (InternalKeyComparator ucmp) a a = a"
  using user.sep_same
  by (simp add: InternalKeyComparator_def InternalKey_FindShortestSeparator_def Let_def)

lemma internal_keys_inject:
  "8 \<le> length a \<Longrightarrow> 8 \<le> length b \<Longrightarrow> ExtractUserKey a = ExtractUserKey b \<Longrightarrow>
   ExtractTag a = ExtractTag b \<Longrightarrow> a = b"
  using internal_key_split by metis

end

sublocale internal_keys \<subseteq> ik: strict_comparator "InternalKeyComparator ucmp" "\<lambda>k. 8 \<le> length k"
proof (unfold_locales, goal_cases)
  case (3 a b c)
  then show ?case
    unfolding ik_le using user.cmp_less_trans by (metis order_trans)
qed (auto simp: ik_eq ik_sep_same intro: ik_sep_bounds ik_succ_bounds internal_keys_inject,
     auto simp: ik_less ik_greater)

interpretation bw: internal_keys BytewiseComparator
  by unfold_locales

lemma internal_filter_contract:
  assumes "filter_policy_contract policy"
  shows "filter_policy_contract (InternalFilterPolicy policy)"
proof (rule filter_policy_contract.intro)
  show "CreateFilter (InternalFilterPolicy policy) keys dst
    = dst @ CreateFilter (InternalFilterPolicy policy) keys []" for keys dst
    using filter_policy_contract.filter_append [OF assms, of "map ExtractUserKey keys" dst]
    by (simp add: InternalFilterPolicy_def)
  show "KeyMayMatch (InternalFilterPolicy policy) key (CreateFilter (InternalFilterPolicy policy) keys [])"
    if "key \<in> set keys" for key keys
    using filter_policy_contract.filter_no_miss [OF assms, of "ExtractUserKey key" "map ExtractUserKey keys"] that
    by (simp add: InternalFilterPolicy_def)
qed

interpretation internal_bloom: filter_policy_contract "InternalFilterPolicy (BloomFilterPolicy b)" for b
  by (rule internal_filter_contract) (rule bloom.filter_policy_contract_axioms)

section \<open>Properties\<close>

text \<open>
  C12: An internal key parses to the user key, the sequence number and the type it was built
  from, and a key that parses is the encoding of what it parsed to.  The internal key of a lookup key parses to the
  user key and the sequence number asked for, with the type that sorts first, its user key is the one asked
  for, and the key it hands to the memtable is the length-prefixed internal key.
\<close>

theorem internal_key_roundtrip:
  "(s \<le> kMaxSequenceNumber \<longrightarrow>
      ParseInternalKey (InternalKey u s t) = Some \<lparr> user_key = u, sequence = s, vtype = t \<rparr>)
   \<and> (ParseInternalKey k = Some p \<longrightarrow>
      InternalKey (user_key p) (sequence p) (vtype p) = k \<and> sequence p \<le> kMaxSequenceNumber)
   \<and> (s \<le> kMaxSequenceNumber \<longrightarrow>
      ParseInternalKey (lk_internal_key (LookupKey_init u s)) = Some \<lparr> user_key = u, sequence = s, vtype = kTypeValue \<rparr>)
   \<and> lk_user_key (LookupKey_init u s) = u
   \<and> (length u + 8 < 2 ^ 32 \<longrightarrow>
      GetLengthPrefixedSlice (lk_memtable_key (LookupKey_init u s)) = Some (lk_internal_key (LookupKey_init u s), []))"
  using ParseInternalKey_SomeD [of k p] GetLengthPrefixedSlice_Put [of "InternalKey u s kTypeValue" "[]"]
  by (simp add: LookupKey_views kValueTypeForSeek_def)

theorem internal_key_roundtrip_witness:
  "ParseInternalKey (InternalKey [97] 5 kTypeValue)
     = Some \<lparr> user_key = [97], sequence = 5, vtype = kTypeValue \<rparr>
   \<and> (5 :: u64) \<le> kMaxSequenceNumber
   \<and> ParseInternalKey (lk_internal_key (LookupKey_init [97] 5)) = Some \<lparr> user_key = [97], sequence = 5, vtype = kTypeValue \<rparr>
   \<and> GetLengthPrefixedSlice (lk_memtable_key (LookupKey_init [97] 5)) = Some (lk_internal_key (LookupKey_init [97] 5), [])"
proof -
  have 5: "(5 :: u64) \<le> kMaxSequenceNumber" by (simp add: kMaxSequenceNumber_def)
  have l: "length [97 :: 8 word] + 8 < 2 ^ 32" by simp
  show ?thesis
    using internal_key_roundtrip [of 5 "[97]" kTypeValue "InternalKey [97] 5 kTypeValue" "\<lparr> user_key = [97], sequence = 5, vtype = kTypeValue \<rparr>"] 5 l by blast
qed

text \<open>
  C10: Internal keys are ordered by user key and, for the same user key, newest first; at
  the same sequence number a value comes before a deletion.
\<close>

theorem internal_key_order:
  assumes "s \<le> kMaxSequenceNumber" "s' \<le> kMaxSequenceNumber"
  shows "Compare (InternalKeyComparator BytewiseComparator) (InternalKey u s t) (InternalKey u' s' t') < 0
    \<longleftrightarrow> bytes_less u u' \<or> u = u' \<and> (s' < s \<or> s' = s \<and> t' = kTypeDeletion \<and> t = kTypeValue)"
  by (simp add: bw.ik_less Pack_less_iff assms bytewise_Compare cmp_simps)

theorem internal_key_order_witness:
  "Compare (InternalKeyComparator BytewiseComparator)
     (InternalKey [97] 7 kTypeDeletion) (InternalKey [97] 5 kTypeValue) < 0"
  using internal_key_order [of 7 5 "[97]" kTypeDeletion "[97]" kTypeValue]
  by (simp add: kMaxSequenceNumber_def)

text \<open>
  C11: The shortened keys of an index block stay in range: a separator of two internal keys
  lies in \<open>[start, limit)\<close>, a successor is not below its key, and neither is longer than the
  key it replaces.
\<close>

theorem internal_separator_in_range:
  assumes "8 \<le> length start" "8 \<le> length limit"
    and "Compare (InternalKeyComparator BytewiseComparator) start limit < 0"
  shows "let sep = FindShortestSeparator (InternalKeyComparator BytewiseComparator) start limit;
             suc = FindShortSuccessor (InternalKeyComparator BytewiseComparator) start
    in Compare (InternalKeyComparator BytewiseComparator) start sep \<le> 0
     \<and> Compare (InternalKeyComparator BytewiseComparator) sep limit < 0
     \<and> length sep \<le> length start
     \<and> Compare (InternalKeyComparator BytewiseComparator) start suc \<le> 0 \<and> length suc \<le> length start"
proof -
  have "length (FindShortestSeparator (InternalKeyComparator BytewiseComparator) start limit) \<le> length start"
    "length (FindShortSuccessor (InternalKeyComparator BytewiseComparator) start) \<le> length start"
    using assms(1) by (auto simp: InternalKeyComparator_def InternalKey_FindShortestSeparator_def
        InternalKey_FindShortSuccessor_def Let_def PutFixed64_def ExtractUserKey_def)
  then show ?thesis
    using bw.ik.sep_ge [OF assms] bw.ik.sep_lt [OF assms] bw.ik.succ_ge [OF assms(1)]
    by (simp add: Let_def)
qed

theorem internal_separator_in_range_witness:
  "let sep = FindShortestSeparator (InternalKeyComparator BytewiseComparator)
               (InternalKey [97, 98, 99] 5 kTypeValue) (InternalKey [97, 120] 9 kTypeValue)
   in Compare (InternalKeyComparator BytewiseComparator) sep (InternalKey [97, 120] 9 kTypeValue) < 0"
  using internal_separator_in_range
      [of "InternalKey [97, 98, 99] 5 kTypeValue" "InternalKey [97, 120] 9 kTypeValue"]
  by (simp add: bw.ik_less Let_def bytewise_Compare)

end
