(* ===== verification/Env_Posix.thy ===== *)
theory Env_Posix
  imports Dbformat
begin

text \<open>
  The file interfaces of \<^verbatim>\<open>include/env.h\<close> and their implementation in
  \<^verbatim>\<open>src/util/env_posix.cc\<close>.  The kernel's side of a file descriptor is an explicit state: the
  contents of the file, the read position, how much is durable, and the outcomes of the
  next system calls (an interrupted call, a short count, an error); when that list is used
  up every call succeeds in full.  \<open>WritableFile\<close> and \<open>SequentialFile\<close> are records of their
  virtual functions over the state of the object; what the log and the tables rely on is
  stated in the locales \<open>writable_file\<close> and \<open>sequential_file\<close>, interpreted on the POSIX classes.
\<close>

section \<open>System calls\<close>

datatype errno = EINTR | ENOENT | EINVAL | EIO

fun strerror :: "errno \<Rightarrow> string" where
  "strerror EINTR = ''Interrupted system call''"
| "strerror ENOENT = ''No such file or directory''"
| "strerror EINVAL = ''Invalid argument''"
| "strerror EIO = ''Input/output error''"

datatype sysevent = Fail errno | Short nat

record fd =
  fd_data :: bytes
  fd_pos :: nat
  fd_synced :: nat
  fd_events :: "sysevent list"

text \<open>A call that is not interrupted transfers at least one byte when it can; \<open>Short k\<close> stops
  after \<open>k + 1\<close> bytes.\<close>

definition sys_read :: "nat \<Rightarrow> fd \<Rightarrow> (errno + bytes) \<times> fd" where
  "sys_read n f =
     (case fd_events f of
        [] \<Rightarrow> (Inr (take n (drop (fd_pos f) (fd_data f))),
               f\<lparr> fd_pos := min (fd_pos f + n) (max (fd_pos f) (length (fd_data f))) \<rparr>)
      | Fail e # es \<Rightarrow> (Inl e, f\<lparr> fd_events := es \<rparr>)
      | Short k # es \<Rightarrow>
          let m = min (Suc k) n
          in (Inr (take m (drop (fd_pos f) (fd_data f))),
              f\<lparr> fd_pos := min (fd_pos f + m) (max (fd_pos f) (length (fd_data f))), fd_events := es \<rparr>))"

definition sys_write :: "bytes \<Rightarrow> fd \<Rightarrow> (errno + nat) \<times> fd" where
  "sys_write data f =
     (case fd_events f of
        [] \<Rightarrow> (Inr (length data), f\<lparr> fd_data := fd_data f @ data \<rparr>)
      | Fail e # es \<Rightarrow> (Inl e, f\<lparr> fd_events := es \<rparr>)
      | Short k # es \<Rightarrow>
          let m = min (Suc k) (length data)
          in (Inr m, f\<lparr> fd_data := fd_data f @ take m data, fd_events := es \<rparr>))"

text \<open>Calls that transfer nothing: \<open>fsync\<close>, \<open>close\<close>, \<open>lseek\<close>, opening the directory.\<close>

definition sys_other :: "fd \<Rightarrow> errno option \<times> fd" where
  "sys_other f =
     (case fd_events f of
        [] \<Rightarrow> (None, f)
      | Fail e # es \<Rightarrow> (Some e, f\<lparr> fd_events := es \<rparr>)
      | Short k # es \<Rightarrow> (None, f\<lparr> fd_events := es \<rparr>))"

definition PosixError :: "string \<Rightarrow> errno \<Rightarrow> status" where
  "PosixError ctx error_number =
     (if error_number = ENOENT then mk_status kNotFound ctx (strerror error_number)
      else mk_status kIOError ctx (strerror error_number))"

lemma PosixError_not_OK [simp]: "PosixError c e \<noteq> OK"
  by (simp add: PosixError_def)

section \<open>Limiter\<close>

text \<open>A counter with atomic operations; each call is one step.\<close>

definition Limiter_Acquire :: "int \<Rightarrow> bool \<times> int" where
  "Limiter_Acquire acquires_allowed =
     (let old = acquires_allowed; a = acquires_allowed - 1
      in if 0 < old then (True, a) else (False, a + 1))"

definition Limiter_Release :: "int \<Rightarrow> int" where
  "Limiter_Release acquires_allowed = acquires_allowed + 1"

section \<open>Sequential files\<close>

record 'f SequentialFile =
  sf_Read :: "nat \<Rightarrow> 'f \<Rightarrow> (status \<times> bytes) \<times> 'f"
  sf_Skip :: "nat \<Rightarrow> 'f \<Rightarrow> status \<times> 'f"

record PosixSequentialFile =
  psf_fd :: fd
  psf_filename :: string

text \<open>The retry loop ends because every retry uses up one outcome.\<close>

function psf_read_loop :: "nat \<Rightarrow> PosixSequentialFile \<Rightarrow> (status \<times> bytes) \<times> PosixSequentialFile" where
  "psf_read_loop n f =
     (case sys_read n (psf_fd f) of
        (Inl e, d) \<Rightarrow>
          if e = EINTR then psf_read_loop n (f\<lparr> psf_fd := d \<rparr>)
          else ((PosixError (psf_filename f) e, []), f\<lparr> psf_fd := d \<rparr>)
      | (Inr bs, d) \<Rightarrow> ((OK, bs), f\<lparr> psf_fd := d \<rparr>))"
  by pat_completeness auto
termination
  by (relation "measure (\<lambda>(n, f). length (fd_events (psf_fd f)))")
     (auto simp: sys_read_def Let_def split: list.splits sysevent.splits)

declare psf_read_loop.simps [simp del]

definition psf_Read :: "nat \<Rightarrow> PosixSequentialFile \<Rightarrow> (status \<times> bytes) \<times> PosixSequentialFile" where
  "psf_Read n f = psf_read_loop n f"

definition psf_Skip :: "nat \<Rightarrow> PosixSequentialFile \<Rightarrow> status \<times> PosixSequentialFile" where
  "psf_Skip n f =
     (case sys_other (psf_fd f) of
        (Some e, d) \<Rightarrow> (PosixError (psf_filename f) e, f\<lparr> psf_fd := d \<rparr>)
      | (None, d) \<Rightarrow> (OK, f\<lparr> psf_fd := d\<lparr> fd_pos := fd_pos d + n \<rparr> \<rparr>))"

definition posix_sequential :: "PosixSequentialFile SequentialFile" where
  "posix_sequential = \<lparr> sf_Read = psf_Read, sf_Skip = psf_Skip \<rparr>"

text \<open>
  \<open>sf_rest\<close> is what is left to read, \<open>sf_healthy\<close> that no fault is pending.  A healthy file
  delivers its bytes in order and in full; any file delivers no more than it has.
\<close>

locale sequential_file =
  fixes sf :: "'f SequentialFile" and sf_rest :: "'f \<Rightarrow> bytes" and sf_healthy :: "'f \<Rightarrow> bool"
  assumes read_healthy: "sf_healthy f \<Longrightarrow>
      \<exists>f'. sf_Read sf n f = ((OK, take n (sf_rest f)), f') \<and> sf_rest f' = drop n (sf_rest f) \<and> sf_healthy f'"
    and read_bounded: "sf_Read sf n f = ((s, bs), f') \<Longrightarrow> length bs + length (sf_rest f') \<le> length (sf_rest f)"
    and skip_bounded: "sf_Skip sf n f = (s, f') \<Longrightarrow> length (sf_rest f') \<le> length (sf_rest f)"

definition psf_rest :: "PosixSequentialFile \<Rightarrow> bytes" where
  "psf_rest f = drop (fd_pos (psf_fd f)) (fd_data (psf_fd f))"

definition psf_healthy :: "PosixSequentialFile \<Rightarrow> bool" where
  "psf_healthy f \<longleftrightarrow> fd_events (psf_fd f) = []"

lemma sys_read_bounded:
  "sys_read n d = (Inr bs, d') \<Longrightarrow>
   length bs + (length (fd_data d') - fd_pos d') \<le> length (fd_data d) - fd_pos d"
  by (auto simp: sys_read_def Let_def split: list.splits sysevent.splits)

lemma sys_read_fail:
  "sys_read n d = (Inl e, d') \<Longrightarrow> fd_data d' = fd_data d \<and> fd_pos d' = fd_pos d"
  by (auto simp: sys_read_def Let_def split: list.splits sysevent.splits)

lemma psf_read_bounded:
  "psf_read_loop n f = ((s, bs), f') \<Longrightarrow> length bs + length (psf_rest f') \<le> length (psf_rest f)"
proof (induction n f rule: psf_read_loop.induct)
  case (1 n f)
  obtain r d where r: "sys_read n (psf_fd f) = (r, d)" by fastforce
  show ?case
  proof (cases r)
    case (Inl e)
    then show ?thesis
      using "1.IH" [OF r [symmetric] Inl] "1.prems" r sys_read_fail [of n "psf_fd f" e d]
      by (subst (asm) psf_read_loop.simps) (auto simp: psf_rest_def split: if_splits)
  next
    case (Inr bs')
    then show ?thesis
      using "1.prems" r sys_read_bounded [of n "psf_fd f" bs' d]
      by (subst (asm) psf_read_loop.simps) (auto simp: psf_rest_def)
  qed
qed

interpretation psf: sequential_file posix_sequential psf_rest psf_healthy
proof
  fix f n assume "psf_healthy f"
  then show "\<exists>f'. sf_Read posix_sequential n f = ((OK, take n (psf_rest f)), f')
      \<and> psf_rest f' = drop n (psf_rest f) \<and> psf_healthy f'"
    by (auto simp: posix_sequential_def psf_Read_def psf_read_loop.simps sys_read_def psf_healthy_def
        psf_rest_def min_def max_def add.commute [of n])
next
  fix n f s bs f' assume "sf_Read posix_sequential n f = ((s, bs), f')"
  then show "length bs + length (psf_rest f') \<le> length (psf_rest f)"
    by (simp add: posix_sequential_def psf_Read_def psf_read_bounded)
next
  fix n f s f' assume "sf_Skip posix_sequential n f = (s, f')"
  then show "length (psf_rest f') \<le> length (psf_rest f)"
    by (auto simp: posix_sequential_def psf_Skip_def psf_rest_def sys_other_def
        split: prod.splits option.splits list.splits sysevent.splits)
qed

section \<open>Random access files\<close>

text \<open>
  \<open>PosixRandomAccessFile\<close> reads with \<open>pread\<close>, which does not move the position and is not retried
  here; a file without a permanent descriptor is opened for every read (\<open>open_result\<close> is the
  outcome of that call).
\<close>

record PosixRandomAccessFile =
  praf_has_permanent_fd :: bool
  praf_fd :: fd
  praf_filename :: string

definition sys_pread :: "nat \<Rightarrow> nat \<Rightarrow> fd \<Rightarrow> (errno + bytes) \<times> fd" where
  "sys_pread n offset f =
     (case fd_events f of
        [] \<Rightarrow> (Inr (take n (drop offset (fd_data f))), f)
      | Fail e # es \<Rightarrow> (Inl e, f\<lparr> fd_events := es \<rparr>)
      | Short k # es \<Rightarrow> (Inr (take (min (Suc k) n) (drop offset (fd_data f))), f\<lparr> fd_events := es \<rparr>))"

definition praf_Read :: "nat \<Rightarrow> nat \<Rightarrow> PosixRandomAccessFile \<Rightarrow> (status \<times> bytes) \<times> PosixRandomAccessFile" where
  "praf_Read offset n f =
     (let (opened, d) = (if praf_has_permanent_fd f then (None, praf_fd f) else sys_other (praf_fd f))
      in case opened of
           Some e \<Rightarrow> ((PosixError (praf_filename f) e, []), f\<lparr> praf_fd := d \<rparr>)
         | None \<Rightarrow>
             (case sys_pread n offset d of
                (Inl e, d) \<Rightarrow> ((PosixError (praf_filename f) e, []), f\<lparr> praf_fd := d \<rparr>)
              | (Inr bs, d) \<Rightarrow> ((OK, bs), f\<lparr> praf_fd := d \<rparr>)))"

text \<open>\<open>PosixMmapReadableFile\<close>: \<open>mmap_base_\<close> and \<open>length_\<close> are the mapped bytes.\<close>

definition mmap_Read :: "string \<Rightarrow> bytes \<Rightarrow> nat \<Rightarrow> nat \<Rightarrow> status \<times> bytes" where
  "mmap_Read filename region offset n =
     (if offset + n > length region then (PosixError filename EINVAL, [])
      else (OK, take n (drop offset region)))"

lemma praf_Read_normal:
  "fd_events (praf_fd f) = [] \<Longrightarrow> praf_Read offset n f = ((OK, take n (drop offset (fd_data (praf_fd f)))), f)"
  by (cases f) (simp add: praf_Read_def sys_pread_def sys_other_def)

section \<open>Writable files\<close>

record 'f WritableFile =
  wf_Append :: "bytes \<Rightarrow> 'f \<Rightarrow> status \<times> 'f"
  wf_Close :: "'f \<Rightarrow> status \<times> 'f"
  wf_Flush :: "'f \<Rightarrow> status \<times> 'f"
  wf_Sync :: "'f \<Rightarrow> status \<times> 'f"

definition kWritableFileBufferSize :: nat where "kWritableFileBufferSize = 65536"

definition Basename :: "string \<Rightarrow> string" where
  "Basename filename = rev (takeWhile (\<lambda>c. c \<noteq> CHR 0x2f) (rev filename))"

definition Dirname :: "string \<Rightarrow> string" where
  "Dirname filename =
     (if CHR 0x2f \<notin> set filename then ''.''
      else take (length filename - length (Basename filename) - 1) filename)"

definition IsManifest :: "string \<Rightarrow> bool" where
  "IsManifest filename \<longleftrightarrow> take 8 (Basename filename) = ''MANIFEST''"

text \<open>\<open>pwf_buf\<close> is \<open>buf_[0, pos_ - 1]\<close>; \<open>pwf_open\<close> is false once \<open>fd_\<close> is -1.\<close>

record PosixWritableFile =
  pwf_buf :: bytes
  pwf_fd :: fd
  pwf_open :: bool
  pwf_is_manifest :: bool
  pwf_filename :: string
  pwf_dirname :: string

definition PosixWritableFile_init :: "string \<Rightarrow> fd \<Rightarrow> PosixWritableFile" where
  "PosixWritableFile_init filename d =
     \<lparr> pwf_buf = [], pwf_fd = d, pwf_open = True, pwf_is_manifest = IsManifest filename,
       pwf_filename = filename, pwf_dirname = Dirname filename \<rparr>"

function WriteUnbuffered :: "bytes \<Rightarrow> PosixWritableFile \<Rightarrow> status \<times> PosixWritableFile" where
  "WriteUnbuffered data f =
     (if data = [] then (OK, f)
      else case sys_write data (pwf_fd f) of
             (Inl e, d) \<Rightarrow>
               if e = EINTR then WriteUnbuffered data (f\<lparr> pwf_fd := d \<rparr>)
               else (PosixError (pwf_filename f) e, f\<lparr> pwf_fd := d \<rparr>)
           | (Inr n, d) \<Rightarrow> WriteUnbuffered (drop n data) (f\<lparr> pwf_fd := d \<rparr>))"
  by pat_completeness auto
termination
  by (relation "measure (\<lambda>(data, f). length data + length (fd_events (pwf_fd f)))")
     (auto simp: sys_write_def Let_def split: list.splits sysevent.splits)

declare WriteUnbuffered.simps [simp del]

definition FlushBuffer :: "PosixWritableFile \<Rightarrow> status \<times> PosixWritableFile" where
  "FlushBuffer f =
     (let (s, f) = WriteUnbuffered (pwf_buf f) f in (s, f\<lparr> pwf_buf := [] \<rparr>))"

definition pwf_Append :: "bytes \<Rightarrow> PosixWritableFile \<Rightarrow> status \<times> PosixWritableFile" where
  "pwf_Append data f =
     (let copy_size = min (length data) (kWritableFileBufferSize - length (pwf_buf f));
          f = f\<lparr> pwf_buf := pwf_buf f @ take copy_size data \<rparr>;
          write_data = drop copy_size data
      in if write_data = [] then (OK, f)
         else let (s, f) = FlushBuffer f
              in if \<not> ok s then (s, f)
                 else if length write_data < kWritableFileBufferSize
                      then (OK, f\<lparr> pwf_buf := write_data \<rparr>)
                      else WriteUnbuffered write_data f)"

definition pwf_Close :: "PosixWritableFile \<Rightarrow> status \<times> PosixWritableFile" where
  "pwf_Close f =
     (let (s, f) = FlushBuffer f;
          (r, d) = sys_other (pwf_fd f);
          s = (case r of Some e \<Rightarrow> if ok s then PosixError (pwf_filename f) e else s | None \<Rightarrow> s)
      in (s, f\<lparr> pwf_fd := d, pwf_open := False \<rparr>))"

definition SyncFd :: "string \<Rightarrow> fd \<Rightarrow> status \<times> fd" where
  "SyncFd fd_path d =
     (case sys_other d of
        (None, d) \<Rightarrow> (OK, d\<lparr> fd_synced := length (fd_data d) \<rparr>)
      | (Some e, d) \<Rightarrow> (PosixError fd_path e, d))"

text \<open>The directory is opened and synced through a descriptor of its own; its outcomes are
  taken from the same list.\<close>

definition SyncDirIfManifest :: "PosixWritableFile \<Rightarrow> status \<times> PosixWritableFile" where
  "SyncDirIfManifest f =
     (if \<not> pwf_is_manifest f then (OK, f)
      else case sys_other (pwf_fd f) of
             (Some e, d) \<Rightarrow> (PosixError (pwf_dirname f) e, f\<lparr> pwf_fd := d \<rparr>)
           | (None, d) \<Rightarrow>
               (case sys_other d of
                  (Some e, d) \<Rightarrow> (PosixError (pwf_dirname f) e, f\<lparr> pwf_fd := d \<rparr>)
                | (None, d) \<Rightarrow> (OK, f\<lparr> pwf_fd := d \<rparr>)))"

definition pwf_Sync :: "PosixWritableFile \<Rightarrow> status \<times> PosixWritableFile" where
  "pwf_Sync f =
     (let (s, f) = SyncDirIfManifest f in
      if \<not> ok s then (s, f)
      else let (s, f) = FlushBuffer f in
           if \<not> ok s then (s, f)
           else let (s, d) = SyncFd (pwf_filename f) (pwf_fd f) in (s, f\<lparr> pwf_fd := d \<rparr>))"

definition posix_writable :: "PosixWritableFile WritableFile" where
  "posix_writable =
     \<lparr> wf_Append = pwf_Append, wf_Close = pwf_Close, wf_Flush = FlushBuffer, wf_Sync = pwf_Sync \<rparr>"

text \<open>
  What a writer may assume of a file: \<open>wf_written\<close> is everything appended so far (buffered or
  not), \<open>wf_stored\<close> what the operating system has, \<open>wf_durable\<close> what survives a power failure.
  As long as the calls succeed, appended bytes are kept in order, \<open>Flush\<close> hands them to the
  system and \<open>Sync\<close> makes them durable.  A \<open>clean\<close> file has an empty buffer, so that a small
  append cannot fail.
\<close>

locale writable_file =
  fixes wf :: "'f WritableFile" and wf_written wf_stored wf_durable :: "'f \<Rightarrow> bytes"
    and wf_clean :: "'f \<Rightarrow> bool"
  assumes append_ok: "wf_Append wf data f = (OK, f') \<Longrightarrow>
      wf_written f' = wf_written f @ data \<and> prefix (wf_stored f) (wf_stored f')"
    and flush_ok: "wf_Flush wf f = (OK, f') \<Longrightarrow>
      wf_written f' = wf_written f \<and> wf_stored f' = wf_written f \<and> wf_clean f'"
    and append_clean: "wf_clean f \<Longrightarrow> length data < 4096 \<Longrightarrow> fst (wf_Append wf data f) = OK"
    and sync_ok: "wf_Sync wf f = (OK, f') \<Longrightarrow>
      wf_written f' = wf_written f \<and> wf_stored f' = wf_written f \<and> wf_durable f' = wf_written f"
    and close_ok: "wf_Close wf f = (OK, f') \<Longrightarrow>
      wf_written f' = wf_written f \<and> wf_stored f' = wf_written f"
    and stored_written: "prefix (wf_stored f) (wf_written f)"

definition pwf_written :: "PosixWritableFile \<Rightarrow> bytes" where
  "pwf_written f = fd_data (pwf_fd f) @ pwf_buf f"

definition pwf_stored :: "PosixWritableFile \<Rightarrow> bytes" where
  "pwf_stored f = fd_data (pwf_fd f)"

definition pwf_durable :: "PosixWritableFile \<Rightarrow> bytes" where
  "pwf_durable f = take (fd_synced (pwf_fd f)) (fd_data (pwf_fd f))"

definition pwf_clean :: "PosixWritableFile \<Rightarrow> bool" where
  "pwf_clean f \<longleftrightarrow> pwf_buf f = []"

lemma WriteUnbuffered_data:
  "WriteUnbuffered data f = (s, f') \<Longrightarrow>
     (\<exists>n. fd_data (pwf_fd f') = fd_data (pwf_fd f) @ take n data) \<and> pwf_buf f' = pwf_buf f
     \<and> (s = OK \<longrightarrow> fd_data (pwf_fd f') = fd_data (pwf_fd f) @ data)"
proof (induction data f rule: WriteUnbuffered.induct)
  case (1 data f)
  show ?case
  proof (cases "data = []")
    case False
    obtain r d where r: "sys_write data (pwf_fd f) = (r, d)" by fastforce
    show ?thesis
    proof (cases r)
      case (Inl e)
      then have d: "fd_data d = fd_data (pwf_fd f)"
        using r by (auto simp: sys_write_def Let_def split: list.splits sysevent.splits)
      show ?thesis
      proof (cases "e = EINTR")
        case True
        then have "WriteUnbuffered data (f\<lparr> pwf_fd := d \<rparr>) = (s, f')"
          using "1.prems" False r Inl by (subst (asm) WriteUnbuffered.simps) simp
        from "1.IH"(1) [OF False r [symmetric] Inl True this] show ?thesis using d by simp
      next
        case e: False
        then have "f' = f\<lparr> pwf_fd := d \<rparr>" "s \<noteq> OK"
          using "1.prems" False r Inl by (auto simp: WriteUnbuffered.simps)
        then show ?thesis using d by (auto intro: exI [of _ 0])
      qed
    next
      case (Inr n)
      then have d: "fd_data d = fd_data (pwf_fd f) @ take n data"
        using r by (auto simp: sys_write_def Let_def split: list.splits sysevent.splits)
      have "WriteUnbuffered (drop n data) (f\<lparr> pwf_fd := d \<rparr>) = (s, f')"
        using "1.prems" False r Inr by (subst (asm) WriteUnbuffered.simps) simp
      from "1.IH"(2) [OF False r [symmetric] Inr this] show ?thesis
        using d by (auto simp: take_add [symmetric])
    qed
  qed (use "1.prems" in \<open>auto simp: WriteUnbuffered.simps\<close>)
qed

lemma FlushBuffer_ok:
  "FlushBuffer f = (OK, f') \<Longrightarrow>
   fd_data (pwf_fd f') = fd_data (pwf_fd f) @ pwf_buf f \<and> pwf_buf f' = []"
  using WriteUnbuffered_data [of "pwf_buf f" f]
  by (auto simp: FlushBuffer_def split: prod.splits)

lemma sys_other_data: "sys_other d = (r, d') \<Longrightarrow> fd_data d' = fd_data d"
  by (auto simp: sys_other_def split: list.splits sysevent.splits)

lemma SyncDir_ok:
  "SyncDirIfManifest f = (s, f') \<Longrightarrow> fd_data (pwf_fd f') = fd_data (pwf_fd f) \<and> pwf_buf f' = pwf_buf f"
  by (auto simp: SyncDirIfManifest_def dest!: sys_other_data split: if_splits prod.splits option.splits)

lemma pwf_Append_ok:
  assumes "pwf_Append data f = (OK, f')"
  shows "pwf_written f' = pwf_written f @ data \<and> prefix (pwf_stored f) (pwf_stored f')"
proof -
  define c where "c = min (length data) (kWritableFileBufferSize - length (pwf_buf f))"
  define g where "g = f\<lparr> pwf_buf := pwf_buf f @ take c data \<rparr>"
  obtain s h where h: "FlushBuffer g = (s, h)" by fastforce
  have eq: "pwf_Append data f = (if drop c data = [] then (OK, g) else if \<not> ok s then (s, h)
      else if length (drop c data) < kWritableFileBufferSize then (OK, h\<lparr> pwf_buf := drop c data \<rparr>)
      else WriteUnbuffered (drop c data) h)"
    by (simp only: pwf_Append_def Let_def c_def [symmetric] g_def [symmetric] h prod.case)
  have g: "pwf_written g = pwf_written f @ take c data" "pwf_stored g = pwf_stored f"
    by (simp_all add: g_def pwf_written_def pwf_stored_def)
  show ?thesis
  proof (cases "drop c data = []")
    case True
    then have "f' = g" using assms eq by simp
    then show ?thesis using g True by simp
  next
    case False
    then have s: "s = OK" using assms eq by (cases s) auto
    have hd: "pwf_stored h = pwf_written g" "pwf_buf h = []"
      using FlushBuffer_ok [OF h [unfolded s]] by (simp_all add: pwf_written_def pwf_stored_def)
    have "f' = h\<lparr> pwf_buf := drop c data \<rparr> \<or> WriteUnbuffered (drop c data) h = (OK, f')"
      using assms eq False s by (simp split: if_splits)
    then have w: "pwf_written f' = pwf_stored h @ drop c data \<and> prefix (pwf_stored h) (pwf_stored f')"
    proof
      assume "WriteUnbuffered (drop c data) h = (OK, f')"
      from WriteUnbuffered_data [OF this] show ?thesis
        using hd(2) by (simp add: pwf_written_def pwf_stored_def)
    qed (simp add: pwf_written_def pwf_stored_def)
    have "prefix (pwf_stored f) (pwf_stored h)" unfolding hd g by (simp add: pwf_written_def pwf_stored_def)
    with w show ?thesis unfolding hd g by (auto intro: prefix_order.trans)
  qed
qed

interpretation pwf: writable_file posix_writable pwf_written pwf_stored pwf_durable pwf_clean
proof
  fix data f f' assume "wf_Append posix_writable data f = (OK, f')"
  then show "pwf_written f' = pwf_written f @ data \<and> prefix (pwf_stored f) (pwf_stored f')"
    by (intro pwf_Append_ok) (simp add: posix_writable_def)
next
  fix f f' assume "wf_Flush posix_writable f = (OK, f')"
  then show "pwf_written f' = pwf_written f \<and> pwf_stored f' = pwf_written f \<and> pwf_clean f'"
    using FlushBuffer_ok [of f f']
    by (simp add: posix_writable_def pwf_written_def pwf_stored_def pwf_clean_def)
next
  fix f and data :: bytes assume "pwf_clean f" "length data < 4096"
  then show "fst (wf_Append posix_writable data f) = OK"
    by (simp add: posix_writable_def pwf_Append_def pwf_clean_def kWritableFileBufferSize_def Let_def)
next
  fix f f' assume "wf_Sync posix_writable f = (OK, f')"
  then show "pwf_written f' = pwf_written f \<and> pwf_stored f' = pwf_written f \<and> pwf_durable f' = pwf_written f"
    by (auto simp: posix_writable_def pwf_Sync_def SyncFd_def pwf_written_def pwf_stored_def pwf_durable_def
        dest!: FlushBuffer_ok SyncDir_ok sys_other_data split: prod.splits if_splits option.splits)
next
  fix f f' assume "wf_Close posix_writable f = (OK, f')"
  then show "pwf_written f' = pwf_written f \<and> pwf_stored f' = pwf_written f"
    by (auto simp: posix_writable_def pwf_Close_def pwf_written_def pwf_stored_def
        dest!: FlushBuffer_ok sys_other_data split: prod.splits if_splits option.splits)
qed (simp add: pwf_written_def pwf_stored_def)

end
