(* ===== verification/Crc32c.thy ===== *)
theory Crc32c
  imports Crc_Tables
begin

text \<open>
  The checksum of \<^verbatim>\<open>src/util/crc32c.cc\<close> and \<^verbatim>\<open>src/util/crc32c.h\<close>: the tables, the strided
  portable loop of \<open>Extend\<close>, and the masking of stored checksums.  The address of the buffer
  (which decides how many bytes are handled before the first aligned word) and the
  accelerated routine of \<^verbatim>\<open>src/port/port_stdcxx.h\<close> (an external library, absent when
  \<open>HAVE_CRC32C\<close> is not set) are parameters.  The reference the loop is compared with works
  bit by bit with the reflected Castagnoli polynomial.
\<close>

section \<open>Extend\<close>

definition kCRC32Xor :: u32 where "kCRC32Xor = 0xffffffff"

definition ReadUint32LE :: "bytes \<Rightarrow> u32" where
  "ReadUint32LE buffer = DecodeFixed32 buffer"

definition RoundUp4 :: "nat \<Rightarrow> nat" where
  "RoundUp4 pointer = (pointer + 3) div 4 * 4"

definition AcceleratedCRC32C :: "(u32 \<Rightarrow> bytes \<Rightarrow> u32) option \<Rightarrow> u32 \<Rightarrow> bytes \<Rightarrow> u32" where
  "AcceleratedCRC32C accel crc buf = (case accel of Some f \<Rightarrow> f crc buf | None \<Rightarrow> 0)"

definition kTestCRCBuffer :: bytes where "kTestCRCBuffer = str ''TestCRCBuffer''"

definition CanAccelerateCRC32C :: "(u32 \<Rightarrow> bytes \<Rightarrow> u32) option \<Rightarrow> bool" where
  "CanAccelerateCRC32C accel \<longleftrightarrow> AcceleratedCRC32C accel 0 kTestCRCBuffer = 0xdcbc59fa"

definition STEP1 :: "byte \<Rightarrow> u32 \<Rightarrow> u32" where
  "STEP1 p l = (let c = (l AND 255) XOR ucast p in kByteExtensionTable ! unat c XOR drop_bit 8 l)"

definition STEP4 :: "u32 \<Rightarrow> u32 \<Rightarrow> u32" where
  "STEP4 w crc = w XOR kStrideExtensionTable3 ! unat (crc AND 255)
     XOR kStrideExtensionTable2 ! unat (drop_bit 8 crc AND 255)
     XOR kStrideExtensionTable1 ! unat (drop_bit 16 crc AND 255)
     XOR kStrideExtensionTable0 ! unat (drop_bit 24 crc)"

definition STEP4W :: "u32 \<Rightarrow> u32 \<Rightarrow> u32" where
  "STEP4W w l = ((\<lambda>w. drop_bit 8 w XOR kByteExtensionTable ! unat (w AND 255)) ^^ 4) (w XOR l)"

type_synonym strides = "u32 \<times> u32 \<times> u32 \<times> u32"

function crc_swaths :: "strides \<Rightarrow> bytes \<Rightarrow> strides \<times> bytes" where
  "crc_swaths (crc0, crc1, crc2, crc3) p =
     (if 16 \<le> length p then
        crc_swaths (STEP4 (ReadUint32LE p) crc0, STEP4 (ReadUint32LE (drop 4 p)) crc1,
                    STEP4 (ReadUint32LE (drop 8 p)) crc2, STEP4 (ReadUint32LE (drop 12 p)) crc3)
          (drop 16 p)
      else ((crc0, crc1, crc2, crc3), p))"
  by pat_completeness auto
termination by (relation "measure (\<lambda>(s, p). length p)") auto

function crc_words :: "strides \<Rightarrow> bytes \<Rightarrow> strides \<times> bytes" where
  "crc_words (crc0, crc1, crc2, crc3) p =
     (if 4 \<le> length p then
        crc_words (crc1, crc2, crc3, STEP4 (ReadUint32LE p) crc0) (drop 4 p)
      else ((crc0, crc1, crc2, crc3), p))"
  by pat_completeness auto
termination by (relation "measure (\<lambda>(s, p). length p)") auto

definition Extend :: "(u32 \<Rightarrow> bytes \<Rightarrow> u32) option \<Rightarrow> nat \<Rightarrow> u32 \<Rightarrow> bytes \<Rightarrow> u32" where
  "Extend accel addr crc data =
     (if CanAccelerateCRC32C accel then AcceleratedCRC32C accel crc data
      else
        let l = crc XOR kCRC32Xor;
            x = RoundUp4 addr - addr;
            (l, p) = (if x \<le> length data then (fold STEP1 (take x data) l, drop x data) else (l, data));
            (l, p) =
              (if 16 \<le> length p then
                 let s = (ReadUint32LE p XOR l, ReadUint32LE (drop 4 p), ReadUint32LE (drop 8 p),
                          ReadUint32LE (drop 12 p));
                     (s, p) = crc_swaths s (drop 16 p);
                     ((crc0, crc1, crc2, crc3), p) = crc_words s p
                 in (STEP4W crc3 (STEP4W crc2 (STEP4W crc1 (STEP4W crc0 0))), p)
               else (l, p))
        in fold STEP1 p l XOR kCRC32Xor)"

text \<open>What the rest of the program calls: the portable build, on an aligned buffer (by
  \<open>Extend_eq\<close> below the alignment does not matter).\<close>

definition crc32c_Extend :: "u32 \<Rightarrow> bytes \<Rightarrow> u32" where
  "crc32c_Extend init_crc data = Extend None 0 init_crc data"

definition crc32c_Value :: "bytes \<Rightarrow> u32" where
  "crc32c_Value data = crc32c_Extend 0 data"

section \<open>Masking\<close>

definition kMaskDelta :: u32 where "kMaskDelta = 0xa282ead8"

definition Mask :: "u32 \<Rightarrow> u32" where
  "Mask crc = (drop_bit 15 crc OR push_bit 17 crc) + kMaskDelta"

definition Unmask :: "u32 \<Rightarrow> u32" where
  "Unmask masked_crc = (let rot = masked_crc - kMaskDelta in drop_bit 17 rot OR push_bit 15 rot)"

section \<open>The reference\<close>

definition crc_bit :: "u32 \<Rightarrow> u32" where
  "crc_bit x = (if bit x 0 then drop_bit 1 x XOR 0x82f63b78 else drop_bit 1 x)"

definition crc_byte :: "byte \<Rightarrow> u32 \<Rightarrow> u32" where
  "crc_byte b l = (crc_bit ^^ 8) (l XOR ucast b)"

definition crc32c_reference :: "u32 \<Rightarrow> bytes \<Rightarrow> u32" where
  "crc32c_reference crc data = fold crc_byte data (crc XOR kCRC32Xor) XOR kCRC32Xor"

section \<open>Linearity\<close>

declare crc_swaths.simps [simp del] crc_words.simps [simp del]

lemma crc_bit_0 [simp]: "crc_bit 0 = 0"
  by (simp add: crc_bit_def)

lemma drop_bit_xor_word: "drop_bit n (a XOR b :: u32) = drop_bit n a XOR drop_bit n b"
  by (rule bit_word_eqI) (simp add: bit_simps)

lemma crc_bit_xor: "crc_bit (a XOR b) = crc_bit a XOR crc_bit b"
  by (rule bit_word_eqI) (auto simp: crc_bit_def bit_xor_iff bit_drop_bit_eq)

lemma crc_bits_0 [simp]: "(crc_bit ^^ n) 0 = 0"
  by (induction n) auto

lemma crc_bits_xor: "(crc_bit ^^ n) (a XOR b) = (crc_bit ^^ n) a XOR (crc_bit ^^ n) b"
  by (induction n) (auto simp: crc_bit_xor)

text \<open>A table of a linear function is spanned by its values at the powers of two.\<close>

fun span :: "u32 list \<Rightarrow> u32 list" where
  "span [] = [0]"
| "span (b # bs) = span bs @ map (\<lambda>x. b XOR x) (span bs)"

lemma xor_pow2:
  assumes "i < 2 ^ n" "n < 32"
  shows "(2 ^ n XOR of_nat i :: u32) = of_nat (2 ^ n + i)"
proof -
  have "2 ^ n AND (of_nat i :: u32) = 0"
    using assms by (auto simp: and.commute [of "2 ^ n"] and_exp_eq_0_iff_not_bit bit_of_nat_iff bit_nat_def)
  from disjunctive_add_eq_xor [OF this] show ?thesis by simp
qed

lemma span_linear:
  fixes g :: "u32 \<Rightarrow> u32"
  assumes "\<And>a b. g (a XOR b) = g a XOR g b" "g 0 = 0" "n \<le> 32"
  shows "span (rev (map (\<lambda>k. g (2 ^ k)) [0..<n])) = map (\<lambda>i. g (of_nat i)) [0..<2 ^ n]"
  using assms(3)
proof (induction n)
  case (Suc n)
  have "[0..<2 ^ Suc n] = [0..<2 ^ n] @ map (\<lambda>i. 2 ^ n + i) [0..<2 ^ n]"
    using upt_add_eq_append [of 0 "2 ^ n" "2 ^ n"] map_add_upt [of "2 ^ n" "2 ^ n"]
    by (simp add: mult_2 add.commute)
  moreover have "g (2 ^ n) XOR g (of_nat i) = g (of_nat (2 ^ n + i))" if "i < 2 ^ n" for i
    using xor_pow2 [of i n] that Suc.prems by (simp only: assms(1) [symmetric])
  ultimately show ?case using Suc by simp
qed (simp add: assms(2))

text \<open>The basis vectors are computed with integers.\<close>

definition crcI :: "int \<Rightarrow> int" where
  "crcI x = (if odd x then (x div 2) XOR 0x82f63b78 else x div 2)"

definition crc8I :: "int \<Rightarrow> int" where
  "crc8I x = crcI (crcI (crcI (crcI (crcI (crcI (crcI (crcI x)))))))"

definition crc32I :: "int \<Rightarrow> int" where
  "crc32I x = crc8I (crc8I (crc8I (crc8I x)))"

lemma crcI_numeral:
  "crcI 0 = 0" "crcI 1 = 0x82f63b78" "crcI (numeral (Num.Bit0 n)) = numeral n"
  "crcI (numeral (Num.Bit1 n)) = numeral n XOR 0x82f63b78"
  by (auto simp: crcI_def)

lemma crcI_range: "0 \<le> x \<Longrightarrow> x < 2 ^ 32 \<Longrightarrow> 0 \<le> crcI x \<and> crcI x < 2 ^ 32"
proof -
  assume x: "0 \<le> x" "x < 2 ^ 32"
  then have "take_bit 32 (x div 2) = x div 2" by (simp add: take_bit_int_eq_self)
  then have "take_bit 32 (x div 2 XOR 0x82f63b78) = x div 2 XOR 0x82f63b78"
    by (simp add: take_bit_xor)
  then have "0 \<le> x div 2 XOR 0x82f63b78" "x div 2 XOR 0x82f63b78 < 2 ^ 32"
    using take_bit_nonnegative [of 32 "x div 2 XOR 0x82f63b78"]
      take_bit_int_less_exp [of 32 "x div 2 XOR 0x82f63b78"] by (simp_all only:)
  moreover have "x div 2 < 2 ^ 32" using x by simp
  ultimately show "0 \<le> crcI x \<and> crcI x < 2 ^ 32" using x by (simp add: crcI_def)
qed

lemma crc_bit_int:
  assumes "0 \<le> x" "x < 2 ^ 32"
  shows "crc_bit (word_of_int x) = word_of_int (crcI x)"
proof (rule bit_word_eqI)
  fix n assume n: "n < LENGTH(32)"
  have b: "\<not> bit x m" if "32 \<le> m" for m
    using assms that by (metis bit_take_bit_iff not_less take_bit_int_eq_self)
  have "bit (word_of_int x :: u32) (Suc n) = bit x (Suc n)"
    using n b [of "Suc n"] by (cases "Suc n < 32") (auto simp: bit_simps)
  then have d: "bit (drop_bit 1 (word_of_int x :: u32)) n = bit (word_of_int (x div 2) :: u32) n"
    using n by (simp add: bit_drop_bit_eq bit_word_of_int_iff bit_Suc)
  have "bit (word_of_int x :: u32) 0 \<longleftrightarrow> odd x" by (subst bit_word_of_int_iff) (simp add: bit_0)
  with d show "bit (crc_bit (word_of_int x)) n = bit (word_of_int (crcI x) :: u32) n"
    using n by (simp only: crc_bit_def crcI_def) (auto simp: bit_xor_iff bit_word_of_int_iff)
qed

lemma crc_bits_int:
  assumes "0 \<le> x" "x < 2 ^ 32"
  shows "(crc_bit ^^ n) (word_of_int x) = word_of_int ((crcI ^^ n) x)
    \<and> 0 \<le> (crcI ^^ n) x \<and> (crcI ^^ n) x < 2 ^ 32"
  by (induction n) (use assms crc_bit_int crcI_range in \<open>auto simp del: power_numeral\<close>)

lemma crc8I: "(crcI ^^ 8) x = crc8I x"
  by (simp add: crc8I_def eval_nat_numeral)

lemma crc128I: "(crcI ^^ 128) x = crc32I (crc32I (crc32I (crc32I x)))"
proof -
  have "(crcI ^^ 32) x = crc32I x" for x
    using funpow_add [of 24 8 crcI] funpow_add [of 16 8 crcI] funpow_add [of 8 8 crcI]
    by (simp add: crc32I_def crc8I)
  then show ?thesis
    using funpow_add [of 96 32 crcI] funpow_add [of 64 32 crcI] funpow_add [of 32 32 crcI] by simp
qed

lemmas crc_eval = crcI_numeral crc8I_def crc32I_def

lemma table_basis:
  fixes s :: nat
  assumes "s \<le> 24" "m = 8 \<and> s = 0 \<or> m = 128"
  shows "map (\<lambda>k. (crc_bit ^^ m) (push_bit s (2 ^ k))) [0..<8]
    = map (\<lambda>k. word_of_int ((crcI ^^ m) (2 ^ (s + k)))) [0..<8]"
proof (rule map_cong [OF refl])
  fix k :: nat assume "k \<in> set [0..<8]"
  then have "s + k < 32" using assms by simp
  then have "(2 :: int) ^ (s + k) < 2 ^ 32" by (rule power_strict_increasing) simp
  moreover have "push_bit s (2 ^ k :: u32) = word_of_int (2 ^ (s + k))"
    by (simp add: push_bit_eq_mult power_add mult.commute)
  ultimately show "(crc_bit ^^ m) (push_bit s (2 ^ k)) = word_of_int ((crcI ^^ m) (2 ^ (s + k)))"
    using crc_bits_int [of "2 ^ (s + k)" m] by simp
qed

lemma byte_table_span:
  "kByteExtensionTable = span (rev (map (\<lambda>k. (crc_bit ^^ 8) (push_bit 0 (2 ^ k))) [0..<8]))"
  by (subst table_basis) (simp_all add: kByteExtensionTable_def upt_conv_Cons crc8I crc_eval)

lemma stride0_span:
  "kStrideExtensionTable0 = span (rev (map (\<lambda>k. (crc_bit ^^ 128) (push_bit 24 (2 ^ k))) [0..<8]))"
  by (subst table_basis) (simp_all add: kStrideExtensionTable0_def upt_conv_Cons crc128I crc_eval)

lemma stride1_span:
  "kStrideExtensionTable1 = span (rev (map (\<lambda>k. (crc_bit ^^ 128) (push_bit 16 (2 ^ k))) [0..<8]))"
  by (subst table_basis) (simp_all add: kStrideExtensionTable1_def upt_conv_Cons crc128I crc_eval)

lemma stride2_span:
  "kStrideExtensionTable2 = span (rev (map (\<lambda>k. (crc_bit ^^ 128) (push_bit 8 (2 ^ k))) [0..<8]))"
  by (subst table_basis) (simp_all add: kStrideExtensionTable2_def upt_conv_Cons crc128I crc_eval)

lemma stride3_span:
  "kStrideExtensionTable3 = span (rev (map (\<lambda>k. (crc_bit ^^ 128) (push_bit 0 (2 ^ k))) [0..<8]))"
  by (subst table_basis) (simp_all add: kStrideExtensionTable3_def upt_conv_Cons crc128I crc_eval)

lemmas table_spans = byte_table_span stride0_span stride1_span stride2_span stride3_span

lemma span_push_bit:
  "span (rev (map (\<lambda>k. (crc_bit ^^ m) (push_bit s (2 ^ k))) [0..<8]))
     = map (\<lambda>i. (crc_bit ^^ m) (push_bit s (of_nat i))) [0..<256]"
  using span_linear [of "\<lambda>x. (crc_bit ^^ m) (push_bit s x)" 8]
  by (simp add: crc_bits_xor push_bit_xor)

lemma byte_index: "unat ((x :: u32) AND 255) < 256"
proof -
  have "x AND 255 \<le> 255" by (rule word_and_le1)
  then show ?thesis by (simp add: word_le_nat_alt)
qed

lemma table_nth:
  "kByteExtensionTable ! unat (x AND 255) = (crc_bit ^^ 8) (x AND 255)"
  "kStrideExtensionTable0 ! unat (x AND 255) = (crc_bit ^^ 128) (push_bit 24 (x AND 255))"
  "kStrideExtensionTable1 ! unat (x AND 255) = (crc_bit ^^ 128) (push_bit 16 (x AND 255))"
  "kStrideExtensionTable2 ! unat (x AND 255) = (crc_bit ^^ 128) (push_bit 8 (x AND 255))"
  "kStrideExtensionTable3 ! unat (x AND 255) = (crc_bit ^^ 128) (x AND 255)"
  unfolding table_spans span_push_bit using byte_index [of x] by simp_all

text \<open>Shifting out a byte of zeros is free of the polynomial.\<close>

lemma crc_bit_push: "\<not> bit y 31 \<Longrightarrow> crc_bit (push_bit 1 y) = y"
proof -
  assume y: "\<not> bit y 31"
  have "drop_bit 1 (push_bit 1 y) = y"
  proof (rule bit_word_eqI)
    fix n assume "n < LENGTH(32)"
    with y show "bit (drop_bit 1 (push_bit 1 y)) n = bit y n"
      by (cases "n = 31") (auto simp only: bit_drop_bit_eq bit_push_bit_iff comp_apply possible_bit_word, simp_all)
  qed
  moreover have "\<not> bit (push_bit 1 y) 0" by (auto simp only: bit_push_bit_iff)
  ultimately show ?thesis by (simp only: crc_bit_def if_False)
qed

lemma crc_bits_push:
  "n \<le> 32 \<Longrightarrow> (\<And>m. 32 - n \<le> m \<Longrightarrow> \<not> bit x m) \<Longrightarrow> (crc_bit ^^ n) (push_bit n x) = x"
proof (induction n)
  case (Suc n)
  have "\<not> bit (push_bit n x) 31"
    using Suc.prems(1) Suc.prems(2) [of "31 - n"] by (auto simp: bit_push_bit_iff)
  then have "crc_bit (push_bit (Suc n) x) = push_bit n x"
    using push_bit_push_bit [of 1 n x] by (metis crc_bit_push plus_1_eq_Suc)
  then show ?case using Suc by (simp add: funpow_swap1)
qed simp

lemma crc_byte_split: "(crc_bit ^^ 8) x = (crc_bit ^^ 8) (x AND 255) XOR drop_bit 8 x"
proof -
  have x: "x = (x AND 255) XOR push_bit 8 (drop_bit 8 x)"
  proof -
    have m: "(255 :: u32) = mask 8" by (simp add: mask_eq_exp_minus_1)
    show ?thesis unfolding m by (rule bit_word_eqI) (auto simp: bit_simps)
  qed
  have "(crc_bit ^^ 8) (push_bit 8 (drop_bit 8 x)) = drop_bit 8 x"
    by (rule crc_bits_push) (auto simp: bit_drop_bit_eq dest: bit_imp_le_length)
  then show ?thesis using arg_cong [OF x, of "crc_bit ^^ 8"] by (simp only: crc_bits_xor)
qed

lemma STEP1_eq: "STEP1 = crc_byte"
proof (intro ext)
  fix p :: byte and l :: u32
  have m: "(255 :: u32) = mask 8" by (simp add: mask_eq_exp_minus_1)
  have "(l AND 255) XOR ucast p = (l XOR ucast p) AND 255"
    unfolding m by (rule bit_word_eqI) (auto simp: bit_simps dest: bit_imp_le_length)
  moreover have "drop_bit 8 (l XOR ucast p) = drop_bit 8 l"
    by (rule bit_word_eqI) (auto simp: bit_simps dest: bit_imp_le_length)
  ultimately show "STEP1 p l = crc_byte p l"
    using crc_byte_split [of "l XOR ucast p"]
    by (simp add: STEP1_def crc_byte_def table_nth Let_def)
qed

lemma STEP4W_eq: "STEP4W w l = (crc_bit ^^ 32) (w XOR l)"
proof -
  have "(\<lambda>w. drop_bit 8 w XOR kByteExtensionTable ! unat (w AND 255)) = (crc_bit ^^ 8)"
    by (intro ext) (subst crc_byte_split, simp add: table_nth xor.commute)
  then show ?thesis by (simp add: STEP4W_def funpow_mult)
qed

lemma STEP4_eq: "STEP4 w crc = w XOR (crc_bit ^^ 128) crc"
proof -
  have m: "(255 :: u32) = mask 8" by (simp add: mask_eq_exp_minus_1)
  have h: "drop_bit 24 crc = drop_bit 24 crc AND 255"
    unfolding m by (rule bit_word_eqI) (auto simp: bit_simps dest: bit_imp_le_length)
  have c: "crc = (crc AND 255) XOR push_bit 8 (drop_bit 8 crc AND 255)
      XOR push_bit 16 (drop_bit 16 crc AND 255) XOR push_bit 24 (drop_bit 24 crc AND 255)"
  proof (rule bit_word_eqI)
    fix n assume n: "n < LENGTH(32)"
    consider "n < 8" | "8 \<le> n" "n < 16" | "16 \<le> n" "n < 24" | "24 \<le> n" using n by linarith
    then show "bit crc n = bit ((crc AND 255) XOR push_bit 8 (drop_bit 8 crc AND 255)
      XOR push_bit 16 (drop_bit 16 crc AND 255) XOR push_bit 24 (drop_bit 24 crc AND 255)) n"
      unfolding m using n by cases (simp_all add: bit_simps less_diff_conv2)
  qed
  from h have h': "kStrideExtensionTable0 ! unat (drop_bit 24 crc)
      = (crc_bit ^^ 128) (push_bit 24 (drop_bit 24 crc AND 255))"
    by (metis table_nth(2))
  show ?thesis
    using arg_cong [OF c, of "crc_bit ^^ 128"] unfolding STEP4_def h'
    by (simp only: table_nth crc_bits_xor xor.assoc)
qed

text \<open>Four bytes at once: feeding the bytes of a word one by one is feeding the word.\<close>

lemma DecodeFixed32_Cons: "DecodeFixed32 (a # b # c # d # p)
    = ucast a XOR push_bit 8 (ucast b XOR push_bit 8 (ucast c XOR push_bit 8 (ucast d)))"
proof (rule bit_word_eqI)
  fix n assume n: "n < LENGTH(32)"
  consider "n < 8" | "8 \<le> n" "n < 16" | "16 \<le> n" "n < 24" | "24 \<le> n" using n by linarith
  then show "bit (DecodeFixed32 (a # b # c # d # p)) n
    = bit (ucast a XOR push_bit 8 (ucast b XOR push_bit 8 (ucast c XOR push_bit 8 (ucast d))) :: u32) n"
    using n by cases (simp_all add: DecodeFixed32_def bit_simps less_diff_conv2 byte_bit_ge)
qed

lemma crc_byte_push:
  "(\<And>m. 24 \<le> m \<Longrightarrow> \<not> bit y m) \<Longrightarrow> (crc_bit ^^ 8) (x XOR push_bit 8 y) = (crc_bit ^^ 8) x XOR y"
  using crc_bits_push [of 8 y] by (simp only: crc_bits_xor) simp

lemma crc_word:
  "fold crc_byte [a, b, c, d] l = (crc_bit ^^ 32) (ReadUint32LE (a # b # c # d # p) XOR l)"
proof -
  have 32: "crc_bit ^^ 32 = (crc_bit ^^ 8) \<circ> (crc_bit ^^ 8) \<circ> (crc_bit ^^ 8) \<circ> (crc_bit ^^ 8)"
    using funpow_add [of 24 8 crc_bit] funpow_add [of 16 8 crc_bit] funpow_add [of 8 8 crc_bit]
    by (simp add: comp_assoc)
  have w: "ReadUint32LE (a # b # c # d # p) XOR l = (l XOR ucast a)
      XOR push_bit 8 (ucast b XOR push_bit 8 (ucast c XOR push_bit 8 (ucast d)))"
    by (simp only: ReadUint32LE_def DecodeFixed32_Cons ac_simps)
  have "(crc_bit ^^ 8) ((l XOR ucast a) XOR push_bit 8 (ucast b XOR push_bit 8 (ucast c XOR push_bit 8 (ucast d))))
      = ((crc_bit ^^ 8) (l XOR ucast a) XOR ucast b) XOR push_bit 8 (ucast c XOR push_bit 8 (ucast d))"
    by (subst crc_byte_push) (auto simp: bit_simps byte_bit_ge xor.assoc)
  moreover have "(crc_bit ^^ 8) (x XOR push_bit 8 (ucast c XOR push_bit 8 (ucast d)))
      = ((crc_bit ^^ 8) x XOR ucast c) XOR push_bit 8 (ucast d)" for x
    by (subst crc_byte_push) (auto simp: bit_simps byte_bit_ge xor.assoc)
  moreover have "(crc_bit ^^ 8) (x XOR push_bit 8 (ucast d)) = (crc_bit ^^ 8) x XOR ucast d" for x
    by (subst crc_byte_push) (auto simp: bit_simps byte_bit_ge)
  ultimately show ?thesis unfolding w 32 by (simp only: comp_apply fold.simps id_apply crc_byte_def)
qed

text \<open>The strides: what their combination is after each loop.\<close>

fun crc_combine :: "strides \<Rightarrow> u32" where
  "crc_combine (c0, c1, c2, c3) = STEP4W c3 (STEP4W c2 (STEP4W c1 (STEP4W c0 0)))"

lemma take4: "4 \<le> length p \<Longrightarrow> \<exists>a b c d. p = a # b # c # d # drop 4 p"
  by (auto simp: numeral_eq_Suc Suc_le_length_iff)

lemma crc_word4:
  assumes "4 \<le> length p"
  shows "fold crc_byte (take 4 p) l = (crc_bit ^^ 32) (ReadUint32LE p XOR l)"
proof -
  obtain a b c d where p: "p = a # b # c # d # drop 4 p" using take4 [OF assms] by blast
  have "take 4 p = [a, b, c, d]" by (subst p) simp
  then show ?thesis using crc_word [of a b c d l "drop 4 p"] p by metis
qed

lemma crc_words_step:
  assumes "4 \<le> length p"
  shows "crc_combine (c1, c2, c3, STEP4 (ReadUint32LE p) c0)
    = fold crc_byte (take 4 p) (crc_combine (c0, c1, c2, c3))"
proof -
  have "crc_bit ^^ 128 = (crc_bit ^^ 32) \<circ> (crc_bit ^^ 32) \<circ> (crc_bit ^^ 32) \<circ> (crc_bit ^^ 32)"
    using funpow_add [of 96 32 crc_bit] funpow_add [of 64 32 crc_bit] funpow_add [of 32 32 crc_bit]
    by (simp add: comp_assoc)
  then show ?thesis
    unfolding crc_word4 [OF assms] by (simp add: STEP4W_eq STEP4_eq crc_bits_xor ac_simps)
qed

lemma crc_words_combine:
  "crc_words s p = (s', p') \<Longrightarrow>
   fold crc_byte p' (crc_combine s') = fold crc_byte p (crc_combine s)"
proof (induction s p arbitrary: s' p' rule: crc_words.induct)
  case (1 c0 c1 c2 c3 p)
  show ?case
  proof (cases "4 \<le> length p")
    case True
    then have "crc_words (c1, c2, c3, STEP4 (ReadUint32LE p) c0) (drop 4 p) = (s', p')"
      using "1.prems" by (simp add: crc_words.simps)
    from "1.IH" [OF True this] show ?thesis
      using crc_words_step [OF True] by (metis append_take_drop_id comp_apply fold_append)
  qed (use "1.prems" in \<open>simp add: crc_words.simps\<close>)
qed

lemma crc_swaths_combine:
  "crc_swaths s p = (s', p') \<Longrightarrow>
   fold crc_byte p' (crc_combine s') = fold crc_byte p (crc_combine s)"
proof (induction s p arbitrary: s' p' rule: crc_swaths.induct)
  case (1 c0 c1 c2 c3 p)
  show ?case
  proof (cases "16 \<le> length p")
    case True
    let ?s = "(STEP4 (ReadUint32LE p) c0, STEP4 (ReadUint32LE (drop 4 p)) c1,
      STEP4 (ReadUint32LE (drop 8 p)) c2, STEP4 (ReadUint32LE (drop 12 p)) c3)"
    have "crc_combine ?s = fold crc_byte (take 4 (drop 12 p)) (fold crc_byte (take 4 (drop 8 p))
        (fold crc_byte (take 4 (drop 4 p)) (fold crc_byte (take 4 p) (crc_combine (c0, c1, c2, c3)))))"
      using True by (simp only: crc_words_step length_drop)
    also have "\<dots> = fold crc_byte (take 16 p) (crc_combine (c0, c1, c2, c3))"
      using take_add [of 4 12 p] take_add [of 4 8 "drop 4 p"] take_add [of 4 4 "drop 8 p"]
      by (simp add: drop_drop)
    finally have "fold crc_byte (drop 16 p) (crc_combine ?s) = fold crc_byte p (crc_combine (c0, c1, c2, c3))"
      by (metis append_take_drop_id comp_apply fold_append)
    moreover have "crc_swaths ?s (drop 16 p) = (s', p')"
      using "1.prems" True by (subst (asm) crc_swaths.simps) simp
    ultimately show ?thesis using "1.IH" [OF True] by simp
  qed (use "1.prems" in \<open>simp add: crc_swaths.simps\<close>)
qed

lemma crc_load:
  assumes "16 \<le> length p"
  shows "crc_combine (ReadUint32LE p XOR l, ReadUint32LE (drop 4 p), ReadUint32LE (drop 8 p),
     ReadUint32LE (drop 12 p)) = fold crc_byte (take 16 p) l"
  using take_add [of 4 12 p] take_add [of 4 8 "drop 4 p"] take_add [of 4 4 "drop 8 p"] assms
  by (simp add: crc_word4 STEP4W_eq)

lemma crc_swath_block:
  assumes "16 \<le> length p" "crc_swaths (ReadUint32LE p XOR l, ReadUint32LE (drop 4 p),
      ReadUint32LE (drop 8 p), ReadUint32LE (drop 12 p)) (drop 16 p) = (s, q)"
    and "crc_words s q = (s', p')"
  shows "fold crc_byte p' (crc_combine s') = fold crc_byte p l"
proof -
  have "fold crc_byte p' (crc_combine s') = fold crc_byte (drop 16 p) (fold crc_byte (take 16 p) l)"
    using crc_words_combine [OF assms(3)] crc_swaths_combine [OF assms(2)] crc_load [OF assms(1)]
    by simp
  then show ?thesis by (metis append_take_drop_id comp_apply fold_append)
qed

lemma Extend_eq: "Extend None addr crc data = crc32c_reference crc data"
proof -
  define x where "x = RoundUp4 addr - addr"
  define l where "l = crc XOR kCRC32Xor"
  obtain l1 p1 where lp: "(if x \<le> length data then (fold crc_byte (take x data) l, drop x data) else (l, data))
      = (l1, p1)" by fastforce
  then have 1: "fold crc_byte p1 l1 = fold crc_byte data l"
    by (auto simp: fold_take_drop split: if_splits)
  have na: "CanAccelerateCRC32C None = False"
    by (simp add: CanAccelerateCRC32C_def AcceleratedCRC32C_def)
  obtain s q where s: "crc_swaths (ReadUint32LE p1 XOR l1, ReadUint32LE (drop 4 p1),
      ReadUint32LE (drop 8 p1), ReadUint32LE (drop 12 p1)) (drop 16 p1) = (s, q)" by fastforce
  obtain c0 c1 c2 c3 p' where w: "crc_words s q = ((c0, c1, c2, c3), p')"
    by (metis surj_pair)
  show ?thesis
  proof (cases "16 \<le> length p1")
    case True
    then show ?thesis
      using crc_swath_block [OF True s w] 1
      by (simp only: Extend_def na if_False if_True Let_def x_def [symmetric] l_def [symmetric] STEP1_eq lp
          prod.case s w crc32c_reference_def crc_combine.simps)
  next
    case False
    then show ?thesis
      using 1 by (simp only: Extend_def na if_False Let_def x_def [symmetric] l_def [symmetric] STEP1_eq lp
          prod.case crc32c_reference_def)
  qed
qed

lemma reference_append: "crc32c_reference (crc32c_reference crc a) b = crc32c_reference crc (a @ b)"
  by (simp add: crc32c_reference_def xor.assoc)

lemma crc32c_Value_append: "crc32c_Extend (crc32c_Value a) b = crc32c_Value (a @ b)"
  by (simp add: crc32c_Extend_def crc32c_Value_def Extend_eq reference_append)

lemma Unmask_Mask [simp]: "Unmask (Mask crc) = crc"
proof (rule bit_word_eqI)
  fix n assume n: "n < LENGTH(32)"
  then show "bit (Unmask (Mask crc)) n = bit crc n"
    by (cases "n < 15") (auto simp: Mask_def Unmask_def Let_def bit_simps dest: bit_imp_le_length)
qed

lemma Mask_Unmask [simp]: "Mask (Unmask crc) = crc"
proof -
  have "Mask (Unmask (rot + kMaskDelta)) = rot + kMaskDelta" for rot
  proof -
    have "drop_bit 15 (drop_bit 17 rot OR push_bit 15 rot) OR push_bit 17 (drop_bit 17 rot OR push_bit 15 rot) = rot"
    proof (rule bit_word_eqI)
      fix n assume n: "n < LENGTH(32)"
      then show "bit (drop_bit 15 (drop_bit 17 rot OR push_bit 15 rot) OR push_bit 17 (drop_bit 17 rot OR push_bit 15 rot)) n = bit rot n"
        by (cases "n < 17") (auto simp: bit_simps dest: bit_imp_le_length)
    qed
    then show ?thesis by (simp add: Mask_def Unmask_def Let_def)
  qed
  from this [of "crc - kMaskDelta"] show ?thesis by simp
qed

text \<open>
  C8: The strided, table-driven loop of \<open>Extend\<close> computes the bitwise CRC-32C, for every buffer,
  every starting checksum and every alignment of the buffer.
\<close>

theorem Extend_is_crc32c: "Extend None addr crc data = crc32c_reference crc data"
  by (rule Extend_eq)

text \<open>
  C9: A checksum can be extended piece by piece: extending the checksum of \<open>a\<close> by \<open>b\<close> is
  the checksum of their concatenation, wherever the pieces lie in memory; and masking a
  checksum for storage loses nothing.
\<close>

theorem Extend_concat:
  "Extend None addr1 (Extend None addr2 crc a) b = Extend None addr3 crc (a @ b)
   \<and> Unmask (Mask crc) = crc \<and> Mask (Unmask crc) = crc"
  by (simp add: Extend_eq reference_append)

end
