(* ===== verification/Wal.thy ===== *)
theory Wal
  imports Env_Posix Crc32c
begin

text \<open>
  The write-ahead log: \<^verbatim>\<open>src/wal/log_format.h\<close>, \<^verbatim>\<open>src/wal/log_writer.cc\<close> and
  \<^verbatim>\<open>src/wal/log_reader.cc\<close>.  A log is a sequence of 32 KiB blocks; a record is cut into
  fragments that do not cross a block, each with a header of checksum, length and type.  The
  writer and the reader are state records over the file they use, and take the file's
  operations as an argument.
\<close>

section \<open>Format\<close>

datatype RecordType = kZeroType | kFullType | kFirstType | kMiddleType | kLastType

fun type_num :: "RecordType \<Rightarrow> nat" where
  "type_num kZeroType = 0"
| "type_num kFullType = 1"
| "type_num kFirstType = 2"
| "type_num kMiddleType = 3"
| "type_num kLastType = 4"

definition kMaxRecordType :: nat where "kMaxRecordType = type_num kLastType"
definition kBlockSize :: nat where "kBlockSize = 32768"
definition kHeaderSize :: nat where "kHeaderSize = 4 + 2 + 1"

section \<open>Writer\<close>

record 'f log_writer =
  lw_dest :: 'f
  lw_block_offset :: nat
  lw_type_crc :: "u32 list"

definition InitTypeCrc :: "u32 list" where
  "InitTypeCrc = map (\<lambda>i. crc32c_Value [of_nat i]) [0..<kMaxRecordType + 1]"

definition Writer :: "'f \<Rightarrow> 'f log_writer" where
  "Writer dest = \<lparr> lw_dest = dest, lw_block_offset = 0, lw_type_crc = InitTypeCrc \<rparr>"

definition Writer_at :: "'f \<Rightarrow> nat \<Rightarrow> 'f log_writer" where
  "Writer_at dest dest_length =
     \<lparr> lw_dest = dest, lw_block_offset = dest_length mod kBlockSize, lw_type_crc = InitTypeCrc \<rparr>"

definition record_header :: "u32 list \<Rightarrow> RecordType \<Rightarrow> bytes \<Rightarrow> bytes" where
  "record_header type_crc t ptr =
     (let len = length ptr;
          crc = Mask (crc32c_Extend (type_crc ! type_num t) ptr)
      in EncodeFixed32 crc @ [of_nat (len mod 256), of_nat (len div 256), of_nat (type_num t)])"

definition EmitPhysicalRecord ::
  "'f WritableFile \<Rightarrow> RecordType \<Rightarrow> bytes \<Rightarrow> 'f log_writer \<Rightarrow> status \<times> 'f log_writer" where
  "EmitPhysicalRecord fops t ptr w =
     (let (s, dest) = wf_Append fops (record_header (lw_type_crc w) t ptr) (lw_dest w);
          (s, dest) =
            (if ok s then
               let (s, dest) = wf_Append fops ptr dest
               in if ok s then wf_Flush fops dest else (s, dest)
             else (s, dest))
      in (s, w\<lparr> lw_dest := dest, lw_block_offset := lw_block_offset w + (kHeaderSize + length ptr) \<rparr>))"

definition record_type :: "bool \<Rightarrow> bool \<Rightarrow> RecordType" where
  "record_type is_begin is_end =
     (if is_begin \<and> is_end then kFullType else if is_begin then kFirstType
      else if is_end then kLastType else kMiddleType)"

text \<open>The switch to a new block; the status of appending the trailer is not looked at.\<close>

definition switch_block :: "'f WritableFile \<Rightarrow> 'f log_writer \<Rightarrow> 'f log_writer" where
  "switch_block fops w =
     (let leftover = kBlockSize - lw_block_offset w in
      if leftover < kHeaderSize then
        (if 0 < leftover
         then w\<lparr> lw_dest := snd (wf_Append fops (replicate leftover 0) (lw_dest w)) \<rparr> else w)
          \<lparr> lw_block_offset := 0 \<rparr>
      else w)"

definition switch_offset :: "nat \<Rightarrow> nat" where
  "switch_offset off = (if kBlockSize - off < kHeaderSize then 0 else off)"

lemma switch_block_offset [simp]:
  "lw_block_offset (switch_block fops w) = switch_offset (lw_block_offset w)"
  "lw_type_crc (switch_block fops w) = lw_type_crc w"
  by (simp_all add: switch_block_def switch_offset_def Let_def)

lemma Emit_offset [simp]:
  "lw_block_offset (snd (EmitPhysicalRecord fops t ptr w)) = lw_block_offset w + (kHeaderSize + length ptr)"
  "lw_type_crc (snd (EmitPhysicalRecord fops t ptr w)) = lw_type_crc w"
  by (simp_all add: EmitPhysicalRecord_def Let_def split: prod.splits)

lemma switch_offset_le: "switch_offset off + kHeaderSize \<le> kBlockSize"
  by (simp add: switch_offset_def kBlockSize_def kHeaderSize_def) linarith

definition frag_length :: "nat \<Rightarrow> bytes \<Rightarrow> nat" where
  "frag_length off data = min (length data) (kBlockSize - switch_offset off - kHeaderSize)"

lemma frag_length_le [simp]:
  "frag_length off data \<le> length data" "min (length data) (frag_length off data) = frag_length off data"
  by (simp_all add: frag_length_def)

definition frag_measure :: "nat \<Rightarrow> bytes \<Rightarrow> nat" where
  "frag_measure off data =
     2 * length data + (if kBlockSize - switch_offset off = kHeaderSize then 1 else 0)"

lemma frag_decreases:
  assumes "length data \<noteq> frag_length off data"
  shows "frag_measure (switch_offset off + (kHeaderSize + frag_length off data)) (drop (frag_length off data) data)
    < frag_measure off data"
proof -
  let ?o = "switch_offset off" and ?n = "frag_length off data"
  have n: "?n = kBlockSize - ?o - kHeaderSize" "?n < length data"
    using assms by (auto simp: frag_length_def)
  show ?thesis
  proof (cases "?n = 0")
    case True
    then have "?o + (kHeaderSize + ?n) = kBlockSize" using n(1) switch_offset_le [of off] by simp
    moreover have "kBlockSize - switch_offset kBlockSize \<noteq> kHeaderSize"
      by (simp add: switch_offset_def kBlockSize_def kHeaderSize_def)
    ultimately show ?thesis
      using True n(1) switch_offset_le [of off] by (simp add: frag_measure_def)
  next
    case False
    then have "2 * length (drop ?n data) + 1 < 2 * length data" using n(2) by simp
    then show ?thesis by (simp add: frag_measure_def)
  qed
qed

text \<open>The loop of \<open>AddRecord\<close>: \<open>data\<close> is what is left.  A fragment may be empty (when a
  header just fits into the block), but the next one then has a whole block.\<close>

function AddRecord_loop ::
  "'f WritableFile \<Rightarrow> bool \<Rightarrow> bytes \<Rightarrow> 'f log_writer \<Rightarrow> status \<times> 'f log_writer" where
  "AddRecord_loop fops is_begin data w =
     (let w1 = switch_block fops w;
          avail = kBlockSize - lw_block_offset w1 - kHeaderSize;
          fragment_length = (if length data < avail then length data else avail);
          is_end = (length data = fragment_length);
          r = EmitPhysicalRecord fops (record_type is_begin is_end) (take fragment_length data) w1
      in if ok (fst r) \<and> \<not> is_end
         then AddRecord_loop fops False (drop fragment_length data) (snd r) else r)"
  by pat_completeness auto
termination
proof (relation "measure (\<lambda>(fops, b, data, w). frag_measure (lw_block_offset w) data)", goal_cases)
  case (2 fops is_begin data w w1 avail n is_end r)
  have n: "n = frag_length (lw_block_offset w) data" using 2(1,2,3) by (auto simp: frag_length_def)
  then show ?case using frag_decreases [of data "lw_block_offset w"] 2(1,4,5,6) by simp
qed simp

declare AddRecord_loop.simps [simp del]

definition AddRecord :: "'f WritableFile \<Rightarrow> bytes \<Rightarrow> 'f log_writer \<Rightarrow> status \<times> 'f log_writer" where
  "AddRecord fops data w = AddRecord_loop fops True data w"

section \<open>Reader\<close>

text \<open>Type codes the reader adds to those of the format; the type byte is a signed \<open>char\<close>.\<close>

definition kEof :: u32 where "kEof = of_nat (kMaxRecordType + 1)"
definition kBadRecord :: u32 where "kBadRecord = of_nat (kMaxRecordType + 2)"

record 'f log_reader =
  lr_file :: 'f
  lr_has_reporter :: bool
  lr_reports :: "(nat \<times> status) list"
  lr_checksum :: bool
  lr_buffer :: bytes
  lr_eof :: bool
  lr_last_record_offset :: u64
  lr_end_of_buffer_offset :: u64
  lr_initial_offset :: u64
  lr_resyncing :: bool

definition Reader :: "'f \<Rightarrow> bool \<Rightarrow> bool \<Rightarrow> u64 \<Rightarrow> 'f log_reader" where
  "Reader src has_reporter checksum initial_offset =
     \<lparr> lr_file = src, lr_has_reporter = has_reporter, lr_reports = [], lr_checksum = checksum,
       lr_buffer = [], lr_eof = False, lr_last_record_offset = 0, lr_end_of_buffer_offset = 0,
       lr_initial_offset = initial_offset, lr_resyncing = (0 < initial_offset) \<rparr>"

definition ReportDrop :: "u64 \<Rightarrow> status \<Rightarrow> 'f log_reader \<Rightarrow> 'f log_reader" where
  "ReportDrop nbytes reason r =
     (if lr_has_reporter r
         \<and> lr_initial_offset r \<le> lr_end_of_buffer_offset r - of_nat (length (lr_buffer r)) - nbytes
      then r\<lparr> lr_reports := lr_reports r @ [(unat nbytes, reason)] \<rparr> else r)"

definition ReportCorruption :: "nat \<Rightarrow> string \<Rightarrow> 'f log_reader \<Rightarrow> 'f log_reader" where
  "ReportCorruption nbytes reason r = ReportDrop (of_nat nbytes) (Corruption reason) r"

definition SkipToInitialBlock :: "'f SequentialFile \<Rightarrow> 'f log_reader \<Rightarrow> bool \<times> 'f log_reader" where
  "SkipToInitialBlock sf r =
     (let offset_in_block = lr_initial_offset r mod of_nat kBlockSize;
          loc = lr_initial_offset r - offset_in_block;
          loc = (if of_nat (kBlockSize - 6) < offset_in_block then loc + of_nat kBlockSize else loc);
          r = r\<lparr> lr_end_of_buffer_offset := loc \<rparr>
      in if 0 < loc then
           let (s, f) = sf_Skip sf (unat loc) (lr_file r); r = r\<lparr> lr_file := f \<rparr>
           in if ok s then (True, r) else (False, ReportDrop loc s r)
         else (True, r))"

text \<open>One physical record; the result is the type code with the fragment (unchanged where the
  source leaves \<open>*result\<close> alone).  A refill is followed by at most one more.\<close>

function ReadPhysicalRecord ::
  "'f SequentialFile \<Rightarrow> bytes \<Rightarrow> 'f log_reader \<Rightarrow> u32 \<times> bytes \<times> 'f log_reader" where
  "ReadPhysicalRecord sf result r =
     (if length (lr_buffer r) < kHeaderSize then
        if \<not> lr_eof r then
          let ((s, buf), f) = sf_Read sf kBlockSize (lr_file r);
              r = r\<lparr> lr_file := f, lr_buffer := buf,
                     lr_end_of_buffer_offset := lr_end_of_buffer_offset r + of_nat (length buf) \<rparr>
          in if \<not> ok s then
               let r = ReportDrop (of_nat kBlockSize) s (r\<lparr> lr_buffer := [] \<rparr>)
               in (kEof, result, r\<lparr> lr_eof := True \<rparr>)
             else ReadPhysicalRecord sf result
                    (if length buf < kBlockSize then r\<lparr> lr_eof := True \<rparr> else r)
        else (kEof, result, r\<lparr> lr_buffer := [] \<rparr>)
      else
        let header = lr_buffer r;
            a = ucast (header ! 4) :: u32; b = ucast (header ! 5) :: u32;
            t = scast (header ! 6) :: u32;
            len = unat (a OR push_bit 8 b)
        in if length (lr_buffer r) < kHeaderSize + len then
             let drop_size = length (lr_buffer r); r = r\<lparr> lr_buffer := [] \<rparr>
             in if \<not> lr_eof r then (kBadRecord, result, ReportCorruption drop_size ''bad record length'' r)
                else (kEof, result, r)
           else if t = 0 \<and> len = 0 then (kBadRecord, result, r\<lparr> lr_buffer := [] \<rparr>)
           else if lr_checksum r
                   \<and> crc32c_Value (take (1 + len) (drop 6 header)) \<noteq> Unmask (DecodeFixed32 header) then
             let drop_size = length (lr_buffer r); r = r\<lparr> lr_buffer := [] \<rparr>
             in (kBadRecord, result, ReportCorruption drop_size ''checksum mismatch'' r)
           else
             let r = r\<lparr> lr_buffer := drop (kHeaderSize + len) (lr_buffer r) \<rparr>
             in if lr_end_of_buffer_offset r - of_nat (length (lr_buffer r)) - of_nat kHeaderSize - of_nat len
                   < lr_initial_offset r
                then (kBadRecord, [], r)
                else (t, take len (drop kHeaderSize header), r))"
  by pat_completeness auto
termination
proof (relation "measure (\<lambda>(sf, result, r).
    if length (lr_buffer r) < kHeaderSize then (if lr_eof r then 1 else 2) else 0)", goal_cases)
  case (2 sf result r p sb f s buf f' r')
  have r': "lr_buffer r' = buf" "lr_eof r' = lr_eof r" using 2(6) by simp_all
  have "kHeaderSize < kBlockSize" by (simp add: kHeaderSize_def kBlockSize_def)
  then show ?case using 2(1,2) r' by auto
qed simp

declare ReadPhysicalRecord.simps [simp del]

text \<open>The loop of \<open>ReadRecord\<close>, with the local variables \<open>fragment\<close>, \<open>in_fragmented_record\<close>,
  \<open>prospective_record_offset\<close> and the caller's \<open>scratch\<close>.  The result is the returned flag, the
  record and the scratch buffer; \<open>None\<close> means that the fuel ran out.\<close>

fun ReadRecord_loop ::
  "nat \<Rightarrow> 'f SequentialFile \<Rightarrow> bytes \<Rightarrow> bool \<Rightarrow> u64 \<Rightarrow> bytes \<Rightarrow> 'f log_reader
   \<Rightarrow> (bool \<times> bytes \<times> bytes \<times> 'f log_reader) option" where
  "ReadRecord_loop 0 sf fragment in_frag prospective scratch r = None"
| "ReadRecord_loop (Suc fuel) sf fragment in_frag prospective scratch r =
     (let (t, fragment, r) = ReadPhysicalRecord sf fragment r;
          physical_record_offset = lr_end_of_buffer_offset r - of_nat (length (lr_buffer r))
            - of_nat kHeaderSize - of_nat (length fragment)
      in if lr_resyncing r \<and> t = of_nat (type_num kMiddleType) then
           ReadRecord_loop fuel sf fragment in_frag prospective scratch r
         else if lr_resyncing r \<and> t = of_nat (type_num kLastType) then
           ReadRecord_loop fuel sf fragment in_frag prospective scratch (r\<lparr> lr_resyncing := False \<rparr>)
         else
           let r = (if lr_resyncing r then r\<lparr> lr_resyncing := False \<rparr> else r)
           in if t = of_nat (type_num kFullType) then
                let r = (if in_frag \<and> scratch \<noteq> []
                         then ReportCorruption (length scratch) ''partial record without end(1)'' r else r)
                in Some (True, fragment, [], r\<lparr> lr_last_record_offset := physical_record_offset \<rparr>)
              else if t = of_nat (type_num kFirstType) then
                let r = (if in_frag \<and> scratch \<noteq> []
                         then ReportCorruption (length scratch) ''partial record without end(2)'' r else r)
                in ReadRecord_loop fuel sf fragment True physical_record_offset fragment r
              else if t = of_nat (type_num kMiddleType) then
                (if \<not> in_frag
                 then ReadRecord_loop fuel sf fragment in_frag prospective scratch
                        (ReportCorruption (length fragment) ''missing start of fragmented record(1)'' r)
                 else ReadRecord_loop fuel sf fragment in_frag prospective (scratch @ fragment) r)
              else if t = of_nat (type_num kLastType) then
                (if \<not> in_frag
                 then ReadRecord_loop fuel sf fragment in_frag prospective scratch
                        (ReportCorruption (length fragment) ''missing start of fragmented record(2)'' r)
                 else Some (True, scratch @ fragment, scratch @ fragment,
                            r\<lparr> lr_last_record_offset := prospective \<rparr>))
              else if t = kEof then Some (False, [], (if in_frag then [] else scratch), r)
              else if t = kBadRecord then
                (if in_frag
                 then ReadRecord_loop fuel sf fragment False prospective []
                        (ReportCorruption (length scratch) ''error in middle of record'' r)
                 else ReadRecord_loop fuel sf fragment in_frag prospective scratch r)
              else ReadRecord_loop fuel sf fragment False prospective []
                     (ReportCorruption (length fragment + (if in_frag then length scratch else 0))
                        (''unknow record type '' @ show_nat (unat t)) r))"

definition ReadRecord ::
  "nat \<Rightarrow> 'f SequentialFile \<Rightarrow> 'f log_reader \<Rightarrow> (bool \<times> bytes \<times> bytes \<times> 'f log_reader) option" where
  "ReadRecord fuel sf r =
     (let (go, r) = (if lr_last_record_offset r < lr_initial_offset r then SkipToInitialBlock sf r
                     else (True, r))
      in if \<not> go then Some (False, [], [], r) else ReadRecord_loop fuel sf [] False 0 [] r)"


section \<open>What the writer writes\<close>

definition physical :: "RecordType \<Rightarrow> bytes \<Rightarrow> bytes" where
  "physical t data = record_header InitTypeCrc t data @ data"

definition block_pad :: "nat \<Rightarrow> bytes" where
  "block_pad off = (if kBlockSize - off < kHeaderSize then replicate (kBlockSize - off) 0 else [])"

text \<open>The bytes of a record that is added at block offset \<open>off\<close>, and the offset after it.\<close>

function log_enc :: "bool \<Rightarrow> nat \<Rightarrow> bytes \<Rightarrow> bytes \<times> nat" where
  "log_enc is_begin off data =
     (let n = frag_length off data; is_end = (length data = n);
          out = block_pad off @ physical (record_type is_begin is_end) (take n data);
          off' = switch_offset off + (kHeaderSize + n)
      in if is_end then (out, off')
         else let (rest, off'') = log_enc False off' (drop n data) in (out @ rest, off''))"
  by pat_completeness auto
termination
  by (relation "measure (\<lambda>(b, off, data). frag_measure off data)") (auto intro: frag_decreases)

declare log_enc.simps [simp del]

fun log_all :: "nat \<Rightarrow> bytes list \<Rightarrow> bytes \<times> nat" where
  "log_all off [] = ([], off)"
| "log_all off (d # ds) =
     (let (b, off) = log_enc True off d; (bs, off) = log_all off ds in (b @ bs, off))"

text \<open>Several records in a row, stopping at the first error.\<close>

fun AddRecords :: "'f WritableFile \<Rightarrow> bytes list \<Rightarrow> 'f log_writer \<Rightarrow> status \<times> 'f log_writer" where
  "AddRecords fops [] w = (OK, w)"
| "AddRecords fops (d # ds) w =
     (let (s, w) = AddRecord fops d w in if ok s then AddRecords fops ds w else (s, w))"

lemma kSizes [simp]: "0 < kHeaderSize" "kHeaderSize < kBlockSize" "kHeaderSize < 4096"
  by (simp_all add: kHeaderSize_def kBlockSize_def)

lemma length_record_header [simp]: "length (record_header tc t d) = kHeaderSize"
  by (simp add: record_header_def Let_def kHeaderSize_def)

lemma length_physical [simp]: "length (physical t d) = kHeaderSize + length d"
  by (simp add: physical_def)

lemma log_enc_end: "length data = frag_length off data \<Longrightarrow>
   log_enc b off data = (block_pad off @ physical (record_type b True) data, switch_offset off + (kHeaderSize + length data))"
  by (subst log_enc.simps) (simp add: Let_def)

lemma log_enc_more: "length data \<noteq> frag_length off data \<Longrightarrow>
   log_enc b off data =
     (let n = frag_length off data;
          (rest, off') = log_enc False (switch_offset off + (kHeaderSize + n)) (drop n data)
      in (block_pad off @ physical (record_type b False) (take n data) @ rest, off'))"
  by (subst log_enc.simps) (simp add: Let_def split: prod.splits)

lemma log_enc_0: "log_enc b 0 data = log_enc b kBlockSize data"
  by (subst (1 2) log_enc.simps)
     (simp add: block_pad_def switch_offset_def frag_length_def kBlockSize_def kHeaderSize_def)

definition writer_ok :: "'f log_writer \<Rightarrow> bool" where
  "writer_ok w \<longleftrightarrow> lw_type_crc w = InitTypeCrc \<and> lw_block_offset w \<le> kBlockSize"

lemma writer_ok_init: "writer_ok (Writer dest)" "writer_ok (Writer_at dest n)"
  by (simp_all add: writer_ok_def Writer_def Writer_at_def kBlockSize_def less_imp_le)

lemma AddRecord_loop_unfold:
  fixes w :: "'f log_writer"
  defines "o1 \<equiv> lw_block_offset w"
  assumes "EmitPhysicalRecord fops (record_type b (length data = frag_length o1 data))
      (take (frag_length o1 data) data) (switch_block fops w) = (s, w2)"
  shows "AddRecord_loop fops b data w =
      (if ok s \<and> length data \<noteq> frag_length o1 data
       then AddRecord_loop fops False (drop (frag_length o1 data) data) w2 else (s, w2))"
proof -
  have "(if length data < kBlockSize - switch_offset o1 - kHeaderSize then length data
      else kBlockSize - switch_offset o1 - kHeaderSize) = frag_length o1 data"
    by (simp add: frag_length_def)
  then show ?thesis
    using assms(2)
    by (subst AddRecord_loop.simps) (simp only: Let_def switch_block_offset o1_def [symmetric] fst_conv snd_conv)
qed

context writable_file
begin

lemma Emit_ok:
  assumes "EmitPhysicalRecord wf t ptr w = (OK, w')" "lw_type_crc w = InitTypeCrc"
  shows "wf_written (lw_dest w') = wf_written (lw_dest w) @ physical t ptr"
    "wf_stored (lw_dest w') = wf_written (lw_dest w')" "wf_clean (lw_dest w')"
    "lw_type_crc w' = InitTypeCrc" "lw_block_offset w' = lw_block_offset w + (kHeaderSize + length ptr)"
proof -
  from assms obtain f1 f2 f3 where
    "wf_Append wf (record_header InitTypeCrc t ptr) (lw_dest w) = (OK, f1)"
    "wf_Append wf ptr f1 = (OK, f2)" "wf_Flush wf f2 = (OK, f3)"
    and w': "w' = w\<lparr> lw_dest := f3, lw_block_offset := lw_block_offset w + (kHeaderSize + length ptr) \<rparr>"
    by (auto simp: EmitPhysicalRecord_def Let_def split: prod.splits if_splits)
  then have "wf_written f3 = wf_written (lw_dest w) @ physical t ptr" "wf_stored f3 = wf_written f3" "wf_clean f3"
    using append_ok flush_ok by (auto simp: physical_def)
  then show "wf_written (lw_dest w') = wf_written (lw_dest w) @ physical t ptr"
    "wf_stored (lw_dest w') = wf_written (lw_dest w')" "wf_clean (lw_dest w')"
    "lw_type_crc w' = InitTypeCrc" "lw_block_offset w' = lw_block_offset w + (kHeaderSize + length ptr)"
    using assms(2) by (simp_all add: w')
qed

lemma switch_block_ok:
  assumes "wf_clean (lw_dest w)"
  shows "wf_written (lw_dest (switch_block wf w)) = wf_written (lw_dest w) @ block_pad (lw_block_offset w)"
proof -
  let ?n = "kBlockSize - lw_block_offset w"
  have "?n < kHeaderSize \<Longrightarrow> fst (wf_Append wf (replicate ?n 0) (lw_dest w)) = OK"
    using assms by (intro append_clean) (auto intro: less_trans)
  then have "?n < kHeaderSize \<Longrightarrow> wf_written (snd (wf_Append wf (replicate ?n 0) (lw_dest w)))
      = wf_written (lw_dest w) @ replicate ?n 0"
    using append_ok by (metis prod.collapse)
  then show ?thesis by (simp add: switch_block_def block_pad_def Let_def)
qed

lemma AddRecord_loop_ok:
  assumes "AddRecord_loop wf b data w = (OK, w')" "lw_type_crc w = InitTypeCrc" "wf_clean (lw_dest w)"
    "lw_block_offset w = off"
  shows "wf_written (lw_dest w') = wf_written (lw_dest w) @ fst (log_enc b off data)
    \<and> lw_block_offset w' = snd (log_enc b off data)
    \<and> wf_stored (lw_dest w') = wf_written (lw_dest w') \<and> wf_clean (lw_dest w') \<and> lw_type_crc w' = InitTypeCrc"
  using assms
proof (induction b off data arbitrary: w rule: log_enc.induct)
  case (1 b off data)
  let ?n = "frag_length off data" and ?w1 = "switch_block wf w"
  obtain s w2 where e: "EmitPhysicalRecord wf (record_type b (length data = ?n)) (take ?n data) ?w1 = (s, w2)"
    by fastforce
  note eq = AddRecord_loop_unfold [of wf b data w s w2, unfolded "1.prems"(4), OF e]
  have s: "s = OK" using eq "1.prems"(1) by (cases s) (auto split: if_splits)
  note w2 = Emit_ok [OF e [unfolded s]]
  have pad: "wf_written (lw_dest ?w1) = wf_written (lw_dest w) @ block_pad off"
    using switch_block_ok [OF "1.prems"(3)] "1.prems"(4) by simp
  have off2: "lw_block_offset w2 = switch_offset off + (kHeaderSize + ?n)"
    using w2(5) "1.prems"(2,4) by simp
  show ?case
  proof (cases "length data = ?n")
    case True
    then have "w' = w2" using eq "1.prems"(1) by simp
    then show ?thesis
      using w2 pad off2 True "1.prems"(2) by (simp add: log_enc_end [OF True])
  next
    case False
    then have "AddRecord_loop wf False (drop ?n data) w2 = (OK, w')" using eq s "1.prems"(1) by simp
    from "1.IH" [OF refl refl refl refl False this _ _ off2] w2 "1.prems"(2) pad False show ?thesis
      by (simp add: log_enc_more [OF False] Let_def split: prod.splits)
  qed
qed

lemma AddRecords_ok:
  assumes "AddRecords wf ds w = (OK, w')" "lw_type_crc w = InitTypeCrc" "wf_clean (lw_dest w)"
    "wf_stored (lw_dest w) = wf_written (lw_dest w)"
  shows "wf_written (lw_dest w') = wf_written (lw_dest w) @ fst (log_all (lw_block_offset w) ds)
    \<and> lw_block_offset w' = snd (log_all (lw_block_offset w) ds)
    \<and> wf_stored (lw_dest w') = wf_written (lw_dest w')"
  using assms
proof (induction ds arbitrary: w)
  case (Cons d ds)
  obtain s w1 where e: "AddRecord wf d w = (s, w1)" by fastforce
  with Cons.prems have s: "s = OK" and r: "AddRecords wf ds w1 = (OK, w')" by (auto split: if_splits)
  note * = AddRecord_loop_ok [OF e [unfolded AddRecord_def s] Cons.prems(2,3) refl]
  from Cons.IH [OF r] * show ?case by (simp split: prod.splits)
qed simp

end
section \<open>What the reader reads\<close>

text \<open>The header, field by field.\<close>

lemma ucast_byte_of_nat: "n < 256 \<Longrightarrow> ucast (of_nat n :: byte) = (of_nat n :: u32)"
  by (rule unsigned_word_eqI) (simp add: unsigned_ucast_eq unsigned_of_nat take_bit_nat_eq_self)

lemma length_bytes:
  "(of_nat (n mod 256) :: u32) OR push_bit 8 (of_nat (n div 256)) = of_nat n"
proof -
  have n: "n mod 256 = take_bit 8 n" "n div 256 = drop_bit 8 n"
    by (simp_all add: take_bit_eq_mod drop_bit_eq_div)
  show ?thesis unfolding n
  proof (rule bit_word_eqI)
    fix i assume "i < LENGTH(32)"
    then show "bit ((of_nat (take_bit 8 n) :: u32) OR push_bit 8 (of_nat (drop_bit 8 n))) i = bit (of_nat n :: u32) i"
      by (cases "i < 8")
         (auto simp only: bit_or_iff bit_push_bit_iff bit_of_nat_iff bit_take_bit_iff bit_drop_bit_eq comp_apply
           possible_bit_word not_less le_add_diff_inverse)
  qed
qed

lemma physical_append: "physical t d @ rest = EncodeFixed32 (Mask (crc32c_Extend (InitTypeCrc ! type_num t) d))
      @ [of_nat (length d mod 256), of_nat (length d div 256), of_nat (type_num t)] @ d @ rest"
  by (simp add: physical_def record_header_def Let_def)

lemma header_type: "(scast ((physical t d @ rest) ! 6) :: u32) = of_nat (type_num t)"
proof -
  have n: "(physical t d @ rest) ! 6 = of_nat (type_num t)"
    unfolding physical_append by (simp add: nth_append)
  show ?thesis unfolding n by (cases t) simp_all
qed

lemma header_length:
  assumes "length d < 65536"
  shows "unat ((ucast ((physical t d @ rest) ! 4) :: u32) OR push_bit 8 (ucast ((physical t d @ rest) ! 5))) = length d"
proof -
  have n: "(physical t d @ rest) ! 4 = of_nat (length d mod 256)" "(physical t d @ rest) ! 5 = of_nat (length d div 256)"
    unfolding physical_append by (simp_all add: nth_append)
  have "length d div 256 < 256" "length d mod 256 < 256" using assms by simp_all
  then have u: "ucast (of_nat (length d mod 256) :: byte) = (of_nat (length d mod 256) :: u32)"
    "ucast (of_nat (length d div 256) :: byte) = (of_nat (length d div 256) :: u32)"
    by (simp_all only: ucast_byte_of_nat)
  show ?thesis
    unfolding n u length_bytes using assms by (simp add: unat_of_nat take_bit_nat_eq_self)
qed

lemma header_body:
  "take (length d) (drop kHeaderSize (physical t d @ rest)) = d"
  "drop (kHeaderSize + length d) (physical t d @ rest) = rest"
  by (simp_all add: physical_def)

lemma InitTypeCrc_nth: "InitTypeCrc ! type_num t = crc32c_Value [of_nat (type_num t)]"
  by (cases t) (simp_all add: InitTypeCrc_def kMaxRecordType_def)

lemma header_crc:
  "crc32c_Value (take (1 + length d) (drop 6 (physical t d @ rest))) = Unmask (DecodeFixed32 (physical t d @ rest))"
proof -
  have "take (1 + length d) (drop 6 (physical t d @ rest)) = [of_nat (type_num t)] @ d"
    unfolding physical_append by simp
  moreover have "DecodeFixed32 (physical t d @ rest) = Mask (crc32c_Extend (InitTypeCrc ! type_num t) d)"
    unfolding physical_append by (rule DecodeFixed32_Encode)
  ultimately show ?thesis by (simp only: Unmask_Mask InitTypeCrc_nth crc32c_Value_append)
qed

lemma ReadPhysical_parse:
  assumes "lr_buffer r = physical t d @ rest" "length d < 65536" "t \<noteq> kZeroType" "lr_initial_offset r = 0"
  shows "ReadPhysicalRecord sf res r = (of_nat (type_num t), d, r\<lparr> lr_buffer := rest \<rparr>)"
proof -
  have t: "(of_nat (type_num t) :: u32) \<noteq> 0" using assms(3) by (cases t) simp_all
  have "\<not> length (lr_buffer r) < kHeaderSize" by (simp add: assms(1))
  then show ?thesis
    using header_length [OF assms(2), of t rest] header_type [of t d rest] header_body [of d t rest]
      header_crc [of d t rest] t assms(4)
    by (subst ReadPhysicalRecord.simps) (simp add: assms(1) Let_def)
qed

lemma ReadPhysical_trunc:
  assumes "lr_buffer r = take k (physical t d)" "k < kHeaderSize + length d" "length d < 65536" "lr_eof r"
  shows "\<exists>r'. ReadPhysicalRecord sf res r = (kEof, res, r') \<and> lr_reports r' = lr_reports r"
proof (cases "length (lr_buffer r) < kHeaderSize")
  case True
  then show ?thesis using assms(4) by (subst ReadPhysicalRecord.simps) simp
next
  case False
  then have k: "kHeaderSize \<le> k" using assms(1,2) by simp
  have n: "lr_buffer r ! i = (physical t d @ []) ! i" if "i < kHeaderSize" for i
    using that k assms(1) by simp
  have len: "unat ((ucast (lr_buffer r ! 4) :: u32) OR push_bit 8 (ucast (lr_buffer r ! 5))) = length d"
    using header_length [OF assms(3), of t "[]"] n [of 4] n [of 5] by (simp add: kHeaderSize_def)
  have "length (lr_buffer r) < kHeaderSize + length d" using assms(1,2) by simp
  then show ?thesis
    using False len assms(4) by (subst ReadPhysicalRecord.simps) (simp add: Let_def)
qed

lemma frag_fits: "switch_offset off + (kHeaderSize + frag_length off data) \<le> kBlockSize"
  using switch_offset_le [of off] by (simp add: frag_length_def)

lemma length_log_enc: "length (block_pad off) + kHeaderSize \<le> length (fst (log_enc b off data))"
  by (subst log_enc.simps) (auto simp: Let_def split: prod.splits)

lemma kEof_codes [simp]: "kEof \<noteq> 1" "kEof \<noteq> 2" "kEof \<noteq> 3" "kEof \<noteq> 4"
  by (simp_all add: kEof_def kMaxRecordType_def)

text \<open>
  Where a reader stands: \<open>reader_at r off R\<close> says that the bytes not yet consumed are \<open>R\<close> and that
  they start at offset \<open>off\<close> of a block (the end of the previous block counts as offset
  \<open>kBlockSize\<close>).
\<close>

context sequential_file
begin

definition reader_at :: "'f log_reader \<Rightarrow> nat \<Rightarrow> bytes \<Rightarrow> bool" where
  "reader_at r off R \<longleftrightarrow> off \<le> kBlockSize \<and> sf_healthy (lr_file r)
     \<and> R = lr_buffer r @ sf_rest (lr_file r) \<and> lr_initial_offset r = 0 \<and> \<not> lr_resyncing r
     \<and> (if lr_eof r then sf_rest (lr_file r) = [] \<and> length (lr_buffer r) \<le> kBlockSize - off
        else length (lr_buffer r) = kBlockSize - off)"

lemma refill:
  assumes "reader_at r off R" "kBlockSize - off < kHeaderSize" "\<not> lr_eof r"
  obtains r' where "ReadPhysicalRecord sf res r = ReadPhysicalRecord sf res r'"
    "reader_at r' 0 (drop (kBlockSize - off) R)" "lr_reports r' = lr_reports r"
    "lr_eof r' \<longleftrightarrow> length (drop (kBlockSize - off) R) < kBlockSize"
proof -
  have h: "sf_healthy (lr_file r)" and R: "drop (kBlockSize - off) R = sf_rest (lr_file r)"
    and b: "length (lr_buffer r) < kHeaderSize" and i: "lr_initial_offset r = 0" "\<not> lr_resyncing r"
    using assms by (auto simp: reader_at_def)
  obtain f where f: "sf_Read sf kBlockSize (lr_file r) = ((OK, take kBlockSize (sf_rest (lr_file r))), f)"
    "sf_rest f = drop kBlockSize (sf_rest (lr_file r))" "sf_healthy f"
    using read_healthy [OF h] by blast
  let ?b = "take kBlockSize (sf_rest (lr_file r))"
  define r1 where "r1 = r\<lparr> lr_file := f, lr_buffer := ?b,
      lr_end_of_buffer_offset := lr_end_of_buffer_offset r + of_nat (length ?b) \<rparr>"
  define r' where "r' = (if length ?b < kBlockSize then r1\<lparr> lr_eof := True \<rparr> else r1)"
  have "ReadPhysicalRecord sf res r = ReadPhysicalRecord sf res r'"
    using b assms(3) by (subst ReadPhysicalRecord.simps) (simp add: f(1) r'_def r1_def Let_def)
  moreover have "reader_at r' 0 (drop (kBlockSize - off) R)"
    unfolding R using f i assms(3) by (auto simp: reader_at_def r'_def r1_def min_def)
  moreover have "lr_reports r' = lr_reports r" by (simp add: r'_def r1_def)
  moreover have "lr_eof r' \<longleftrightarrow> length (drop (kBlockSize - off) R) < kBlockSize"
    unfolding R using assms(3) by (auto simp: r'_def r1_def)
  ultimately show ?thesis by (rule that)
qed

lemma at_parse:
  assumes "reader_at r off (physical t d @ R)" "off + (kHeaderSize + length d) \<le> kBlockSize" "t \<noteq> kZeroType"
  shows "\<exists>r'. ReadPhysicalRecord sf res r = (of_nat (type_num t), d, r')
    \<and> reader_at r' (off + (kHeaderSize + length d)) R \<and> lr_reports r' = lr_reports r"
proof -
  have d: "length d < 65536" using assms(2) by (simp add: kBlockSize_def)
  define B where "B = drop (kHeaderSize + length d) (lr_buffer r)"
  have len: "kHeaderSize + length d \<le> length (lr_buffer r)"
  proof (cases "lr_eof r")
    case True
    then have "physical t d @ R = lr_buffer r" using assms(1) by (auto simp: reader_at_def)
    then show ?thesis by (metis length_append length_physical le_add1)
  qed (use assms in \<open>auto simp: reader_at_def\<close>)
  have "take (kHeaderSize + length d) (lr_buffer r) = physical t d"
    using assms(1) len by (simp add: reader_at_def)
      (metis append_eq_append_conv_if length_physical)
  then have buf: "lr_buffer r = physical t d @ B" unfolding B_def by (metis append_take_drop_id)
  have R: "R = B @ sf_rest (lr_file r)" using assms(1) by (simp add: reader_at_def buf)
  from ReadPhysical_parse [OF buf d assms(3), of sf res] assms(1)
  have "ReadPhysicalRecord sf res r = (of_nat (type_num t), d, r\<lparr> lr_buffer := B \<rparr>)"
    by (simp add: reader_at_def)
  moreover have "reader_at (r\<lparr> lr_buffer := B \<rparr>) (off + (kHeaderSize + length d)) R"
    using assms(1,2) by (auto simp: reader_at_def R buf split: if_splits)
  ultimately show ?thesis by simp
qed

lemma at_trunc:
  assumes "reader_at r off (take k (physical t d))" "k < kHeaderSize + length d"
    "off + (kHeaderSize + length d) \<le> kBlockSize"
  shows "\<exists>r'. ReadPhysicalRecord sf res r = (kEof, res, r') \<and> lr_reports r' = lr_reports r"
proof -
  have d: "length d < 65536" using assms(3) by (simp add: kBlockSize_def)
  have "take k (physical t d) = lr_buffer r @ sf_rest (lr_file r)" using assms(1) by (simp add: reader_at_def)
  then have "length (take k (physical t d)) = length (lr_buffer r @ sf_rest (lr_file r))" by (rule arg_cong)
  then have len: "length (lr_buffer r) + length (sf_rest (lr_file r)) = k" using assms(2) by simp
  have e: "lr_eof r" using assms len by (auto simp: reader_at_def split: if_splits)
  then have "lr_buffer r = take k (physical t d)" using assms(1) by (simp add: reader_at_def)
  from ReadPhysical_trunc [OF this assms(2) d e] show ?thesis .
qed

lemma read_frag:
  assumes "reader_at r off (block_pad off @ physical t d @ R)"
    "switch_offset off + (kHeaderSize + length d) \<le> kBlockSize" "t \<noteq> kZeroType"
  shows "\<exists>r'. ReadPhysicalRecord sf res r = (of_nat (type_num t), d, r')
    \<and> reader_at r' (switch_offset off + (kHeaderSize + length d)) R \<and> lr_reports r' = lr_reports r"
proof (cases "kBlockSize - off < kHeaderSize")
  case False
  then show ?thesis using assms at_parse [of r off t d R res] by (simp add: block_pad_def switch_offset_def)
next
  case True
  have "\<not> lr_eof r"
  proof
    assume "lr_eof r"
    then have "length (block_pad off @ physical t d @ R) \<le> kBlockSize - off"
      using assms(1) by (auto simp: reader_at_def)
    then show False using True by (simp add: block_pad_def)
  qed
  from refill [OF assms(1) True this] obtain r' where
    r': "ReadPhysicalRecord sf res r = ReadPhysicalRecord sf res r'" "lr_reports r' = lr_reports r"
    "reader_at r' 0 (drop (kBlockSize - off) (block_pad off @ physical t d @ R))" by metis
  then have "reader_at r' 0 (physical t d @ R)" using True by (simp add: block_pad_def)
  from at_parse [OF this, of res] r' assms(2,3) True show ?thesis by (simp add: switch_offset_def)
qed

lemma read_frag_trunc:
  assumes "reader_at r off (take k (block_pad off @ physical t d))"
    "k < length (block_pad off) + (kHeaderSize + length d)"
    "switch_offset off + (kHeaderSize + length d) \<le> kBlockSize"
  shows "\<exists>r'. ReadPhysicalRecord sf res r = (kEof, res, r') \<and> lr_reports r' = lr_reports r"
proof (cases "kBlockSize - off < kHeaderSize")
  case False
  then show ?thesis using assms at_trunc [of r off k t d res] by (simp add: block_pad_def switch_offset_def)
next
  case True
  show ?thesis
  proof (cases "lr_eof r")
    case e: True
    then have "length (lr_buffer r) < kHeaderSize" using assms(1) True by (auto simp: reader_at_def)
    then show ?thesis using e by (subst ReadPhysicalRecord.simps) simp
  next
    case e: False
    from refill [OF assms(1) True e] obtain r' where
      r': "ReadPhysicalRecord sf res r = ReadPhysicalRecord sf res r'" "lr_reports r' = lr_reports r"
      "reader_at r' 0 (drop (kBlockSize - off) (take k (block_pad off @ physical t d)))" by metis
    have "drop (kBlockSize - off) (take k (block_pad off @ physical t d))
        = take (k - (kBlockSize - off)) (physical t d)"
      unfolding drop_take using True by (simp add: block_pad_def)
    with r' have "reader_at r' 0 (take (k - (kBlockSize - off)) (physical t d))" by simp
    from at_trunc [OF this, of res] r' assms(2,3) True show ?thesis
      by (auto simp: switch_offset_def block_pad_def)
  qed
qed

text \<open>A logical record, whole and cut short.\<close>

lemma ReadRecord_loop_whole:
  assumes "reader_at r off (fst (log_enc b off data) @ R)" "in_frag \<longleftrightarrow> \<not> b"
    "length (fst (log_enc b off data)) \<le> fuel"
  shows "\<exists>scr r'. ReadRecord_loop fuel sf frag in_frag pros scratch r
      = Some (True, (if b then [] else scratch) @ data, scr, r')
    \<and> reader_at r' (snd (log_enc b off data)) R \<and> lr_reports r' = lr_reports r"
  using assms
proof (induction b off data arbitrary: r in_frag fuel frag pros scratch rule: log_enc.induct)
  case (1 b off data)
  let ?n = "frag_length off data"
  let ?t = "record_type b (length data = ?n)"
  obtain fuel' where fuel: "fuel = Suc fuel'"
    using "1.prems"(3) length_log_enc [of off b data] kSizes(1) by (cases fuel) auto
  have t: "?t \<noteq> kZeroType" by (simp add: record_type_def)
  show ?case
  proof (cases "length data = ?n")
    case True
    then have "reader_at r off (block_pad off @ physical ?t data @ R)"
      using "1.prems"(1) by (simp add: log_enc_end [OF True])
    from read_frag [OF this _ t, of frag] frag_fits [of off data] True obtain r' where
      r': "ReadPhysicalRecord sf frag r = (of_nat (type_num ?t), data, r')"
        "reader_at r' (switch_offset off + (kHeaderSize + length data)) R" "lr_reports r' = lr_reports r"
      by auto
    have nr: "\<not> lr_resyncing r'" using r'(2) by (simp add: reader_at_def)
    have at: "reader_at (r'\<lparr> lr_last_record_offset := x \<rparr>) o' R = reader_at r' o' R" for x o'
      by (simp add: reader_at_def)
    show ?thesis
      using r' nr True "1.prems"(2)
      by (auto simp: fuel record_type_def log_enc_end [OF True] at)
  next
    case False
    let ?off = "switch_offset off + (kHeaderSize + ?n)"
    have e: "fst (log_enc b off data) = block_pad off @ physical ?t (take ?n data) @ fst (log_enc False ?off (drop ?n data))"
      "snd (log_enc b off data) = snd (log_enc False ?off (drop ?n data))"
      using False by (simp_all add: log_enc_more [OF False] Let_def split: prod.splits)
    have "reader_at r off (block_pad off @ physical ?t (take ?n data) @ fst (log_enc False ?off (drop ?n data)) @ R)"
      using "1.prems"(1) by (simp add: e)
    from read_frag [OF this _ t, of frag] frag_fits [of off data] obtain r' where
      r': "ReadPhysicalRecord sf frag r = (of_nat (type_num ?t), take ?n data, r')"
        "reader_at r' ?off (fst (log_enc False ?off (drop ?n data)) @ R)" "lr_reports r' = lr_reports r"
      by auto
    have nr: "\<not> lr_resyncing r'" using r'(2) by (simp add: reader_at_def)
    have f': "length (fst (log_enc False ?off (drop ?n data))) \<le> fuel'"
      using "1.prems"(3) by (simp add: fuel e kHeaderSize_def)
    define scr where "scr = (if b then [] else scratch) @ take ?n data"
    obtain pros' where step: "ReadRecord_loop fuel sf frag in_frag pros scratch r
        = ReadRecord_loop fuel' sf (take ?n data) True pros' scr r'"
      using r'(1) nr False "1.prems"(2) by (cases b) (auto simp: fuel record_type_def scr_def)
    from "1.IH" [OF refl refl refl refl False r'(2) _ f', of True "take ?n data" pros' scr] r'(3) show ?thesis
      by (auto simp: step e scr_def)
  qed
qed

lemma ReadRecord_loop_trunc:
  assumes "reader_at r off (take k (fst (log_enc b off data)))" "k < length (fst (log_enc b off data))"
    "in_frag \<longleftrightarrow> \<not> b" "k < fuel"
  shows "\<exists>scr r'. ReadRecord_loop fuel sf frag in_frag pros scratch r = Some (False, [], scr, r')
    \<and> lr_reports r' = lr_reports r"
  using assms
proof (induction b off data arbitrary: r k in_frag fuel frag pros scratch rule: log_enc.induct)
  case (1 b off data)
  let ?n = "frag_length off data"
  let ?t = "record_type b (length data = ?n)" and ?out = "block_pad off @ physical (record_type b (length data = frag_length off data)) (take (frag_length off data) data)"
  obtain fuel' where fuel: "fuel = Suc fuel'" using "1.prems"(4) by (cases fuel) auto
  have t: "?t \<noteq> kZeroType" by (simp add: record_type_def)
  let ?off = "switch_offset off + (kHeaderSize + ?n)"
  define rest where "rest = (if length data = ?n then [] else fst (log_enc False ?off (drop ?n data)))"
  have e: "fst (log_enc b off data) = ?out @ rest"
  proof (cases "length data = ?n")
    case True
    then show ?thesis by (simp add: log_enc_end rest_def)
  next
    case False
    then show ?thesis by (simp add: log_enc_more [OF False] Let_def rest_def split: prod.splits)
  qed
  show ?case
  proof (cases "k < length ?out")
    case True
    then have "reader_at r off (take k ?out)" using "1.prems"(1) by (simp add: e)
    from read_frag_trunc [OF this, of frag] True frag_fits [of off data] obtain r' where
      r': "ReadPhysicalRecord sf frag r = (kEof, frag, r')" "lr_reports r' = lr_reports r" by auto
    show ?thesis using r' by (auto simp: fuel Let_def)
  next
    case k: False
    then have False: "length data \<noteq> ?n" using "1.prems"(2) by (auto simp: e rest_def)
    have "reader_at r off (block_pad off @ physical ?t (take ?n data) @ take (k - length ?out) rest)"
      using "1.prems"(1) k by (simp add: e)
    from read_frag [OF this _ t, of frag] frag_fits [of off data] obtain r' where
      r': "ReadPhysicalRecord sf frag r = (of_nat (type_num ?t), take ?n data, r')"
        "reader_at r' ?off (take (k - length ?out) rest)" "lr_reports r' = lr_reports r"
      by auto
    have nr: "\<not> lr_resyncing r'" using r'(2) by (simp add: reader_at_def)
    define scr where "scr = (if b then [] else scratch) @ take ?n data"
    obtain pros' where step: "ReadRecord_loop fuel sf frag in_frag pros scratch r
        = ReadRecord_loop fuel' sf (take ?n data) True pros' scr r'"
      using r'(1) nr False "1.prems"(3) by (cases b) (auto simp: fuel record_type_def scr_def)
    have "k - length ?out < length rest" "k - length ?out < fuel'"
      using k "1.prems"(2,4) by (auto simp: e fuel kHeaderSize_def)
    with "1.IH" [OF refl refl refl refl False, of r' "k - length ?out" True fuel' "take ?n data" pros' scr] r'(2,3) False
    show ?thesis by (auto simp: step rest_def)
  qed
qed

lemma ReadRecord_start: "reader_at r off R \<Longrightarrow> ReadRecord fuel sf r = ReadRecord_loop fuel sf [] False 0 [] r"
  by (simp add: ReadRecord_def reader_at_def)

text \<open>Any file, damaged or failing: reading ends.\<close>

lemma ReportDrop_same [simp]:
  "lr_file (ReportDrop n s r) = lr_file r" "lr_buffer (ReportDrop n s r) = lr_buffer r"
  "lr_file (ReportCorruption m t r) = lr_file r" "lr_buffer (ReportCorruption m t r) = lr_buffer r"
  by (simp_all add: ReportDrop_def ReportCorruption_def)

definition unread :: "'f log_reader \<Rightarrow> nat" where
  "unread r = length (lr_buffer r) + length (sf_rest (lr_file r))"

lemma unread_report [simp]:
  "unread (ReportDrop n s r) = unread r" "unread (ReportCorruption m t r) = unread r"
  "unread (r\<lparr> lr_resyncing := x \<rparr>) = unread r"
  by (simp_all add: unread_def)

lemma ReadPhysical_consumes:
  assumes "kHeaderSize \<le> length (lr_buffer r)" "ReadPhysicalRecord sf res r = (t, res', r')"
  shows "unread r' < unread r"
proof -
  have "0 < length (lr_buffer r)" using assms(1) kSizes(1) by linarith
  moreover have "\<not> length (lr_buffer r) < kHeaderSize" using assms(1) by simp
  ultimately show ?thesis
    using assms(2) kSizes(1)
    by (subst (asm) ReadPhysicalRecord.simps) (auto simp: Let_def unread_def split: if_splits)
qed

lemma ReadPhysical_eof:
  "length (lr_buffer r) < kHeaderSize \<Longrightarrow> lr_eof r \<Longrightarrow> fst (ReadPhysicalRecord sf res r) = kEof"
  by (subst ReadPhysicalRecord.simps) simp

lemma ReadPhysical_progress:
  assumes "ReadPhysicalRecord sf res r = (t, res', r')"
  shows "t = kEof \<or> unread r' < unread r"
proof (cases "length (lr_buffer r) < kHeaderSize \<and> \<not> lr_eof r")
  case True
  obtain s buf f where f: "sf_Read sf kBlockSize (lr_file r) = ((s, buf), f)" by (metis surj_pair)
  define r1 where "r1 = r\<lparr> lr_file := f, lr_buffer := buf,
      lr_end_of_buffer_offset := lr_end_of_buffer_offset r + of_nat (length buf) \<rparr>"
  define r2 where "r2 = (if length buf < kBlockSize then r1\<lparr> lr_eof := True \<rparr> else r1)"
  have eq: "t = kEof \<or> ReadPhysicalRecord sf res r2 = (t, res', r')"
    using assms True by (subst (asm) ReadPhysicalRecord.simps)
      (auto simp: f Let_def r1_def r2_def split: if_splits)
  have le: "unread r2 \<le> unread r"
    using read_bounded [OF f] by (simp add: unread_def r2_def r1_def)
  show ?thesis
  proof (cases "kHeaderSize \<le> length buf")
    case b: True
    then have "kHeaderSize \<le> length (lr_buffer r2)" by (simp add: r2_def r1_def)
    then show ?thesis using eq le ReadPhysical_consumes [of r2 res t res' r'] by auto
  next
    case b: False
    then have "length (lr_buffer r2) < kHeaderSize" "lr_eof r2"
      using less_trans [of "length buf" kHeaderSize kBlockSize] by (auto simp: r2_def r1_def)
    then show ?thesis using eq ReadPhysical_eof [of r2 res] by auto
  qed
next
  case False
  then show ?thesis
    using assms ReadPhysical_consumes [of r res t res' r'] ReadPhysical_eof [of r res] by fastforce
qed

lemma ReadRecord_loop_terminates:
  "unread r < fuel \<Longrightarrow> ReadRecord_loop fuel sf frag in_frag pros scratch r \<noteq> None"
proof (induction fuel arbitrary: r frag in_frag pros scratch)
  case (Suc fuel)
  obtain t frag' r' where p: "ReadPhysicalRecord sf frag r = (t, frag', r')" by (metis surj_pair)
  from ReadPhysical_progress [OF p] consider "t = kEof" | "unread r' < fuel" using Suc.prems by linarith
  then show ?case
  proof cases
    case 1
    then show ?thesis using p by (auto simp: Let_def)
  next
    case 2
    then have IH: "ReadRecord_loop fuel sf a b c d r'' \<noteq> None" if "unread r'' = unread r'" for a b c d r''
      using that by (intro Suc.IH) simp
    show ?thesis using p by (simp add: Let_def IH del: not_None_eq)
  qed
qed simp

end

text \<open>All records of a log, one after the other, and how many of them are complete in the first
  \<open>k\<close> bytes.\<close>

fun ReadAll :: "nat \<Rightarrow> 'f SequentialFile \<Rightarrow> 'f log_reader \<Rightarrow> (bytes list \<times> 'f log_reader) option" where
  "ReadAll 0 sf r = None"
| "ReadAll (Suc n) sf r =
     (case ReadRecord (Suc n) sf r of
        None \<Rightarrow> None
      | Some (False, rec, scratch, r) \<Rightarrow> Some ([], r)
      | Some (True, rec, scratch, r) \<Rightarrow> map_option (\<lambda>(recs, r). (rec # recs, r)) (ReadAll n sf r))"

fun complete :: "nat \<Rightarrow> nat \<Rightarrow> bytes list \<Rightarrow> nat" where
  "complete k off [] = 0"
| "complete k off (d # ds) =
     (let n = length (fst (log_enc True off d))
      in if n \<le> k then Suc (complete (k - n) (snd (log_enc True off d)) ds) else 0)"

declare ReadRecord_loop.simps [simp del]

lemma log_enc_offset: "0 < snd (log_enc b off d) \<and> snd (log_enc b off d) \<le> kBlockSize"
proof (induction b off d rule: log_enc.induct)
  case (1 b off d)
  show ?case
  proof (cases "length d = frag_length off d")
    case True
    then show ?thesis
      using switch_offset_le [of off] by (simp add: log_enc_end frag_length_def kHeaderSize_def)
  next
    case False
    then show ?thesis
      using "1.IH" [OF refl refl refl refl False]
      by (auto simp: log_enc_more [OF False] Let_def split: prod.splits)
  qed
qed

lemma log_enc_nonempty: "fst (log_enc b off d) \<noteq> []"
  using length_log_enc [of off b d] by (auto simp: kHeaderSize_def)

lemma complete_bounds:
  "complete k off ds \<le> length ds \<and> length (fst (log_all off (take (complete k off ds) ds))) \<le> k
   \<and> (complete k off ds < length ds \<longrightarrow>
       k < length (fst (log_all off (take (Suc (complete k off ds)) ds))))"
proof (induction k off ds rule: complete.induct)
  case (2 k off d ds)
  then show ?case by (fastforce simp: Let_def split: prod.splits)
qed simp

context sequential_file
begin

lemma ReadAll_prefix:
  assumes "reader_at r (if off = 0 then kBlockSize else off) (take k (fst (log_all off ds)))" "k < n"
  shows "\<exists>r'. ReadAll n sf r = Some (take (complete k off ds) ds, r') \<and> lr_reports r' = lr_reports r"
  using assms
proof (induction ds arbitrary: k n off r)
  case Nil
  then obtain n' where n: "n = Suc n'" by (cases n) auto
  have "reader_at r (if off = 0 then kBlockSize else off) (take 0 (fst (log_enc True (if off = 0 then kBlockSize else off) [])))"
    using Nil by simp
  from ReadRecord_loop_trunc [OF this, of False n "[]" 0 "[]"]
  show ?case using ReadRecord_start [OF Nil.prems(1), of n] log_enc_nonempty by (auto simp: n)
next
  case (Cons d ds)
  let ?o = "if off = 0 then kBlockSize else off"
  let ?e = "fst (log_enc True off d)" and ?o2 = "snd (log_enc True off d)"
  obtain n' where n: "n = Suc n'" using Cons.prems(2) by (cases n) auto
  have e: "fst (log_enc True ?o d) = ?e" "snd (log_enc True ?o d) = ?o2" by (simp_all add: log_enc_0)
  have all: "fst (log_all off (d # ds)) = ?e @ fst (log_all ?o2 ds)" by (simp split: prod.splits)
  show ?case
  proof (cases "length ?e \<le> k")
    case True
    then have "reader_at r ?o (fst (log_enc True ?o d) @ take (k - length ?e) (fst (log_all ?o2 ds)))"
      using Cons.prems(1) by (simp add: all e del: log_all.simps)
    from ReadRecord_loop_whole [OF this, of False n "[]" 0 "[]"] True Cons.prems(2) obtain scr r' where
      r': "ReadRecord_loop n sf [] False 0 [] r = Some (True, d, scr, r')"
        "reader_at r' ?o2 (take (k - length ?e) (fst (log_all ?o2 ds)))" "lr_reports r' = lr_reports r"
      by (auto simp: e)
    have "k - length ?e < n'"
      using True Cons.prems(2) length_log_enc [of off True d] by (simp add: n kHeaderSize_def)
    with Cons.IH [of r' ?o2 "k - length ?e" n'] r'(2) log_enc_offset [of True off d] obtain r'' where
      "ReadAll n' sf r' = Some (take (complete (k - length ?e) ?o2 ds) ds, r'')" "lr_reports r'' = lr_reports r'"
      by auto
    then show ?thesis
      using r' True ReadRecord_start [OF Cons.prems(1), of n] by (simp add: n)
  next
    case False
    then have "reader_at r ?o (take k (fst (log_enc True ?o d)))"
      using Cons.prems(1) by (simp add: all e del: log_all.simps)
    from ReadRecord_loop_trunc [OF this, of False n "[]" 0 "[]"] False Cons.prems(2)
    show ?thesis
      using ReadRecord_start [OF Cons.prems(1), of n] by (auto simp: e n)
  qed
qed

lemma Reader_at_start:
  "sf_healthy f \<Longrightarrow> reader_at (Reader f rep chk 0) kBlockSize (sf_rest f)"
  by (simp add: reader_at_def Reader_def)

lemma log_prefix:
  assumes "sf_healthy f" "sf_rest f = take k (fst (log_all 0 ds))" "k < n"
  shows "\<exists>r'. ReadAll n sf (Reader f rep chk 0) = Some (take (complete k 0 ds) ds, r') \<and> lr_reports r' = []"
  using ReadAll_prefix [of "Reader f rep chk 0" 0 k ds n] Reader_at_start [OF assms(1), of rep chk] assms
  by (simp add: Reader_def)

end

context sequential_file
begin

lemma ReadRecord_terminates: "unread r < fuel \<Longrightarrow> ReadRecord fuel sf r \<noteq> None"
proof -
  assume f: "unread r < fuel"
  have "unread (snd (SkipToInitialBlock sf r)) \<le> unread r"
    using skip_bounded by (auto simp: SkipToInitialBlock_def Let_def unread_def split: prod.splits)
  then have "unread (snd (SkipToInitialBlock sf r)) < fuel" using f by linarith
  then show ?thesis
    using f ReadRecord_loop_terminates
    by (cases "SkipToInitialBlock sf r") (simp add: ReadRecord_def Let_def del: not_None_eq)
qed

end

lemma log_all_mono: "i \<le> j \<Longrightarrow> length (fst (log_all off (take i ds))) \<le> length (fst (log_all off (take j ds)))"
proof (induction ds arbitrary: off i j)
  case (Cons d ds)
  then show ?case by (cases i; cases j) (auto split: prod.splits, metis fst_conv)
qed simp

section \<open>Properties\<close>

text \<open>
  C1: Recovery after a crash.  Records are added to a fresh log file (the kernel may interrupt
  calls and write short counts, but no call reports an error); the machine then stops, and
  some prefix of the file survives.  Reading the surviving prefix, with or without checking
  checksums, ends, yields a prefix of the records that were added, reports no corruption, and
  misses no record whose bytes had all reached the surviving part.
\<close>

theorem wal_crash_recovery:
  assumes "fd_data d = []"
    and "AddRecords posix_writable ds (Writer (PosixWritableFile_init name d)) = (OK, w)"
    and "psf_healthy f" "psf_rest f = take k (fd_data (pwf_fd (lw_dest w)))" "k < fuel"
  shows "\<exists>m r. ReadAll fuel posix_sequential (Reader f has_reporter checksum 0) = Some (take m ds, r)
    \<and> m \<le> length ds \<and> lr_reports r = []
    \<and> (\<forall>j w'. j \<le> length ds
        \<and> AddRecords posix_writable (take j ds) (Writer (PosixWritableFile_init name d)) = (OK, w')
        \<and> length (fd_data (pwf_fd (lw_dest w'))) \<le> k \<longrightarrow> j \<le> m)"
proof -
  have enc: "fd_data (pwf_fd (lw_dest w')) = fst (log_all 0 es)"
    if "AddRecords posix_writable es (Writer (PosixWritableFile_init name d)) = (OK, w')" for es w'
    using pwf.AddRecords_ok [OF that] assms(1)
    by (auto simp: Writer_def PosixWritableFile_init_def pwf_clean_def pwf_stored_def pwf_written_def)
  define m where "m = complete k 0 ds"
  have "j \<le> m" if "j \<le> length ds"
    "AddRecords posix_writable (take j ds) (Writer (PosixWritableFile_init name d)) = (OK, w')"
    "length (fd_data (pwf_fd (lw_dest w'))) \<le> k" for j w'
  proof (rule ccontr)
    assume "\<not> j \<le> m"
    then have "k < length (fst (log_all 0 (take (Suc m) ds)))" "Suc m \<le> j"
      using complete_bounds [of k 0 ds] that(1) by (auto simp: m_def)
    then show False using log_all_mono [of "Suc m" j 0 ds] that(3) enc [OF that(2)] by simp
  qed
  moreover have "m \<le> length ds" using complete_bounds [of k 0 ds] by (simp add: m_def)
  ultimately show ?thesis
    using psf.log_prefix [OF assms(3) assms(4) [unfolded enc [OF assms(2)]] assms(5), of has_reporter checksum]
    unfolding m_def by metis
qed

definition empty_fd :: fd where
  "empty_fd = \<lparr> fd_data = [], fd_pos = 0, fd_synced = 0, fd_events = [Fail EINTR, Short 2] \<rparr>"

lemma example_AddRecords_ok:
  "fst (AddRecords posix_writable [[1, 2, 3]] (Writer (PosixWritableFile_init ''000003.log'' empty_fd))) = OK"
  by (simp add: AddRecord_def AddRecord_loop.simps switch_block_def Writer_def PosixWritableFile_init_def
      kBlockSize_def kHeaderSize_def EmitPhysicalRecord_def posix_writable_def pwf_Append_def
      kWritableFileBufferSize_def Let_def FlushBuffer_def WriteUnbuffered.simps sys_write_def empty_fd_def
      record_header_def)

theorem wal_crash_recovery_witness:
  "let w = snd (AddRecords posix_writable [[1, 2, 3]] (Writer (PosixWritableFile_init ''000003.log'' empty_fd)));
       f = \<lparr> psf_fd = \<lparr> fd_data = take 50 (fd_data (pwf_fd (lw_dest w))), fd_pos = 0, fd_synced = 0,
                           fd_events = [] \<rparr>, psf_filename = ''000003.log'' \<rparr>
   in \<exists>m r. ReadAll 100 posix_sequential (Reader f True True 0) = Some (take m [[1, 2, 3]], r)
      \<and> m \<le> 1 \<and> lr_reports r = []"
proof -
  define w where "w = snd (AddRecords posix_writable [[1, 2, 3]] (Writer (PosixWritableFile_init ''000003.log'' empty_fd)))"
  define f where "f = \<lparr> psf_fd = \<lparr> fd_data = take 50 (fd_data (pwf_fd (lw_dest w))), fd_pos = 0, fd_synced = 0,
                           fd_events = [] \<rparr>, psf_filename = ''000003.log'' \<rparr>"
  have "AddRecords posix_writable [[1, 2, 3]] (Writer (PosixWritableFile_init ''000003.log'' empty_fd)) = (OK, w)"
    using example_AddRecords_ok by (simp add: w_def prod_eq_iff)
  moreover have "psf_healthy f" "psf_rest f = take 50 (fd_data (pwf_fd (lw_dest w)))"
    by (simp_all add: f_def psf_healthy_def psf_rest_def)
  ultimately have "\<exists>m r. ReadAll 100 posix_sequential (Reader f True True 0) = Some (take m [[1, 2, 3]], r)
      \<and> m \<le> 1 \<and> lr_reports r = []"
    using wal_crash_recovery [of empty_fd "[[1, 2, 3]]" "''000003.log''" w f 50 100 True True]
    by (simp add: empty_fd_def del: ReadAll.simps AddRecords.simps) blast
  then show ?thesis unfolding w_def f_def Let_def .
qed

text \<open>
  C2: A record that \<open>AddRecord\<close> acknowledges is in the file: if it returns OK on a writer whose
  file buffer is empty, the operating system has the old contents followed by exactly the
  record's fragments, nothing stays in the buffer, and the writer is ready for the next record.
\<close>

theorem AddRecord_stores:
  assumes "writer_ok w" "pwf_buf (lw_dest w) = []" "AddRecord posix_writable data w = (OK, w')"
  shows "fd_data (pwf_fd (lw_dest w')) = fd_data (pwf_fd (lw_dest w)) @ fst (log_enc True (lw_block_offset w) data)
    \<and> pwf_buf (lw_dest w') = [] \<and> lw_block_offset w' = snd (log_enc True (lw_block_offset w) data) \<and> writer_ok w'"
  using pwf.AddRecord_loop_ok [OF assms(3) [unfolded AddRecord_def] _ _ refl] assms log_enc_offset [of True "lw_block_offset w" data]
  by (auto simp: writer_ok_def pwf_clean_def pwf_stored_def pwf_written_def)

theorem AddRecord_stores_witness:
  "let w = Writer (PosixWritableFile_init ''000003.log'' empty_fd);
       w' = snd (AddRecord posix_writable [1, 2, 3] w)
   in fd_data (pwf_fd (lw_dest w')) = fst (log_enc True 0 [1, 2, 3]) \<and> writer_ok w'"
proof -
  define w where "w = Writer (PosixWritableFile_init ''000003.log'' empty_fd)"
  define w' where "w' = snd (AddRecord posix_writable [1, 2, 3] w)"
  have "AddRecord posix_writable [1, 2, 3] w = (OK, w')"
    using example_AddRecords_ok by (auto simp: w_def w'_def prod_eq_iff split: prod.splits if_splits)
  from AddRecord_stores [OF _ _ this] have "fd_data (pwf_fd (lw_dest w')) = fst (log_enc True 0 [1, 2, 3]) \<and> writer_ok w'"
    using writer_ok_init(1) [of "PosixWritableFile_init ''000003.log'' empty_fd"]
    by (simp add: w_def) (simp add: Writer_def PosixWritableFile_init_def empty_fd_def)
  then show ?thesis by (simp add: w_def w'_def Let_def)
qed

text \<open>
  C5: \<open>ReadRecord\<close> ends on every file, damaged, truncated or failing, in at most one step of its
  loop per unread byte.
\<close>

theorem ReadRecord_ends:
  assumes "length (lr_buffer r) + length (psf_rest (lr_file r)) < fuel"
  shows "ReadRecord fuel posix_sequential r \<noteq> None"
  using psf.ReadRecord_terminates [of r fuel] assms by (simp add: psf.unread_def)

theorem ReadRecord_ends_witness:
  "ReadRecord 9 posix_sequential (Reader \<lparr> psf_fd = empty_fd\<lparr> fd_data := [1, 2, 3, 4, 5, 6, 255, 8] \<rparr>,
     psf_filename = ''x'' \<rparr> True True 0) \<noteq> None"
  by (rule ReadRecord_ends) (simp add: Reader_def psf_rest_def empty_fd_def)

end
