(* ===== verification/RDB_Random.thy ===== *)
theory RDB_Random
  imports Coding
begin

text \<open>
  The pseudo-random generator of \<^verbatim>\<open>src/util/random.h\<close>.  \<open>seed_ * A\<close> is a product of two 32-bit
  values and wraps before it is widened to 64 bits; the development keeps that wrap-around.
\<close>

definition rnd_M :: u32 where "rnd_M = 2147483647"
definition rnd_A :: u32 where "rnd_A = 16807"

definition Random_init :: "u32 \<Rightarrow> u32" where
  "Random_init s = (let seed = s AND 0x7fffffff in if seed = 0 \<or> seed = 2147483647 then 1 else seed)"

definition random_Next :: "u32 \<Rightarrow> u32" where
  "random_Next seed =
     (let product = ucast (seed * rnd_A) :: u64;
          seed = ucast (drop_bit 31 product + (product AND ucast rnd_M)) :: u32
      in if rnd_M < seed then seed - rnd_M else seed)"

definition Uniform :: "nat \<Rightarrow> u32 \<Rightarrow> nat \<times> u32" where
  "Uniform n seed = (let s = random_Next seed in (unat s mod n, s))"

definition OneIn :: "nat \<Rightarrow> u32 \<Rightarrow> bool \<times> u32" where
  "OneIn n seed = (let s = random_Next seed in (unat s mod n = 0, s))"

definition Skewed :: "nat \<Rightarrow> u32 \<Rightarrow> nat \<times> u32" where
  "Skewed max_log seed = (let (k, s) = Uniform (max_log + 1) seed in Uniform (2 ^ k) s)"

definition seed_ok :: "u32 \<Rightarrow> bool" where
  "seed_ok s \<longleftrightarrow> 1 \<le> unat s \<and> unat s \<le> unat rnd_M"

lemma Random_init_ok: "seed_ok (Random_init s)"
proof -
  have "s AND 0x7fffffff \<le> 0x7fffffff" by (rule word_and_le1)
  then have "unat (s AND 0x7fffffff) \<le> 2147483647" by (simp add: word_le_nat_alt)
  moreover have "s AND 0x7fffffff \<noteq> 0 \<Longrightarrow> 0 < unat (s AND 0x7fffffff)"
    by (metis neq0_conv unsigned_eq_0_iff)
  ultimately show ?thesis
    by (auto simp: seed_ok_def Random_init_def Let_def rnd_M_def Suc_le_eq)
qed

lemma unat_and_M: "unat ((x :: u64) AND ucast rnd_M) = unat x mod 2 ^ 31"
proof -
  have "(ucast rnd_M :: u64) = mask 31" by (simp add: rnd_M_def mask_eq_exp_minus_1)
  then have "x AND ucast rnd_M = take_bit 31 x" by (simp only: take_bit_eq_mask)
  then have "unat (x AND ucast rnd_M) = take_bit 31 (unat x)" by (simp only: unsigned_take_bit_eq)
  then show ?thesis by (simp only: take_bit_eq_mod)
qed

lemma unat_random_Next:
  "unat (random_Next seed) =
     (let p = unat seed * 16807 mod 2 ^ 32; r = p div 2 ^ 31 + p mod 2 ^ 31
      in if 2147483647 < r then r - 2147483647 else r)"
proof -
  define p where "p = unat (seed * rnd_A)"
  have p: "p = unat seed * 16807 mod 2 ^ 32" by (simp add: p_def rnd_A_def unat_word_ariths)
  have p32: "p < 2 ^ 32" by (simp add: p)
  let ?x = "ucast (seed * rnd_A) :: u64"
  have x: "unat ?x = p" unfolding p_def by simp
  have d: "unat (drop_bit 31 ?x) = p div 2 ^ 31" "unat (?x AND ucast rnd_M) = p mod 2 ^ 31"
    unfolding unat_and_M x by (subst unat_drop_bit_eq, simp only: x drop_bit_eq_div) (rule refl)
  have b: "p div 2 ^ 31 + p mod 2 ^ 31 \<le> 2 ^ 31" using p32 by simp
  define y where "y = (ucast (drop_bit 31 ?x + (?x AND ucast rnd_M)) :: u32)"
  have r: "unat y = p div 2 ^ 31 + p mod 2 ^ 31"
    unfolding y_def using b by (subst unsigned_ucast_eq, subst unat_word_ariths) (simp add: d take_bit_eq_mod)
  show ?thesis
    unfolding random_Next_def Let_def p [symmetric] y_def [symmetric] r [symmetric]
    by (simp add: word_less_nat_alt rnd_M_def unat_sub_if_size)
qed

lemma random_Next_ok:
  assumes "seed_ok seed"
  shows "seed_ok (random_Next seed)"
proof -
  define p where "p = unat seed * 16807 mod 2 ^ 32"
  have "coprime (2 ^ 32 :: nat) 16807" by (simp del: power_numeral)
  then have "\<not> 2 ^ 32 dvd unat seed * 16807"
    using assms dvd_imp_le [of "2 ^ 32" "unat seed"]
    by (auto simp: seed_ok_def rnd_M_def coprime_dvd_mult_left_iff)
  then have "0 < p" unfolding p_def by (metis mod_0_imp_dvd neq0_conv)
  moreover have "p < 2 ^ 32" by (simp add: p_def)
  moreover have "p = p div 2 ^ 31 * 2 ^ 31 + p mod 2 ^ 31" by simp
  moreover have "p mod 2 ^ 31 < 2 ^ 31" by simp
  ultimately show ?thesis
    unfolding seed_ok_def unat_random_Next Let_def p_def [symmetric]
    by (cases "p div 2 ^ 31 = 0") (auto simp: rnd_M_def)
qed

text \<open>
  C17: The seed stays between 1 and \<open>2^31 - 1\<close>: \<open>Next\<close> never gets stuck at zero, from every seed
  the constructor accepts.
\<close>

theorem random_seed_range:
  "seed_ok (Random_init s) \<and> (seed_ok seed \<longrightarrow> seed_ok (random_Next seed))"
  using Random_init_ok random_Next_ok by blast

theorem random_seed_range_witness: "seed_ok (random_Next 301)"
  using random_seed_range [of 0 301] by (simp add: seed_ok_def rnd_M_def)

text \<open>
  The product of \<open>Next\<close> is truncated to 32 bits, so the generator is not the multiplicative
  generator modulo \<open>2^31 - 1\<close> that its comment describes.
\<close>

lemma random_Next_truncates:
  "unat (random_Next 1000000) = 1774614465 \<and> 1000000 * 16807 mod 2147483647 = (1774614471 :: nat)"
  by (simp add: unat_random_Next Let_def)

end
