(* ===== verification/Skiplist.thy ===== *)
theory Skiplist
  imports RDB_Random
begin

text \<open>
  The skip list of \<^verbatim>\<open>src/db/skiplist.h\<close>.  Nodes live in an explicit store: a list of nodes whose
  positions are the addresses, with \<open>head_\<close> at address 0; a node holds its key (the head has
  none) and its array of next pointers.  The loops that walk the pointers are partial
  functions, \<open>None\<close> standing for a walk that does not end; under the invariant below every
  walk ends.  The abstract contents are the keys in ascending order.
\<close>

section \<open>State\<close>

record 'k sl_node =
  n_key :: "'k option"
  n_next :: "nat option list"

record 'k skiplist =
  sl_nodes :: "'k sl_node list"
  sl_max_height :: nat
  sl_rnd :: u32

definition kMaxHeight :: nat where "kMaxHeight = 12"

definition NewNode :: "'k option \<Rightarrow> nat \<Rightarrow> 'k sl_node" where
  "NewNode key height = \<lparr> n_key = key, n_next = replicate height None \<rparr>"

definition sl_head :: nat where "sl_head = 0"

definition node_Next :: "'k skiplist \<Rightarrow> nat \<Rightarrow> nat \<Rightarrow> nat option" where
  "node_Next s x n = n_next (sl_nodes s ! x) ! n"

definition node_key :: "'k skiplist \<Rightarrow> nat \<Rightarrow> 'k" where
  "node_key s x = the (n_key (sl_nodes s ! x))"

definition node_SetNext :: "nat \<Rightarrow> nat \<Rightarrow> nat option \<Rightarrow> 'k skiplist \<Rightarrow> 'k skiplist" where
  "node_SetNext x n y s =
     s\<lparr> sl_nodes := (sl_nodes s)[x := (sl_nodes s ! x)
          \<lparr> n_next := (n_next (sl_nodes s ! x))[n := y] \<rparr>] \<rparr>"

section \<open>Operations\<close>

definition SkipList_init :: "'k skiplist" where
  "SkipList_init =
     \<lparr> sl_nodes = [NewNode None kMaxHeight], sl_max_height = 1, sl_rnd = Random_init 0xdeadbeef \<rparr>"

function RandomHeight_loop :: "nat \<Rightarrow> u32 \<Rightarrow> nat \<times> u32" where
  "RandomHeight_loop height rnd =
     (if height < kMaxHeight then
        let (b, rnd) = OneIn 4 rnd in if b then RandomHeight_loop (height + 1) rnd else (height, rnd)
      else (height, rnd))"
  by pat_completeness auto
termination by (relation "measure (\<lambda>(h, r). kMaxHeight - h)") auto

declare RandomHeight_loop.simps [simp del]

definition RandomHeight :: "'k skiplist \<Rightarrow> nat \<times> 'k skiplist" where
  "RandomHeight s = (let (h, rnd) = RandomHeight_loop 1 (sl_rnd s) in (h, s\<lparr> sl_rnd := rnd \<rparr>))"

definition KeyIsAfterNode :: "('k \<Rightarrow> 'k \<Rightarrow> int) \<Rightarrow> 'k skiplist \<Rightarrow> 'k \<Rightarrow> nat option \<Rightarrow> bool" where
  "KeyIsAfterNode compare s key n = (case n of None \<Rightarrow> False | Some a \<Rightarrow> 0 < compare key (node_key s a))"

text \<open>\<open>prev\<close> is the caller's array; a null \<open>prev\<close> is not written to and its contents do not matter.\<close>

partial_function (option) FindGE_loop ::
  "('k \<Rightarrow> 'k \<Rightarrow> int) \<Rightarrow> 'k skiplist \<Rightarrow> 'k \<Rightarrow> nat \<Rightarrow> nat \<Rightarrow> nat list \<Rightarrow> (nat option \<times> nat list) option" where
  "FindGE_loop compare s key x level prev =
     (let next = node_Next s x level in
      if KeyIsAfterNode compare s key next then FindGE_loop compare s key (the next) level prev
      else let prev = prev[level := x]
           in if level = 0 then Some (next, prev) else FindGE_loop compare s key x (level - 1) prev)"

definition FindGreaterOrEqual ::
  "('k \<Rightarrow> 'k \<Rightarrow> int) \<Rightarrow> 'k skiplist \<Rightarrow> 'k \<Rightarrow> (nat option \<times> nat list) option" where
  "FindGreaterOrEqual compare s key =
     FindGE_loop compare s key sl_head (sl_max_height s - 1) (replicate kMaxHeight 0)"

partial_function (option) FindLT_loop ::
  "('k \<Rightarrow> 'k \<Rightarrow> int) \<Rightarrow> 'k skiplist \<Rightarrow> 'k \<Rightarrow> nat \<Rightarrow> nat \<Rightarrow> nat option" where
  "FindLT_loop compare s key x level =
     (let next = node_Next s x level in
      if next = None \<or> 0 \<le> compare (node_key s (the next)) key then
        if level = 0 then Some x else FindLT_loop compare s key x (level - 1)
      else FindLT_loop compare s key (the next) level)"

definition FindLessThan :: "('k \<Rightarrow> 'k \<Rightarrow> int) \<Rightarrow> 'k skiplist \<Rightarrow> 'k \<Rightarrow> nat option" where
  "FindLessThan compare s key = FindLT_loop compare s key sl_head (sl_max_height s - 1)"

partial_function (option) FindLast_loop :: "'k skiplist \<Rightarrow> nat \<Rightarrow> nat \<Rightarrow> nat option" where
  "FindLast_loop s x level =
     (let next = node_Next s x level in
      if next = None then if level = 0 then Some x else FindLast_loop s x (level - 1)
      else FindLast_loop s (the next) level)"

definition FindLast :: "'k skiplist \<Rightarrow> nat option" where
  "FindLast s = FindLast_loop s sl_head (sl_max_height s - 1)"

text \<open>The two pointer updates for each level of the new node.\<close>

fun link_levels :: "nat \<Rightarrow> nat list \<Rightarrow> nat \<Rightarrow> nat \<Rightarrow> 'k skiplist \<Rightarrow> 'k skiplist" where
  "link_levels x prev i 0 s = s"
| "link_levels x prev i (Suc n) s =
     (let s = node_SetNext x i (node_Next s (prev ! i) i) s;
          s = node_SetNext (prev ! i) i (Some x) s
      in link_levels x prev (Suc i) n s)"

definition Insert :: "('k \<Rightarrow> 'k \<Rightarrow> int) \<Rightarrow> 'k \<Rightarrow> 'k skiplist \<Rightarrow> 'k skiplist option" where
  "Insert compare key s =
     (case FindGreaterOrEqual compare s key of
        None \<Rightarrow> None
      | Some (_, prev) \<Rightarrow>
          let (height, s) = RandomHeight s;
              (prev, s) =
                (if sl_max_height s < height then
                   (map (\<lambda>i. if sl_max_height s \<le> i \<and> i < height then sl_head else prev ! i) [0..<kMaxHeight],
                    s\<lparr> sl_max_height := height \<rparr>)
                 else (prev, s));
              x = length (sl_nodes s);
              s = s\<lparr> sl_nodes := sl_nodes s @ [NewNode (Some key) height] \<rparr>
          in Some (link_levels x prev 0 height s))"

definition Contains :: "('k \<Rightarrow> 'k \<Rightarrow> int) \<Rightarrow> 'k \<Rightarrow> 'k skiplist \<Rightarrow> bool option" where
  "Contains compare key s =
     (case FindGreaterOrEqual compare s key of
        None \<Rightarrow> None
      | Some (x, _) \<Rightarrow> Some (case x of None \<Rightarrow> False | Some a \<Rightarrow> compare key (node_key s a) = 0))"

section \<open>Iterator\<close>

text \<open>An iterator is the node it stands on; the null node is not valid.\<close>

definition sl_Valid :: "nat option \<Rightarrow> bool" where "sl_Valid it = (it \<noteq> None)"

definition sl_key :: "'k skiplist \<Rightarrow> nat option \<Rightarrow> 'k" where "sl_key s it = node_key s (the it)"

definition sl_Next :: "'k skiplist \<Rightarrow> nat option \<Rightarrow> nat option" where
  "sl_Next s it = node_Next s (the it) 0"

definition sl_Prev :: "('k \<Rightarrow> 'k \<Rightarrow> int) \<Rightarrow> 'k skiplist \<Rightarrow> nat option \<Rightarrow> nat option option" where
  "sl_Prev compare s it =
     map_option (\<lambda>x. if x = sl_head then None else Some x) (FindLessThan compare s (node_key s (the it)))"

definition sl_Seek :: "('k \<Rightarrow> 'k \<Rightarrow> int) \<Rightarrow> 'k skiplist \<Rightarrow> 'k \<Rightarrow> nat option option" where
  "sl_Seek compare s target = map_option fst (FindGreaterOrEqual compare s target)"

definition sl_SeekToFirst :: "'k skiplist \<Rightarrow> nat option" where
  "sl_SeekToFirst s = node_Next s sl_head 0"

definition sl_SeekToLast :: "'k skiplist \<Rightarrow> nat option option" where
  "sl_SeekToLast s = map_option (\<lambda>x. if x = sl_head then None else Some x) (FindLast s)"

section \<open>Invariant\<close>

definition hgt :: "'k skiplist \<Rightarrow> nat \<Rightarrow> nat" where
  "hgt s a = length (n_next (sl_nodes s ! a))"

definition lvl :: "'k skiplist \<Rightarrow> nat list \<Rightarrow> nat \<Rightarrow> nat list" where
  "lvl s L i = filter (\<lambda>a. i < hgt s a) L"

fun linked :: "'k skiplist \<Rightarrow> nat \<Rightarrow> nat list \<Rightarrow> bool" where
  "linked s i [] = True"
| "linked s i [x] = (node_Next s x i = None)"
| "linked s i (x # y # zs) = (node_Next s x i = Some y \<and> linked s i (y # zs))"

definition first_of :: "'a list \<Rightarrow> 'a option" where
  "first_of xs = (case xs of [] \<Rightarrow> None | x # _ \<Rightarrow> Some x)"

lemma first_of_simps [simp]: "first_of [] = None" "first_of (x # xs) = Some x"
  by (simp_all add: first_of_def)

lemma linked_next: "linked s i (ys @ x # zs) \<Longrightarrow> node_Next s x i = first_of zs"
proof (induction ys)
  case Nil
  then show ?case by (cases zs) auto
next
  case (Cons y ys)
  then show ?case by (cases "ys @ x # zs") (auto simp: append_eq_Cons_conv)
qed

lemma linked_append: "linked s i (ys @ zs) \<Longrightarrow> linked s i zs"
proof (induction ys)
  case (Cons y ys)
  then show ?case by (cases "ys @ zs") auto
qed simp

text \<open>Inserting \<open>x\<close> behind \<open>p\<close> in a linked list.\<close>

lemma linked_cong: "(\<And>a. a \<in> set xs \<Longrightarrow> node_Next s' a i = node_Next s a i) \<Longrightarrow> linked s i xs \<Longrightarrow> linked s' i xs"
  by (induction s i xs rule: linked.induct) auto

lemma linked_insert:
  assumes "linked s i (A @ p # D)" "distinct (A @ p # D)" "x \<notin> set (A @ p # D)"
    and "node_Next s' p i = Some x" "node_Next s' x i = node_Next s p i"
    and "\<And>a. a \<in> set (A @ D) \<Longrightarrow> node_Next s' a i = node_Next s a i"
  shows "linked s' i (A @ p # x # D)"
  using assms
proof (induction A)
  case Nil
  have "linked s' i (x # D)"
  proof (cases D)
    case Nil
    then show ?thesis using Nil.prems by simp
  next
    case (Cons d D')
    then have "linked s i D" "node_Next s p i = Some d" using Nil.prems(1) by auto
    then have "linked s' i D" using Nil.prems(6) by (intro linked_cong [of D s' i s]) auto
    then show ?thesis using Nil.prems(5) \<open>node_Next s p i = Some d\<close> Cons by simp
  qed
  then show ?case using Nil.prems(4) by simp
next
  case (Cons a A)
  have "linked s i (A @ p # D)" using Cons.prems(1) linked_append [of s i "[a]"] by simp
  then have "linked s' i (A @ p # x # D)" using Cons.prems by (intro Cons.IH) auto
  moreover have "node_Next s' a i = first_of (A @ p # x # D)"
    using Cons.prems(1,6) linked_next [of s i "[]" a "A @ p # D"] by (cases A) auto
  ultimately show ?case by (cases A) auto
qed

locale sl_order =
  fixes compare :: "'k \<Rightarrow> 'k \<Rightarrow> int" and key_ok :: "'k \<Rightarrow> bool"
  assumes compare_sym: "key_ok a \<Longrightarrow> key_ok b \<Longrightarrow> compare a b < 0 \<longleftrightarrow> 0 < compare b a"
    and compare_trans: "key_ok a \<Longrightarrow> key_ok b \<Longrightarrow> key_ok c \<Longrightarrow>
      compare a b < 0 \<Longrightarrow> compare b c < 0 \<Longrightarrow> compare a c < 0"

definition sl_inv :: "('k \<Rightarrow> 'k \<Rightarrow> int) \<Rightarrow> ('k \<Rightarrow> bool) \<Rightarrow> 'k skiplist \<Rightarrow> nat list \<Rightarrow> bool" where
  "sl_inv compare key_ok s L \<longleftrightarrow>
     distinct L \<and> 0 < length (sl_nodes s) \<and> set L = {1..<length (sl_nodes s)} \<and> hgt s 0 = kMaxHeight
     \<and> 1 \<le> sl_max_height s \<and> sl_max_height s \<le> kMaxHeight
     \<and> (\<forall>a\<in>set L. 1 \<le> hgt s a \<and> hgt s a \<le> sl_max_height s \<and> n_key (sl_nodes s ! a) \<noteq> None
           \<and> key_ok (node_key s a))
     \<and> sorted_wrt (\<lambda>a b. compare (node_key s a) (node_key s b) < 0) L
     \<and> (\<forall>i<kMaxHeight. linked s i (0 # lvl s L i))"

text \<open>The list represents the keys \<open>ks\<close>, in ascending order.\<close>

definition sl_rep :: "('k \<Rightarrow> 'k \<Rightarrow> int) \<Rightarrow> ('k \<Rightarrow> bool) \<Rightarrow> 'k skiplist \<Rightarrow> 'k list \<Rightarrow> bool" where
  "sl_rep compare key_ok s ks \<longleftrightarrow> (\<exists>L. sl_inv compare key_ok s L \<and> ks = map (node_key s) L)"

lemma sl_rep_init: "sl_rep compare key_ok SkipList_init []"
proof -
  have "sl_inv compare key_ok SkipList_init []"
    by (auto simp: sl_inv_def SkipList_init_def hgt_def NewNode_def lvl_def node_Next_def kMaxHeight_def)
  then show ?thesis by (auto simp: sl_rep_def)
qed

lemma takeWhile_filter_closed:
  assumes "sorted_wrt R L" "\<And>a b. a \<in> set L \<Longrightarrow> b \<in> set L \<Longrightarrow> R a b \<Longrightarrow> P b \<Longrightarrow> P a"
  shows "takeWhile P (filter Q L) = filter Q (takeWhile P L)"
    "dropWhile P (filter Q L) = filter Q (dropWhile P L)"
proof -
  have "takeWhile P (filter Q L) = filter Q (takeWhile P L) \<and> dropWhile P (filter Q L) = filter Q (dropWhile P L)"
    using assms
  proof (induction L)
    case (Cons a L)
    show ?case
    proof (cases "P a")
      case False
      then have "\<forall>b\<in>set (filter Q L). \<not> P b" using Cons.prems by auto
      then have "takeWhile P (filter Q L) = []" "dropWhile P (filter Q L) = filter Q L"
        by (cases "filter Q L"; simp)+
      then show ?thesis using False by auto
    qed (use Cons in auto)
  qed simp
  then show "takeWhile P (filter Q L) = filter Q (takeWhile P L)"
    "dropWhile P (filter Q L) = filter Q (dropWhile P L)" by blast+
qed

context sl_order
begin

definition below :: "'k skiplist \<Rightarrow> 'k \<Rightarrow> nat \<Rightarrow> bool" where
  "below s key a \<longleftrightarrow> 0 < compare key (node_key s a)"

definition pred_at :: "'k skiplist \<Rightarrow> nat list \<Rightarrow> 'k \<Rightarrow> nat \<Rightarrow> nat" where
  "pred_at s L key i = last (0 # takeWhile (below s key) (lvl s L i))"

lemma below_closed:
  assumes "sl_inv compare key_ok s L" "key_ok key" "a \<in> set L" "b \<in> set L"
    "compare (node_key s a) (node_key s b) < 0" "below s key b"
  shows "below s key a"
proof -
  have "key_ok (node_key s a)" "key_ok (node_key s b)" using assms by (auto simp: sl_inv_def)
  moreover have "compare (node_key s b) key < 0" using assms calculation by (simp add: below_def compare_sym)
  ultimately have "compare (node_key s a) key < 0" using assms compare_trans by blast
  then show ?thesis using \<open>key_ok (node_key s a)\<close> assms(2) by (simp add: below_def compare_sym)
qed

lemma lvl_sorted:
  "sl_inv compare key_ok s L \<Longrightarrow> sorted_wrt (\<lambda>a b. compare (node_key s a) (node_key s b) < 0) (lvl s L i)"
  by (simp add: sl_inv_def lvl_def sorted_wrt_filter)

text \<open>One level of the walk: it ends at the last node below the key.\<close>

lemma FindGE_level:
  assumes "linked s i (ys @ x # zs)"
  shows "FindGE_loop compare s key x i prev =
    (let x' = last (x # takeWhile (below s key) zs); prev = prev[i := x']
     in if i = 0 then Some (node_Next s x' 0, prev) else FindGE_loop compare s key x' (i - 1) prev)"
  using assms
proof (induction zs arbitrary: x ys)
  case Nil
  then show ?case
    using linked_next [of s i ys x "[]"]
    by (subst FindGE_loop.simps) (auto simp: KeyIsAfterNode_def Let_def)
next
  case (Cons z zs)
  have n: "node_Next s x i = Some z" using linked_next [OF Cons.prems] by simp
  show ?case
  proof (cases "below s key z")
    case True
    then have "FindGE_loop compare s key x i prev = FindGE_loop compare s key z i prev"
      using n by (subst FindGE_loop.simps) (simp add: KeyIsAfterNode_def below_def)
    moreover have "linked s i ((ys @ [x]) @ z # zs)" using Cons.prems by simp
    ultimately show ?thesis using Cons.IH [of "ys @ [x]" z] True by simp
  next
    case False
    then show ?thesis
      using n by (subst FindGE_loop.simps) (auto simp: KeyIsAfterNode_def below_def Let_def)
  qed
qed

lemma last_takeWhile_from:
  assumes "0 # xs = ys @ x # zs" "\<And>a. a \<in> set (tl (ys @ [x])) \<Longrightarrow> P a"
  shows "last (x # takeWhile P zs) = last (0 # takeWhile P xs)"
proof (cases ys)
  case Nil
  then show ?thesis using assms(1) by simp
next
  case (Cons y ys')
  then have xs: "xs = ys' @ x # zs" and "\<forall>a\<in>set ys'. P a" "P x" using assms by auto
  then have "takeWhile P xs = ys' @ x # takeWhile P zs" by simp
  then show ?thesis by simp
qed

lemma below_prefix:
  assumes inv: "sl_inv compare key_ok s L" and "key_ok key"
    and x: "x = 0 \<or> x \<in> set (lvl s L i) \<and> below s key x" and split: "0 # lvl s L i = ys @ x # zs"
  shows "last (x # takeWhile (below s key) zs) = pred_at s L key i"
proof -
  have "below s key a" if a: "a \<in> set (tl (ys @ [x]))" for a
  proof (cases "a = x")
    case True
    have "0 \<notin> set (lvl s L i)" using inv by (auto simp: sl_inv_def lvl_def)
    then have "x \<noteq> 0"
      using True a split by (cases ys) auto
    then show ?thesis using x True by simp
  next
    case False
    then obtain y ys' where ys: "ys = y # ys'" "a \<in> set ys'" using a by (cases ys) auto
    then have l: "lvl s L i = ys' @ x # zs" using split by simp
    moreover have "sorted_wrt (\<lambda>a b. compare (node_key s a) (node_key s b) < 0) (ys' @ x # zs)"
      using lvl_sorted [OF inv, of i] l by simp
    ultimately have "compare (node_key s a) (node_key s x) < 0" using ys by (auto simp: sorted_wrt_append)
    moreover have "set (ys' @ x # zs) \<subseteq> set L" unfolding l [symmetric] lvl_def by auto
    moreover from this have "a \<in> set L" "x \<in> set L" using ys by auto
    moreover have "x \<noteq> 0" using inv \<open>x \<in> set L\<close> by (auto simp: sl_inv_def)
    ultimately show ?thesis using below_closed [OF inv assms(2)] x by blast
  qed
  then show ?thesis
    unfolding pred_at_def by (rule last_takeWhile_from [OF split])
qed

lemma pred_walk:
  assumes inv: "sl_inv compare key_ok s L" and "key_ok key" "i < kMaxHeight"
    and x: "x = 0 \<or> x \<in> set (lvl s L i) \<and> below s key x"
  shows "FindGE_loop compare s key x i prev =
    (let x' = pred_at s L key i; prev = prev[i := x']
     in if i = 0 then Some (node_Next s x' 0, prev) else FindGE_loop compare s key x' (i - 1) prev)"
proof -
  have "x \<in> set (0 # lvl s L i)" using x by auto
  then obtain ys zs where split: "0 # lvl s L i = ys @ x # zs" by (metis split_list)
  have "linked s i (ys @ x # zs)" using inv assms(3) by (auto simp: sl_inv_def split [symmetric])
  from FindGE_level [OF this, of key prev] show ?thesis
    unfolding below_prefix [OF inv assms(2) x split] .
qed

lemma pred_at_in:
  "pred_at s L key i = 0 \<or> pred_at s L key i \<in> set (lvl s L i) \<and> below s key (pred_at s L key i)"
proof (cases "takeWhile (below s key) (lvl s L i)")
  case Nil
  then show ?thesis by (simp add: pred_at_def)
next
  case (Cons a as)
  then have "pred_at s L key i \<in> set (takeWhile (below s key) (lvl s L i))"
    unfolding pred_at_def by simp
  then show ?thesis by (auto dest: set_takeWhileD)
qed

lemma FindGE_loop_eq:
  assumes inv: "sl_inv compare key_ok s L" and key: "key_ok key" and "i < kMaxHeight"
    "x = 0 \<or> x \<in> set (lvl s L i) \<and> below s key x" "i < length prev"
  shows "\<exists>prev'. FindGE_loop compare s key x i prev = Some (node_Next s (pred_at s L key 0) 0, prev')
    \<and> length prev' = length prev \<and> (\<forall>j\<le>i. prev' ! j = pred_at s L key j)
    \<and> (\<forall>j>i. j < length prev \<longrightarrow> prev' ! j = prev ! j)"
  using assms(3-5)
proof (induction i arbitrary: x prev)
  case 0
  then show ?case using pred_walk [OF inv key 0(1,2), of prev] by (auto simp: Let_def)
next
  case (Suc i)
  let ?p = "pred_at s L key (Suc i)"
  have "?p = 0 \<or> ?p \<in> set (lvl s L i) \<and> below s key ?p"
    using pred_at_in [of s L key "Suc i"] by (auto simp: lvl_def)
  from Suc.IH [OF _ this, of "prev[Suc i := ?p]"] Suc.prems pred_walk [OF inv key Suc.prems(1,2), of prev]
  obtain prev' where p: "FindGE_loop compare s key x (Suc i) prev = Some (node_Next s (pred_at s L key 0) 0, prev')"
    "length prev' = length prev" "\<forall>j\<le>i. prev' ! j = pred_at s L key j"
    "\<forall>j>i. j < length prev \<longrightarrow> prev' ! j = prev[Suc i := ?p] ! j"
    by (auto simp: Let_def)
  then show ?case using Suc.prems(3) by (auto simp: le_Suc_eq)
qed

lemma lvl_0: "sl_inv compare key_ok s L \<Longrightarrow> lvl s L 0 = L"
  by (auto simp: sl_inv_def lvl_def Suc_le_eq filter_id_conv)

lemma Next_pred:
  assumes inv: "sl_inv compare key_ok s L" and "i < kMaxHeight"
  shows "node_Next s (pred_at s L key i) i = first_of (dropWhile (below s key) (lvl s L i))"
proof -
  obtain ys where "0 # takeWhile (below s key) (lvl s L i) = ys @ [pred_at s L key i]"
    unfolding pred_at_def by (metis append_butlast_last_id list.distinct(1))
  then have "0 # lvl s L i = ys @ pred_at s L key i # dropWhile (below s key) (lvl s L i)"
    by (metis append.assoc append_Cons append_Nil takeWhile_dropWhile_id)
  then show ?thesis using inv assms(2) linked_next by (metis sl_inv_def)
qed

lemma FindGE_eq:
  assumes inv: "sl_inv compare key_ok s L" and key: "key_ok key"
  shows "\<exists>prev. FindGreaterOrEqual compare s key = Some (first_of (dropWhile (below s key) L), prev)
    \<and> length prev = kMaxHeight \<and> (\<forall>j < sl_max_height s. prev ! j = pred_at s L key j)"
proof -
  have "sl_max_height s - 1 < kMaxHeight" using inv by (auto simp: sl_inv_def)
  from FindGE_loop_eq [OF inv key this, of 0 "replicate kMaxHeight 0"] this
  show ?thesis
    using Next_pred [OF inv, of 0 key] lvl_0 [OF inv] inv
    by (auto simp: FindGreaterOrEqual_def sl_head_def sl_inv_def kMaxHeight_def)
qed

end

text \<open>What the pointer updates do to every other field.\<close>

lemma SetNext_nth:
  "sl_nodes (node_SetNext x n y s) ! a =
     (if a = x \<and> x < length (sl_nodes s)
      then (sl_nodes s ! x)\<lparr> n_next := (n_next (sl_nodes s ! x))[n := y] \<rparr> else sl_nodes s ! a)"
  by (cases "x < length (sl_nodes s)"; cases "a = x") (simp_all add: node_SetNext_def list_update_beyond)

lemma SetNext_fields [simp]:
  "length (sl_nodes (node_SetNext x n y s)) = length (sl_nodes s)"
  "n_key (sl_nodes (node_SetNext x n y s) ! a) = n_key (sl_nodes s ! a)"
  "hgt (node_SetNext x n y s) a = hgt s a"
  "node_key (node_SetNext x n y s) a = node_key s a"
  "sl_max_height (node_SetNext x n y s) = sl_max_height s"
  by (simp_all add: SetNext_nth hgt_def node_key_def) (simp_all add: node_SetNext_def)

lemma Next_SetNext:
  assumes "x < length (sl_nodes s)" "n < hgt s x"
  shows "node_Next (node_SetNext x n y s) a m = (if a = x \<and> m = n then y else node_Next s a m)"
  using assms by (auto simp: node_Next_def SetNext_nth hgt_def)

lemma link_levels_fields [simp]:
  "length (sl_nodes (link_levels x prev i n s)) = length (sl_nodes s)"
  "n_key (sl_nodes (link_levels x prev i n s) ! a) = n_key (sl_nodes s ! a)"
  "hgt (link_levels x prev i n s) a = hgt s a"
  "node_key (link_levels x prev i n s) a = node_key s a"
  "sl_max_height (link_levels x prev i n s) = sl_max_height s"
  by (induction x prev i n s rule: link_levels.induct) (simp_all add: Let_def)

lemma link_levels_Next:
  assumes "x < length (sl_nodes s)" "i + n \<le> hgt s x"
    and "\<And>j. i \<le> j \<Longrightarrow> j < i + n \<Longrightarrow> prev ! j \<noteq> x \<and> prev ! j < length (sl_nodes s) \<and> j < hgt s (prev ! j)"
  shows "node_Next (link_levels x prev i n s) a m =
    (if i \<le> m \<and> m < i + n then
       if a = x then node_Next s (prev ! m) m else if a = prev ! m then Some x else node_Next s a m
     else node_Next s a m)"
  using assms
proof (induction x prev i n s arbitrary: m rule: link_levels.induct)
  case (2 x prev i n s)
  define s1 where "s1 = node_SetNext x i (node_Next s (prev ! i) i) s"
  define s2 where "s2 = node_SetNext (prev ! i) i (Some x) s1"
  have p: "prev ! i \<noteq> x" "prev ! i < length (sl_nodes s)" "i < hgt s (prev ! i)" using "2.prems"(3) [of i] by auto
  have s1: "node_Next s1 b j = (if b = x \<and> j = i then node_Next s (prev ! i) i else node_Next s b j)" for b j
    unfolding s1_def using "2.prems"(1,2) by (subst Next_SetNext) auto
  have s2: "node_Next s2 b j = (if b = prev ! i \<and> j = i then Some x else node_Next s1 b j)" for b j
    unfolding s2_def using p by (subst Next_SetNext) (auto simp: s1_def)
  have eq: "link_levels x prev i (Suc n) s = link_levels x prev (Suc i) n s2"
    by (simp add: s1_def s2_def Let_def)
  have "node_Next (link_levels x prev (Suc i) n s2) a m =
    (if Suc i \<le> m \<and> m < Suc i + n then
       if a = x then node_Next s2 (prev ! m) m else if a = prev ! m then Some x else node_Next s2 a m
     else node_Next s2 a m)"
    unfolding s2_def s1_def
    by (rule "2.IH" [OF refl refl]) (use "2.prems" in \<open>auto simp: s1_def s2_def\<close>)
  then show ?case
    unfolding eq using p by (cases "m = i") (auto simp: s1 s2)
qed auto

lemma RandomHeight_loop_bounds:
  "1 \<le> h \<Longrightarrow> h \<le> kMaxHeight \<Longrightarrow> 1 \<le> fst (RandomHeight_loop h rnd) \<and> fst (RandomHeight_loop h rnd) \<le> kMaxHeight"
proof (induction h rnd rule: RandomHeight_loop.induct)
  case (1 h rnd)
  then show ?case
    by (auto simp: RandomHeight_loop.simps [of h rnd] Let_def split: prod.splits)
qed

lemma RandomHeight_bounds:
  assumes "RandomHeight s = (h, s')"
  shows "1 \<le> h" "h \<le> kMaxHeight" "sl_nodes s' = sl_nodes s" "sl_max_height s' = sl_max_height s"
  using assms RandomHeight_loop_bounds [of 1 "sl_rnd s"]
  by (auto simp: RandomHeight_def kMaxHeight_def split: prod.splits)

text \<open>Insertion keeps the invariant and puts the key in its place.\<close>

context sl_order
begin

lemma pred_at_bounds:
  assumes inv: "sl_inv compare key_ok s L" and "i < kMaxHeight"
  shows "pred_at s L key i < length (sl_nodes s)" "i < hgt s (pred_at s L key i)"
  using pred_at_in [of s L key i] inv assms(2) by (auto simp: sl_inv_def lvl_def)

lemma linked_insert_at:
  assumes inv: "sl_inv compare key_ok s L" and i: "i < kMaxHeight"
    and x: "x \<notin> set (0 # lvl s L i)"
    and n: "node_Next s' (pred_at s L key i) i = Some x" "node_Next s' x i = node_Next s (pred_at s L key i) i"
      "\<And>a. a \<in> set (0 # lvl s L i) \<Longrightarrow> a \<noteq> pred_at s L key i \<Longrightarrow> node_Next s' a i = node_Next s a i"
  shows "linked s' i (0 # takeWhile (below s key) (lvl s L i) @ x # dropWhile (below s key) (lvl s L i))"
proof -
  let ?p = "pred_at s L key i" and ?D = "dropWhile (below s key) (lvl s L i)"
  obtain A where A: "0 # takeWhile (below s key) (lvl s L i) = A @ [?p]"
    unfolding pred_at_def by (metis append_butlast_last_id list.distinct(1))
  then have l: "0 # lvl s L i = A @ ?p # ?D"
    by (metis append.assoc append_Cons append_Nil takeWhile_dropWhile_id)
  have d: "distinct (A @ ?p # ?D)" using inv unfolding l [symmetric] by (auto simp: sl_inv_def lvl_def)
  have "linked s i (A @ ?p # ?D)" using inv i unfolding l [symmetric] by (simp add: sl_inv_def)
  then have "linked s' i (A @ ?p # x # ?D)"
    by (rule linked_insert) (use d x n in \<open>auto simp: l simp del: append.assoc\<close>)
  then show ?thesis using A by (metis append.assoc append_Cons append_Nil)
qed

lemma split_below:
  assumes inv: "sl_inv compare key_ok s L" and key: "key_ok key"
  shows "a \<in> set (takeWhile (below s key) L) \<Longrightarrow> a \<in> set L \<and> below s key a"
    and "a \<in> set (dropWhile (below s key) L) \<Longrightarrow> a \<in> set L \<and> \<not> below s key a"
    and "takeWhile (below s key) (lvl s L i) = filter (\<lambda>a. i < hgt s a) (takeWhile (below s key) L)"
    and "dropWhile (below s key) (lvl s L i) = filter (\<lambda>a. i < hgt s a) (dropWhile (below s key) L)"
proof -
  have s: "sorted_wrt (\<lambda>a b. compare (node_key s a) (node_key s b) < 0) L" using inv by (simp add: sl_inv_def)
  note cl = below_closed [OF inv key]
  show "a \<in> set (takeWhile (below s key) L) \<Longrightarrow> a \<in> set L \<and> below s key a" by (auto dest: set_takeWhileD)
  show "takeWhile (below s key) (lvl s L i) = filter (\<lambda>a. i < hgt s a) (takeWhile (below s key) L)"
    "dropWhile (below s key) (lvl s L i) = filter (\<lambda>a. i < hgt s a) (dropWhile (below s key) L)"
    unfolding lvl_def by (rule takeWhile_filter_closed [OF s]; use cl in blast)+
  have "filter (below s key) (dropWhile (below s key) L) = dropWhile (below s key) (filter (below s key) L)"
    by (rule takeWhile_filter_closed(2) [OF s, symmetric]) (use cl in blast)
  also have "\<dots> = []" by (simp add: dropWhile_eq_Nil_conv)
  finally show "a \<in> set (dropWhile (below s key) L) \<Longrightarrow> a \<in> set L \<and> \<not> below s key a"
    by (auto simp: filter_empty_conv dest: set_dropWhileD)
qed

lemma sl_inv_insert:
  assumes inv: "sl_inv compare key_ok s L" and key: "key_ok key"
    and fresh: "\<And>a. a \<in> set L \<Longrightarrow> compare key (node_key s a) \<noteq> 0"
    and h: "1 \<le> h" "h \<le> kMaxHeight"
    and fields: "\<And>a. a \<le> length (sl_nodes s) \<Longrightarrow> hgt s' a = (if a = length (sl_nodes s) then h else hgt s a)"
      "\<And>a. a \<le> length (sl_nodes s) \<Longrightarrow> node_key s' a = (if a = length (sl_nodes s) then key else node_key s a)"
      "\<And>a. a \<le> length (sl_nodes s) \<Longrightarrow>
         n_key (sl_nodes s' ! a) = (if a = length (sl_nodes s) then Some key else n_key (sl_nodes s ! a))"
    and mh: "sl_max_height s' = max (sl_max_height s) h" and len: "length (sl_nodes s') = Suc (length (sl_nodes s))"
    and nx: "\<And>a m. node_Next s' a m = (if m < h then if a = length (sl_nodes s) then node_Next s2 (pred_at s L key m) m
      else if a = pred_at s L key m then Some (length (sl_nodes s)) else node_Next s2 a m else node_Next s2 a m)"
    and old: "\<And>a i. a < length (sl_nodes s) \<Longrightarrow> node_Next s2 a i = node_Next s a i"
  shows "sl_inv compare key_ok s' (takeWhile (below s key) L @ length (sl_nodes s) # dropWhile (below s key) L)"
proof -
  let ?x = "length (sl_nodes s)" and ?T = "takeWhile (below s key) L" and ?D = "dropWhile (below s key) L"
  note sp = split_below [OF inv key]
  have L: "a \<in> set L \<Longrightarrow> 0 < a \<and> a < ?x" for a using inv by (auto simp: sl_inv_def)
  have TD: "set ?T \<union> set ?D = set L" by (metis set_append takeWhile_dropWhile_id)
  have dist: "distinct (?T @ ?x # ?D)"
  proof -
    have "distinct (?T @ ?D)" using inv by (simp add: sl_inv_def)
    then show ?thesis using L sp(1,2) by (auto dest: L)
  qed
  have x0: "?x \<noteq> 0" using inv by (auto simp: sl_inv_def)
  have ke: "node_key s' a = node_key s a" if "a \<in> set L" for a
    using L [OF that] fields(2) [of a] by simp
  have srt: "sorted_wrt (\<lambda>a b. compare (node_key s' a) (node_key s' b) < 0) (?T @ ?x # ?D)"
  proof -
    have "sorted_wrt (\<lambda>a b. compare (node_key s a) (node_key s b) < 0) (?T @ ?D)" using inv by (simp add: sl_inv_def)
    then have "sorted_wrt (\<lambda>a b. compare (node_key s' a) (node_key s' b) < 0) (?T @ ?D)"
      by (rule sorted_wrt_mono_rel [rotated]) (simp add: ke TD [symmetric])
    moreover have "compare (node_key s' a) key < 0" if "a \<in> set ?T" for a
    proof -
      have a: "a \<in> set L" "0 < compare key (node_key s a)" using sp(1) [OF that] by (auto simp: below_def)
      then have "key_ok (node_key s a)" using inv by (simp add: sl_inv_def)
      then show ?thesis using a compare_sym key ke by simp
    qed
    moreover have "compare key (node_key s' a) < 0" if "a \<in> set ?D" for a
    proof -
      have a: "a \<in> set L" "\<not> 0 < compare key (node_key s a)" using sp(2) [OF that] by (auto simp: below_def)
      then show ?thesis using fresh [OF a(1)] ke [OF a(1)] by simp
    qed
    ultimately show ?thesis using fields(2) [of ?x] unfolding sorted_wrt_append by simp
  qed
  have lvl': "lvl s' (?T @ ?x # ?D) i = takeWhile (below s key) (lvl s L i) @ (if i < h then [?x] else [])
      @ dropWhile (below s key) (lvl s L i)" for i
  proof -
    have "filter (\<lambda>a. i < hgt s' a) xs = filter (\<lambda>a. i < hgt s a) xs" if "set xs \<subseteq> set L" for xs
    proof (intro filter_cong refl)
      fix a assume "a \<in> set xs"
      with that have "a < ?x" using L by auto
      then show "(i < hgt s' a) = (i < hgt s a)" using fields(1) [of a] by simp
    qed
    moreover have "set ?T \<subseteq> set L" "set ?D \<subseteq> set L" using TD by blast+
    ultimately have "filter (\<lambda>a. i < hgt s' a) ?T = filter (\<lambda>a. i < hgt s a) ?T"
      "filter (\<lambda>a. i < hgt s' a) ?D = filter (\<lambda>a. i < hgt s a) ?D" by blast+
    then show ?thesis unfolding lvl_def [of s'] sp(3,4) using fields(1) [of ?x] by simp
  qed
  have lnk: "linked s' i (0 # lvl s' (?T @ ?x # ?D) i)" if i: "i < kMaxHeight" for i
  proof (cases "i < h")
    case True
    have lx: "set (lvl s L i) \<subseteq> set L" by (auto simp: lvl_def)
    have p: "pred_at s L key i < ?x" using pred_at_bounds(1) [OF inv i] .
    show ?thesis
      unfolding lvl' using True
      by (simp, intro linked_insert_at [OF inv i]) (use L lx x0 nx old p in auto)
  next
    case False
    have "linked s i (0 # lvl s L i)" using inv i by (simp add: sl_inv_def)
    then have "linked s' i (0 # lvl s L i)"
      by (rule linked_cong [rotated]) (use False nx old L x0 in \<open>auto simp: lvl_def\<close>)
    then show ?thesis unfolding lvl' using False by simp
  qed
  show ?thesis
    unfolding sl_inv_def
  proof (intro conjI)
    have "set (?T @ ?x # ?D) = insert ?x (set L)" using TD by auto
    also have "\<dots> = {1..<length (sl_nodes s')}" using len inv x0 by (auto simp: sl_inv_def Suc_le_eq)
    finally show "set (?T @ ?x # ?D) = {1..<length (sl_nodes s')}" .
    show "\<forall>a\<in>set (?T @ ?x # ?D). 1 \<le> hgt s' a \<and> hgt s' a \<le> sl_max_height s'
        \<and> n_key (sl_nodes s' ! a) \<noteq> None \<and> key_ok (node_key s' a)"
    proof
      fix a assume "a \<in> set (?T @ ?x # ?D)"
      then have "a \<in> set L \<or> a = ?x" using TD by auto
      then show "1 \<le> hgt s' a \<and> hgt s' a \<le> sl_max_height s' \<and> n_key (sl_nodes s' ! a) \<noteq> None \<and> key_ok (node_key s' a)"
        using L [of a] inv h key fields [of a] mh by (auto simp: sl_inv_def le_max_iff_disj)
    qed
    show "hgt s' 0 = kMaxHeight" using fields(1) [of 0] x0 inv by (simp add: sl_inv_def)
    show "1 \<le> sl_max_height s'" "sl_max_height s' \<le> kMaxHeight" using mh h inv by (auto simp: sl_inv_def)
  qed (use dist srt lnk len in simp_all)
qed

lemma Insert_inv:
  assumes inv: "sl_inv compare key_ok s L" and key: "key_ok key"
    and fresh: "\<And>a. a \<in> set L \<Longrightarrow> compare key (node_key s a) \<noteq> 0"
  shows "\<exists>s'. Insert compare key s = Some s' \<and> (\<forall>a\<in>set L. node_key s' a = node_key s a)
    \<and> node_key s' (length (sl_nodes s)) = key
    \<and> sl_inv compare key_ok s' (takeWhile (below s key) L @ length (sl_nodes s) # dropWhile (below s key) L)"
proof -
  let ?x = "length (sl_nodes s)"
  obtain r prev where prev: "FindGreaterOrEqual compare s key = Some (r, prev)" "length prev = kMaxHeight"
    "\<forall>j < sl_max_height s. prev ! j = pred_at s L key j" using FindGE_eq [OF inv key] by blast
  obtain h s1 where h: "RandomHeight s = (h, s1)" by fastforce
  note hb = RandomHeight_bounds [OF h]
  define prev' where "prev' = (if sl_max_height s < h then
      map (\<lambda>i. if sl_max_height s \<le> i \<and> i < h then sl_head else prev ! i) [0..<kMaxHeight] else prev)"
  define s2 where "s2 = (if sl_max_height s < h then s1\<lparr> sl_max_height := h \<rparr> else s1)
      \<lparr> sl_nodes := sl_nodes s1 @ [NewNode (Some key) h] \<rparr>"
  define s' where "s' = link_levels ?x prev' 0 h s2"
  have ins: "Insert compare key s = Some s'"
    by (simp add: Insert_def prev(1) h hb s'_def s2_def prev'_def Let_def)
  have L: "a \<in> set L \<Longrightarrow> 0 < a \<and> a < ?x" for a using inv by (auto simp: sl_inv_def)
  have pr: "prev' ! j = pred_at s L key j" if "j < h" for j
  proof (cases "j < sl_max_height s")
    case False
    moreover have "hgt s a \<le> sl_max_height s" if "a \<in> set L" for a using inv that by (simp add: sl_inv_def)
    ultimately have "lvl s L j = []" by (fastforce simp: lvl_def filter_empty_conv)
    then show ?thesis using that False hb by (simp add: prev'_def sl_head_def pred_at_def)
  qed (use prev hb that in \<open>auto simp: prev'_def\<close>)
  have nodes: "sl_nodes s2 ! a = sl_nodes s ! a" if "a < ?x" for a using that hb by (simp add: s2_def nth_append)
  have hs2: "hgt s2 a = hgt s a" "node_key s2 a = node_key s a" "node_Next s2 a i = node_Next s a i" if "a < ?x" for a i
    using nodes [OF that] by (simp_all add: hgt_def node_key_def node_Next_def)
  have hx: "hgt s2 ?x = h" "node_key s2 ?x = key" "n_key (sl_nodes s2 ! ?x) = Some key"
    using hb by (simp_all add: s2_def hgt_def node_key_def NewNode_def)
  have len2: "length (sl_nodes s2) = Suc ?x" using hb by (simp add: s2_def)
  have nx: "node_Next s' a m = (if m < h then if a = ?x then node_Next s2 (pred_at s L key m) m
      else if a = pred_at s L key m then Some ?x else node_Next s2 a m else node_Next s2 a m)" for a m
    unfolding s'_def
  proof (subst link_levels_Next)
    fix j assume "0 \<le> j" "j < 0 + h"
    then show "prev' ! j \<noteq> ?x \<and> prev' ! j < length (sl_nodes s2) \<and> j < hgt s2 (prev' ! j)"
      using pred_at_bounds [OF inv, of j key] hb(2) pr [of j] len2 hs2(1) [of "pred_at s L key j"] by simp
  qed (auto simp: len2 hx pr)
  let ?L' = "takeWhile (below s key) L @ ?x # dropWhile (below s key) L"
  have hs': "hgt s' a = (if a = ?x then h else hgt s a)" "node_key s' a = (if a = ?x then key else node_key s a)"
    "n_key (sl_nodes s' ! a) = (if a = ?x then Some key else n_key (sl_nodes s ! a))" if "a \<le> ?x" for a
    using that hx hs2 [of a] nodes [of a] by (auto simp: s'_def)
  have mh: "sl_max_height s' = max (sl_max_height s) h" using hb by (simp add: s'_def s2_def)
  have len': "length (sl_nodes s') = Suc ?x" by (simp add: s'_def len2)
  have "sl_inv compare key_ok s' ?L'"
  proof (rule sl_inv_insert [OF inv key fresh _ _ hs' mh len' nx])
    show "1 \<le> h" "h \<le> kMaxHeight" by (fact hb)+
    show "node_Next s2 a i = node_Next s a i" if "a < ?x" for a i using hs2(3) [OF that] .
  qed
  moreover have "\<forall>a\<in>set L. node_key s' a = node_key s a"
  proof
    fix a assume "a \<in> set L"
    from L [OF this] hs'(2) [of a] show "node_key s' a = node_key s a" by simp
  qed
  ultimately show ?thesis using ins hs'(2) [of ?x] by simp
qed

text \<open>The operations on the represented keys.\<close>

lemma sl_repE:
  assumes "sl_rep compare key_ok s ks"
  obtains L where "sl_inv compare key_ok s L" "ks = map (node_key s) L"
  using assms by (auto simp: sl_rep_def)

lemma below_map:
  assumes inv: "sl_inv compare key_ok s L" and key: "key_ok key"
  shows "takeWhile (\<lambda>k. compare k key < 0) (map (node_key s) L) = map (node_key s) (takeWhile (below s key) L)"
    "dropWhile (\<lambda>k. compare k key < 0) (map (node_key s) L) = map (node_key s) (dropWhile (below s key) L)"
proof -
  have "compare (node_key s a) key < 0 \<longleftrightarrow> below s key a" if "a \<in> set L" for a
    using that inv key compare_sym [of "node_key s a" key] by (auto simp: below_def sl_inv_def)
  then show "takeWhile (\<lambda>k. compare k key < 0) (map (node_key s) L) = map (node_key s) (takeWhile (below s key) L)"
    "dropWhile (\<lambda>k. compare k key < 0) (map (node_key s) L) = map (node_key s) (dropWhile (below s key) L)"
    by (auto simp: takeWhile_map dropWhile_map cong: takeWhile_cong dropWhile_cong)
qed

lemma Insert_rep:
  assumes "sl_rep compare key_ok s ks" "key_ok key" "\<And>k. k \<in> set ks \<Longrightarrow> compare key k \<noteq> 0"
  shows "\<exists>s'. Insert compare key s = Some s'
    \<and> sl_rep compare key_ok s' (takeWhile (\<lambda>k. compare k key < 0) ks @ key # dropWhile (\<lambda>k. compare k key < 0) ks)"
proof -
  obtain L where L: "sl_inv compare key_ok s L" "ks = map (node_key s) L" by (rule sl_repE [OF assms(1)])
  have "\<And>a. a \<in> set L \<Longrightarrow> compare key (node_key s a) \<noteq> 0" using assms(3) L(2) by simp
  from Insert_inv [OF L(1) assms(2) this] obtain s' where
    s': "Insert compare key s = Some s'" "\<forall>a\<in>set L. node_key s' a = node_key s a"
      "node_key s' (length (sl_nodes s)) = key"
      "sl_inv compare key_ok s' (takeWhile (below s key) L @ length (sl_nodes s) # dropWhile (below s key) L)"
    by blast
  have "map (node_key s') (takeWhile (below s key) L) = map (node_key s) (takeWhile (below s key) L)"
    "map (node_key s') (dropWhile (below s key) L) = map (node_key s) (dropWhile (below s key) L)"
    using s'(2) by (auto intro!: map_cong dest: set_takeWhileD set_dropWhileD)
  then show ?thesis
    using s'(1,3,4) below_map [OF L(1) assms(2)] unfolding sl_rep_def L(2)
    by (intro exI [of _ s'] conjI exI [of _ "takeWhile (below s key) L @ length (sl_nodes s) # dropWhile (below s key) L"]) simp_all
qed

lemma Contains_rep:
  assumes "sl_rep compare key_ok s ks" "key_ok key"
  shows "Contains compare key s = Some (\<exists>k\<in>set ks. compare key k = 0)"
proof -
  obtain L where L: "sl_inv compare key_ok s L" "ks = map (node_key s) L" by (rule sl_repE [OF assms(1)])
  obtain prev where f: "FindGreaterOrEqual compare s key = Some (first_of (dropWhile (below s key) L), prev)"
    using FindGE_eq [OF L(1) assms(2)] by blast
  have nb: "compare key (node_key s a) = 0 \<Longrightarrow> a \<in> set L \<Longrightarrow> a \<in> set (dropWhile (below s key) L)" for a
    using split_below(1) [OF L(1) assms(2), of a] by (auto simp: below_def)
      (metis Un_iff set_append takeWhile_dropWhile_id)
  show ?thesis
  proof (cases "dropWhile (below s key) L")
    case Nil
    then have "compare key (node_key s a) \<noteq> 0" if "a \<in> set L" for a
      using nb [OF _ that] unfolding Nil by auto
    then show ?thesis using f Nil L(2) by (simp add: Contains_def)
  next
    case (Cons a as)
    have a: "a \<in> set L" "\<not> below s key a" using split_below(2) [OF L(1) assms(2), of a] Cons by auto
    have "compare key (node_key s b) \<noteq> 0" if "b \<in> set as" "compare key (node_key s a) \<noteq> 0" for b
    proof -
      have "sorted_wrt (\<lambda>a b. compare (node_key s a) (node_key s b) < 0) (takeWhile (below s key) L @ dropWhile (below s key) L)"
        using L(1) by (simp add: sl_inv_def)
      then have "compare (node_key s a) (node_key s b) < 0"
        unfolding sorted_wrt_append using Cons that(1) by simp
      moreover have "compare key (node_key s a) < 0" using a that(2) by (simp add: below_def)
      moreover have "b \<in> set L" using Cons that(1) by (metis list.set_intros(2) set_dropWhileD)
      ultimately have "compare key (node_key s b) < 0"
        using compare_trans L(1) a(1) assms(2) by (metis sl_inv_def)
      then show ?thesis by simp
    qed
    moreover have "compare key (node_key s b) = 0 \<Longrightarrow> b \<in> set L \<Longrightarrow> b = a \<or> b \<in> set as" for b
      using nb Cons by auto
    ultimately show ?thesis using f Cons L(2) a(1) by (auto simp: Contains_def)
  qed
qed

text \<open>The backward walks: \<open>FindLessThan\<close> ends at the predecessor, \<open>FindLast\<close> at the last node.\<close>

lemma FindLT_level:
  assumes "linked s i (ys @ x # zs)" "\<And>a. a \<in> set zs \<Longrightarrow> key_ok (node_key s a)" "key_ok key"
  shows "FindLT_loop compare s key x i =
    (let x' = last (x # takeWhile (below s key) zs)
     in if i = 0 then Some x' else FindLT_loop compare s key x' (i - 1))"
  using assms
proof (induction zs arbitrary: x ys)
  case Nil
  then show ?case
    using linked_next [of s i ys x "[]"] by (subst FindLT_loop.simps) (auto simp: Let_def)
next
  case (Cons z zs)
  have n: "node_Next s x i = Some z" using linked_next [OF Cons.prems(1)] by simp
  have b: "0 \<le> compare (node_key s z) key \<longleftrightarrow> \<not> below s key z"
    using compare_sym [of "node_key s z" key] Cons.prems(2,3) by (auto simp: below_def)
  show ?case
  proof (cases "below s key z")
    case True
    then have "FindLT_loop compare s key x i = FindLT_loop compare s key z i"
      using n b by (subst FindLT_loop.simps) simp
    moreover have "linked s i ((ys @ [x]) @ z # zs)" using Cons.prems by simp
    ultimately show ?thesis using Cons.IH [of "ys @ [x]" z] True Cons.prems(2,3) by simp
  next
    case False
    then show ?thesis using n b by (subst FindLT_loop.simps) (auto simp: Let_def)
  qed
qed

end

lemma FindLast_level:
  assumes "linked s i (ys @ x # zs)"
  shows "FindLast_loop s x i =
    (let x' = last (x # zs) in if i = 0 then Some x' else FindLast_loop s x' (i - 1))"
  using assms
proof (induction zs arbitrary: x ys)
  case Nil
  then show ?case
    using linked_next [of s i ys x "[]"] by (subst FindLast_loop.simps) (auto simp: Let_def)
next
  case (Cons z zs)
  have n: "node_Next s x i = Some z" using linked_next [OF Cons.prems(1)] by simp
  then have "FindLast_loop s x i = FindLast_loop s z i" by (subst FindLast_loop.simps) simp
  moreover have "linked s i ((ys @ [x]) @ z # zs)" using Cons.prems by simp
  ultimately show ?case using Cons.IH [of "ys @ [x]" z] by simp
qed

context sl_order
begin

lemma lvl_suffix:
  assumes "0 # lvl s L i = ys @ x # zs"
  shows "set zs \<subseteq> set L"
proof -
  have "set zs \<subseteq> set (lvl s L i)" using assms by (cases ys) auto
  then show ?thesis by (auto simp: lvl_def)
qed

lemma FindLT_loop_eq:
  assumes inv: "sl_inv compare key_ok s L" and key: "key_ok key" and "i < kMaxHeight"
    and "x = 0 \<or> x \<in> set (lvl s L i) \<and> below s key x"
  shows "FindLT_loop compare s key x i = Some (pred_at s L key 0)"
  using assms(3,4)
proof (induction i arbitrary: x)
  case 0
  have "x \<in> set (0 # lvl s L 0)" using 0(2) by auto
  then obtain ys zs where split: "0 # lvl s L 0 = ys @ x # zs" by (metis split_list)
  have "linked s 0 (ys @ x # zs)" using inv 0(1) by (auto simp: sl_inv_def split [symmetric])
  moreover have "key_ok (node_key s a)" if "a \<in> set zs" for a
    using inv that lvl_suffix [OF split] by (auto simp: sl_inv_def)
  ultimately show ?case using FindLT_level [of s 0 ys x zs key] key below_prefix [OF inv key 0(2) split] by simp
next
  case (Suc i)
  have "x \<in> set (0 # lvl s L (Suc i))" using Suc.prems(2) by auto
  then obtain ys zs where split: "0 # lvl s L (Suc i) = ys @ x # zs" by (metis split_list)
  have "linked s (Suc i) (ys @ x # zs)" using inv Suc.prems(1) by (auto simp: sl_inv_def split [symmetric])
  moreover have "key_ok (node_key s a)" if "a \<in> set zs" for a
    using inv that lvl_suffix [OF split] by (auto simp: sl_inv_def)
  ultimately have "FindLT_loop compare s key x (Suc i) = FindLT_loop compare s key (pred_at s L key (Suc i)) i"
    using FindLT_level [of s "Suc i" ys x zs key] key below_prefix [OF inv key Suc.prems(2) split] by simp
  moreover have "pred_at s L key (Suc i) = 0 \<or> pred_at s L key (Suc i) \<in> set (lvl s L i) \<and> below s key (pred_at s L key (Suc i))"
    using pred_at_in [of s L key "Suc i"] by (auto simp: lvl_def)
  ultimately show ?case using Suc.IH Suc.prems(1) by simp
qed

lemma FindLessThan_eq:
  assumes inv: "sl_inv compare key_ok s L" and key: "key_ok key"
  shows "FindLessThan compare s key = Some (last (0 # takeWhile (below s key) L))"
  using FindLT_loop_eq [OF inv key, of "sl_max_height s - 1" 0] lvl_0 [OF inv] inv
  by (auto simp: FindLessThan_def sl_head_def sl_inv_def pred_at_def)

lemma FindLast_loop_eq:
  assumes inv: "sl_inv compare key_ok s L" and "i < kMaxHeight" "x \<in> set (0 # lvl s L i)"
  shows "FindLast_loop s x i = Some (last (0 # L))"
  using assms(2,3)
proof (induction i arbitrary: x)
  case 0
  from 0(2) obtain ys zs where split: "0 # lvl s L 0 = ys @ x # zs" by (metis split_list)
  have "linked s 0 (ys @ x # zs)" using inv 0(1) by (auto simp: sl_inv_def split [symmetric])
  moreover have "last (x # zs) = last (0 # lvl s L 0)" unfolding split by simp
  ultimately show ?case using FindLast_level [of s 0 ys x zs] lvl_0 [OF inv] by (simp del: last.simps)
next
  case (Suc i)
  from Suc.prems(2) obtain ys zs where split: "0 # lvl s L (Suc i) = ys @ x # zs" by (metis split_list)
  have "linked s (Suc i) (ys @ x # zs)" using inv Suc.prems(1) by (auto simp: sl_inv_def split [symmetric])
  moreover have "last (x # zs) = last (0 # lvl s L (Suc i))" unfolding split by simp
  ultimately have "FindLast_loop s x (Suc i) = FindLast_loop s (last (0 # lvl s L (Suc i))) i"
    using FindLast_level [of s "Suc i" ys x zs] by (simp del: last.simps)
  moreover have "last (0 # lvl s L (Suc i)) \<in> set (0 # lvl s L i)"
    using last_in_set [of "0 # lvl s L (Suc i)"] by (auto simp: lvl_def)
  ultimately show ?case using Suc.IH Suc.prems(1) by simp
qed

lemma FindLast_eq:
  assumes inv: "sl_inv compare key_ok s L"
  shows "FindLast s = Some (last (0 # L))"
  using FindLast_loop_eq [OF inv, of "sl_max_height s - 1" 0] inv
  by (auto simp: FindLast_def sl_head_def sl_inv_def)

text \<open>\<open>it_at\<close>: the iterator stands on the \<open>n\<close>-th of the represented keys, or is not valid.\<close>

definition it_at :: "'k skiplist \<Rightarrow> nat list \<Rightarrow> nat option \<Rightarrow> nat \<Rightarrow> bool" where
  "it_at s L it n \<longleftrightarrow> it = (if n < length L then Some (L ! n) else None)"

lemma it_key: "it_at s L it n \<Longrightarrow> n < length L \<Longrightarrow> sl_Valid it \<and> sl_key s it = map (node_key s) L ! n"
  by (simp add: it_at_def sl_Valid_def sl_key_def)

lemma inv_nth:
  assumes "sl_inv compare key_ok s L" "i < length L"
  shows "key_ok (node_key s (L ! i))" "0 < L ! i"
  using assms nth_mem [OF assms(2)] unfolding sl_inv_def by auto

lemma linked_0:
  assumes inv: "sl_inv compare key_ok s L"
  shows "linked s 0 (0 # L)"
proof -
  have "linked s 0 (0 # lvl s L 0)" using inv by (simp add: sl_inv_def kMaxHeight_def)
  then show ?thesis using lvl_0 [OF inv] by simp
qed

lemma takeWhile_nth:
  assumes inv: "sl_inv compare key_ok s L" and "n < length L"
  shows "takeWhile (below s (node_key s (L ! n))) L = take n L"
proof (rule takeWhile_eq_take_P_nth)
  have ok: "key_ok (node_key s (L ! i))" if "i < length L" for i using inv_nth(1) [OF inv that] .
  have sorted: "sorted_wrt (\<lambda>a b. compare (node_key s a) (node_key s b) < 0) L" using inv by (simp add: sl_inv_def)
  show "\<not> below s (node_key s (L ! n)) (L ! n)"
    using compare_sym [OF ok ok, of n n] assms(2) by (auto simp: below_def)
  show "below s (node_key s (L ! n)) (L ! i)" if "i < n" "i < length L" for i
    using sorted_wrt_nth_mono [OF sorted that(1) assms(2)] compare_sym [OF ok [OF that(2)] ok [OF assms(2)]]
    by (simp add: below_def)
qed

lemma it_SeekToFirst: "sl_inv compare key_ok s L \<Longrightarrow> it_at s L (sl_SeekToFirst s) 0"
proof -
  assume inv: "sl_inv compare key_ok s L"
  have "linked s 0 ([] @ 0 # L)" using linked_0 [OF inv] by simp
  from linked_next [OF this] show ?thesis
    by (cases L) (auto simp: it_at_def sl_SeekToFirst_def sl_head_def)
qed

lemma it_Next:
  assumes inv: "sl_inv compare key_ok s L" and "it_at s L it n" "n < length L"
  shows "it_at s L (sl_Next s it) (Suc n)"
proof -
  have "0 # L = (0 # take n L) @ L ! n # drop (Suc n) L" using assms(3) by (simp add: id_take_nth_drop)
  moreover note linked_0 [OF inv]
  ultimately have "node_Next s (L ! n) 0 = first_of (drop (Suc n) L)" using linked_next by metis
  then show ?thesis
    using assms by (cases "Suc n < length L") (auto simp: it_at_def sl_Next_def Cons_nth_drop_Suc [symmetric])
qed

lemma it_Seek:
  assumes inv: "sl_inv compare key_ok s L" and key: "key_ok key"
  shows "\<exists>it. sl_Seek compare s key = Some it \<and> it_at s L it (length (takeWhile (below s key) L))"
proof -
  obtain prev where "FindGreaterOrEqual compare s key = Some (first_of (dropWhile (below s key) L), prev)"
    using FindGE_eq [OF inv key] by blast
  moreover have "first_of (dropWhile (below s key) L)
    = (if length (takeWhile (below s key) L) < length L then Some (L ! length (takeWhile (below s key) L)) else None)"
    by (auto simp: dropWhile_eq_drop Cons_nth_drop_Suc [symmetric])
  ultimately show ?thesis by (auto simp: sl_Seek_def it_at_def)
qed

lemma it_Prev:
  assumes inv: "sl_inv compare key_ok s L" and "it_at s L it n" "n < length L"
  shows "sl_Prev compare s it = Some (if n = 0 then None else Some (L ! (n - 1)))"
proof -
  have ok: "key_ok (node_key s (L ! n))" using inv_nth(1) [OF inv assms(3)] .
  have "0 < L ! (n - 1)" using inv_nth(2) [OF inv, of "n - 1"] assms(3) by simp
  moreover have "last (0 # take n L) = (if n = 0 then 0 else L ! (n - 1))"
    using assms(3) by (auto simp: last_conv_nth)
  ultimately show ?thesis
    using FindLessThan_eq [OF inv ok] takeWhile_nth [OF inv assms(3)] assms(2,3)
    by (simp add: sl_Prev_def it_at_def sl_head_def)
qed

lemma it_SeekToLast:
  assumes inv: "sl_inv compare key_ok s L"
  shows "sl_SeekToLast s = Some (if L = [] then None else Some (last L))"
  using FindLast_eq [OF inv] inv_nth(2) [OF inv, of "length L - 1"]
  by (cases "L = []") (auto simp: sl_SeekToLast_def sl_head_def last_conv_nth)

lemma iterator_positions:
  assumes "sl_inv compare key_ok s L" "key_ok key" "n < length L"
  shows "sl_SeekToFirst s = Some (L ! 0)
    \<and> sl_SeekToLast s = Some (Some (last L))
    \<and> sl_Next s (Some (L ! n)) = (if Suc n < length L then Some (L ! Suc n) else None)
    \<and> sl_Prev compare s (Some (L ! n)) = Some (if n = 0 then None else Some (L ! (n - 1)))
    \<and> sl_Seek compare s key = Some (first_of (dropWhile (\<lambda>a. 0 < compare key (node_key s a)) L))"
proof -
  have at: "it_at s L (Some (L ! n)) n" using assms(3) by (simp add: it_at_def)
  obtain prev where "FindGreaterOrEqual compare s key = Some (first_of (dropWhile (below s key) L), prev)"
    using FindGE_eq [OF assms(1,2)] by blast
  moreover have "below s key = (\<lambda>a. 0 < compare key (node_key s a))" by (auto simp: below_def)
  ultimately show ?thesis
    using it_SeekToFirst [OF assms(1)] it_SeekToLast [OF assms(1)] it_Next [OF assms(1) at assms(3)]
      it_Prev [OF assms(1) at assms(3)] assms(3)
    by (auto simp: it_at_def sl_Seek_def)
qed

end

section \<open>Properties\<close>

text \<open>
  C6: The skip list is a sorted list.  Over any key order, inserting a key that is not yet
  there succeeds whatever the random heights are, keeps the pointer invariant on every
  level, and puts the key in its place; \<open>Contains\<close> answers whether an equal key is stored.
\<close>

theorem skiplist_refines_sorted_list:
  assumes "sl_order compare key_ok" "sl_rep compare key_ok s ks" "key_ok key"
  shows "((\<forall>k\<in>set ks. compare key k \<noteq> 0) \<longrightarrow> (\<exists>s'. Insert compare key s = Some s' \<and>
      sl_rep compare key_ok s' (takeWhile (\<lambda>k. compare k key < 0) ks @ key # dropWhile (\<lambda>k. compare k key < 0) ks)))
    \<and> Contains compare key s = Some (\<exists>k\<in>set ks. compare key k = 0)"
  using sl_order.Insert_rep [OF assms(1,2,3)] sl_order.Contains_rep [OF assms] by blast

theorem skiplist_refines_sorted_list_witness:
  "(\<exists>s'. Insert (\<lambda>a b :: int. a - b) 5 SkipList_init = Some s' \<and> sl_rep (\<lambda>a b. a - b) (\<lambda>_. True) s' [5])
   \<and> Contains (\<lambda>a b :: int. a - b) 5 SkipList_init = Some False"
proof -
  have "sl_order (\<lambda>a b :: int. a - b) (\<lambda>_. True)" by unfold_locales auto
  from skiplist_refines_sorted_list [OF this sl_rep_init, of 5] show ?thesis by simp
qed

text \<open>
  C7: The iterator walks the stored keys in both directions: on a skip list whose nodes are, in
  key order, \<open>L\<close>, \<open>SeekToFirst\<close>, \<open>Next\<close>, \<open>Prev\<close>, \<open>SeekToLast\<close> and \<open>Seek\<close> end and move to the first, next,
  previous, last and first not smaller node.
\<close>

theorem skiplist_iterator_positions:
  assumes "sl_order compare key_ok" "sl_inv compare key_ok s L" "key_ok key" "n < length L"
  shows "sl_SeekToFirst s = Some (L ! 0)
    \<and> sl_SeekToLast s = Some (Some (last L))
    \<and> sl_Next s (Some (L ! n)) = (if Suc n < length L then Some (L ! Suc n) else None)
    \<and> sl_Prev compare s (Some (L ! n)) = Some (if n = 0 then None else Some (L ! (n - 1)))
    \<and> sl_Seek compare s key = Some (first_of (dropWhile (\<lambda>a. 0 < compare key (node_key s a)) L))"
  by (rule sl_order.iterator_positions [OF assms])

theorem skiplist_iterator_positions_witness:
  "\<exists>s a. Insert (\<lambda>a b :: int. a - b) 5 SkipList_init = Some s \<and> node_key s a = 5
     \<and> sl_SeekToFirst s = Some a \<and> sl_Next s (Some a) = None
     \<and> sl_Seek (\<lambda>a b. a - b) s 3 = Some (Some a)"
proof -
  have o: "sl_order (\<lambda>a b :: int. a - b) (\<lambda>_. True)" by unfold_locales auto
  from sl_order.Insert_rep [OF this sl_rep_init, of 5]
  obtain s L where s: "Insert (\<lambda>a b :: int. a - b) 5 SkipList_init = Some s"
    and L: "sl_inv (\<lambda>a b. a - b) (\<lambda>_. True) s L" "map (node_key s) L = [5]"
    by (auto simp: sl_rep_def)
  then obtain a where a: "L = [a]" "node_key s a = 5" by auto
  then have "0 < length L" by simp
  from skiplist_iterator_positions [OF o L(1) TrueI this, where key = 3] show ?thesis
    using s a by (intro exI [of _ s] exI [of _ a]) simp
qed

end
