(* ===== verification/Arena.thy ===== *)
theory Arena
  imports RDB_Prelude
begin

text \<open>
  The arena allocator (\<^verbatim>\<open>src/util/arena.h\<close>, \<^verbatim>\<open>src/util/arena.cc\<close>).  Memory is a range of
  addresses; \<open>new char[n]\<close> is the parameter \<open>heap_new\<close>, which sees the blocks it has handed out
  so far and returns the address of a new one.
\<close>

section \<open>The arena\<close>

type_synonym heap_allocator = "(nat \<times> nat) list \<Rightarrow> nat \<Rightarrow> nat"

record arena =
  alloc_ptr :: nat
  alloc_bytes_remaining :: nat
  arena_blocks :: "(nat \<times> nat) list"
  memory_usage :: nat

definition arena_block_size :: nat where
  "arena_block_size = 4096"

definition Arena_init :: arena where
  "Arena_init = \<lparr> alloc_ptr = 0, alloc_bytes_remaining = 0, arena_blocks = [], memory_usage = 0 \<rparr>"

definition AllocateNewBlock :: "heap_allocator \<Rightarrow> nat \<Rightarrow> arena \<Rightarrow> nat \<times> arena" where
  "AllocateNewBlock heap_new block_bytes a =
     (let result = heap_new (arena_blocks a) block_bytes
      in (result, a\<lparr> arena_blocks := arena_blocks a @ [(result, block_bytes)],
                     memory_usage := memory_usage a + (block_bytes + 8) \<rparr>))"

definition AllocateFallback :: "heap_allocator \<Rightarrow> nat \<Rightarrow> arena \<Rightarrow> nat \<times> arena" where
  "AllocateFallback heap_new bytes a =
     (if bytes > arena_block_size div 4 then AllocateNewBlock heap_new bytes a
      else
        let (ptr, a1) = AllocateNewBlock heap_new arena_block_size a;
            a2 = a1\<lparr> alloc_ptr := ptr, alloc_bytes_remaining := arena_block_size \<rparr>;
            result = alloc_ptr a2
        in (result, a2\<lparr> alloc_ptr := alloc_ptr a2 + bytes,
                         alloc_bytes_remaining := alloc_bytes_remaining a2 - bytes \<rparr>))"

definition Allocate :: "heap_allocator \<Rightarrow> nat \<Rightarrow> arena \<Rightarrow> nat \<times> arena" where
  "Allocate heap_new bytes a =
     (if bytes \<le> alloc_bytes_remaining a
      then (alloc_ptr a, a\<lparr> alloc_ptr := alloc_ptr a + bytes,
                            alloc_bytes_remaining := alloc_bytes_remaining a - bytes \<rparr>)
      else AllocateFallback heap_new bytes a)"

text \<open>The alignment is that of a pointer, 8 bytes.\<close>

definition arena_align :: nat where
  "arena_align = 8"

definition AllocateAligned :: "heap_allocator \<Rightarrow> nat \<Rightarrow> arena \<Rightarrow> nat \<times> arena" where
  "AllocateAligned heap_new bytes a =
     (let current_mod = alloc_ptr a mod arena_align;
          slop = (if current_mod = 0 then 0 else arena_align - current_mod);
          needed = bytes + slop
      in if needed \<le> alloc_bytes_remaining a
         then (alloc_ptr a + slop, a\<lparr> alloc_ptr := alloc_ptr a + needed,
                                     alloc_bytes_remaining := alloc_bytes_remaining a - needed \<rparr>)
         else AllocateFallback heap_new bytes a)"

definition MemoryUsage :: "arena \<Rightarrow> nat" where
  "MemoryUsage a = memory_usage a"

section \<open>Requests and the ranges they were given\<close>

datatype arena_request = Plain nat | Aligned nat

fun request_size :: "arena_request \<Rightarrow> nat" where
  "request_size (Plain n) = n"
| "request_size (Aligned n) = n"

fun arena_serve :: "heap_allocator \<Rightarrow> arena_request \<Rightarrow> arena \<Rightarrow> nat \<times> arena" where
  "arena_serve heap_new (Plain n) a = Allocate heap_new n a"
| "arena_serve heap_new (Aligned n) a = AllocateAligned heap_new n a"

text \<open>The ranges handed out for a list of requests, and the arena afterwards.\<close>

fun arena_run :: "heap_allocator \<Rightarrow> arena_request list \<Rightarrow> arena \<Rightarrow> (nat \<times> nat) list \<times> arena" where
  "arena_run heap_new [] a = ([], a)"
| "arena_run heap_new (r # rs) a =
     (let (p, a1) = arena_serve heap_new r a; (ps, a2) = arena_run heap_new rs a1
      in ((p, request_size r) # ps, a2))"

definition range_disjoint :: "nat \<times> nat \<Rightarrow> nat \<times> nat \<Rightarrow> bool" where
  "range_disjoint p q \<longleftrightarrow> fst p + snd p \<le> fst q \<or> fst q + snd q \<le> fst p"

definition range_within :: "nat \<times> nat \<Rightarrow> nat \<times> nat \<Rightarrow> bool" where
  "range_within p b \<longleftrightarrow> fst b \<le> fst p \<and> fst p + snd p \<le> fst b + snd b"

text \<open>
  What \<open>new char[n]\<close> promises: a fresh block, aligned for every fundamental type
  (16 bytes on the supported platforms).
\<close>

definition heap_new_ok :: "heap_allocator \<Rightarrow> bool" where
  "heap_new_ok heap_new \<longleftrightarrow> (\<forall>bs n. heap_new bs n mod 16 = 0
     \<and> (\<forall>b\<in>set bs. range_disjoint b (heap_new bs n, n)))"

text \<open>
  The arena's invariant, for the ranges \<open>given\<close> handed out so far: blocks do not overlap, every
  range lies in a block and overlaps neither another one nor the free rest of the current
  block, and the counter is the size of all blocks with a pointer each.
\<close>

definition arena_inv :: "(nat \<times> nat) list \<Rightarrow> arena \<Rightarrow> bool" where
  "arena_inv given a \<longleftrightarrow>
     sorted_wrt range_disjoint (arena_blocks a) \<and> sorted_wrt range_disjoint given
     \<and> (\<forall>p\<in>set given. (\<exists>b\<in>set (arena_blocks a). range_within p b)
          \<and> (alloc_bytes_remaining a = 0 \<or> range_disjoint p (alloc_ptr a, alloc_bytes_remaining a)))
     \<and> (alloc_bytes_remaining a = 0
          \<or> (\<exists>b\<in>set (arena_blocks a). range_within (alloc_ptr a, alloc_bytes_remaining a) b))
     \<and> memory_usage a = (\<Sum>b\<leftarrow>arena_blocks a. snd b + 8)"

lemma arena_inv_init: "arena_inv [] Arena_init"
  by (simp add: arena_inv_def Arena_init_def)

lemma range_disjoint_within:
  "range_within p b \<Longrightarrow> range_disjoint b c \<Longrightarrow> range_disjoint p c"
  by (auto simp: range_within_def range_disjoint_def)

lemma range_disjoint_sym: "range_disjoint p q \<Longrightarrow> range_disjoint q p"
  by (auto simp: range_disjoint_def)

lemma range_within_trans: "range_within p b \<Longrightarrow> range_within b c \<Longrightarrow> range_within p c"
  by (auto simp: range_within_def)

text \<open>Cutting a range off the free rest of the current block, after skipping \<open>slop\<close> bytes.\<close>

lemma arena_inv_cut:
  assumes "arena_inv given a" "0 < bytes" "slop + bytes \<le> alloc_bytes_remaining a"
  shows "arena_inv (given @ [(alloc_ptr a + slop, bytes)])
    (a\<lparr> alloc_ptr := alloc_ptr a + (slop + bytes),
        alloc_bytes_remaining := alloc_bytes_remaining a - (slop + bytes) \<rparr>)"
proof -
  let ?free = "(alloc_ptr a, alloc_bytes_remaining a)" and ?cut = "(alloc_ptr a + slop, bytes)"
    and ?rest = "(alloc_ptr a + (slop + bytes), alloc_bytes_remaining a - (slop + bytes))"
  have cut: "range_within ?cut ?free" "range_within ?rest ?free" "range_disjoint ?cut ?rest"
    using assms(3) by (auto simp: range_within_def range_disjoint_def)
  have "alloc_bytes_remaining a \<noteq> 0" using assms(2,3) by simp
  then have given: "\<forall>p\<in>set given. (\<exists>b\<in>set (arena_blocks a). range_within p b) \<and> range_disjoint p ?free"
    and "\<exists>b\<in>set (arena_blocks a). range_within ?free b"
    using assms(1) by (auto simp: arena_inv_def)
  moreover have "\<forall>p\<in>set given. range_disjoint p ?cut \<and> range_disjoint p ?rest"
    using given cut(1,2) range_disjoint_within range_disjoint_sym by blast
  ultimately show ?thesis
    using assms(1) cut range_within_trans
    by (simp add: arena_inv_def sorted_wrt_append) blast
qed

lemma arena_inv_new_block:
  assumes "arena_inv given a" "heap_new_ok heap_new" "AllocateNewBlock heap_new n a = (p, a')"
  shows "arena_inv given a'" "\<forall>q\<in>set given. range_disjoint q (p, n)" "(p, n) \<in> set (arena_blocks a')"
    "alloc_bytes_remaining a \<noteq> 0 \<Longrightarrow> range_disjoint (p, n) (alloc_ptr a, alloc_bytes_remaining a)"
    "alloc_ptr a' = alloc_ptr a" "alloc_bytes_remaining a' = alloc_bytes_remaining a" "p mod 16 = 0"
proof -
  have p: "p = heap_new (arena_blocks a) n"
    and a': "a' = a\<lparr> arena_blocks := arena_blocks a @ [(p, n)], memory_usage := memory_usage a + (n + 8) \<rparr>"
    using assms(3) by (auto simp: AllocateNewBlock_def Let_def)
  have fresh: "\<forall>b\<in>set (arena_blocks a). range_disjoint b (p, n)" and "p mod 16 = 0"
    using assms(2) by (auto simp: heap_new_ok_def p)
  have blocks: "\<forall>p\<in>set given. \<exists>b\<in>set (arena_blocks a). range_within p b" using assms(1) by (simp add: arena_inv_def)
  show "arena_inv given a'" using assms(1) fresh unfolding arena_inv_def a'
    by (simp add: sorted_wrt_append) blast
  show "\<forall>q\<in>set given. range_disjoint q (p, n)"
    using blocks fresh range_disjoint_within by blast
  show "range_disjoint (p, n) (alloc_ptr a, alloc_bytes_remaining a)" if "alloc_bytes_remaining a \<noteq> 0"
  proof -
    have "\<exists>b\<in>set (arena_blocks a). range_within (alloc_ptr a, alloc_bytes_remaining a) b"
      using assms(1) that by (simp add: arena_inv_def)
    then show ?thesis using fresh range_disjoint_within range_disjoint_sym by blast
  qed
qed (use assms(2,3) in \<open>auto simp: AllocateNewBlock_def Let_def heap_new_ok_def\<close>)

lemma arena_inv_fallback:
  assumes inv: "arena_inv given a" and new: "heap_new_ok heap_new" and n: "0 < n"
    and eq: "AllocateFallback heap_new n a = (p, a')"
  shows "arena_inv (given @ [(p, n)]) a' \<and> p mod arena_align = 0"
proof (cases "n > arena_block_size div 4")
  case True
  then have "AllocateNewBlock heap_new n a = (p, a')" using eq by (simp add: AllocateFallback_def)
  note b = arena_inv_new_block [OF inv new this]
  have "p mod arena_align = 0" using b(7) by (simp add: arena_align_def) presburger
  moreover have "range_within (p, n) (p, n)" by (simp add: range_within_def)
  ultimately show ?thesis using b(1-4) unfolding arena_inv_def b(5,6)
    by (simp add: sorted_wrt_append) blast
next
  case False
  obtain q a1 where q: "AllocateNewBlock heap_new arena_block_size a = (q, a1)" by fastforce
  note b = arena_inv_new_block [OF inv new this]
  let ?a2 = "a1\<lparr> alloc_ptr := q, alloc_bytes_remaining := arena_block_size \<rparr>"
  have eqs: "p = q" "a' = ?a2\<lparr> alloc_ptr := alloc_ptr ?a2 + (0 + n), alloc_bytes_remaining := alloc_bytes_remaining ?a2 - (0 + n) \<rparr>"
    using eq False q by (auto simp: AllocateFallback_def Let_def)
  have "range_within (q, arena_block_size) (q, arena_block_size)" by (simp add: range_within_def)
  then have "arena_inv given ?a2" using b(1-3) unfolding arena_inv_def by simp blast
  from arena_inv_cut [OF this n, of 0] have "arena_inv (given @ [(p, n)]) a'"
    using False by (simp add: eqs arena_block_size_def)
  moreover have "p mod arena_align = 0" using b(7) eqs(1) by (simp add: arena_align_def) presburger
  ultimately show ?thesis by blast
qed

lemma arena_serve_inv:
  assumes inv: "arena_inv given a" and new: "heap_new_ok heap_new" and n: "0 < request_size r"
    and eq: "arena_serve heap_new r a = (p, a')"
  shows "arena_inv (given @ [(p, request_size r)]) a' \<and> (\<forall>n. r = Aligned n \<longrightarrow> p mod arena_align = 0)"
proof (cases r)
  case (Plain n)
  then show ?thesis
    using eq arena_inv_cut [OF inv, of n 0] arena_inv_fallback [OF inv new, of n p a'] assms(3)
    by (auto simp: Allocate_def split: if_splits)
next
  case (Aligned n)
  define slop where "slop = (if alloc_ptr a mod arena_align = 0 then 0 else arena_align - alloc_ptr a mod arena_align)"
  have m: "(alloc_ptr a + slop) mod arena_align = 0"
    by (simp add: slop_def arena_align_def) presburger
  show ?thesis
  proof (cases "n + slop \<le> alloc_bytes_remaining a")
    case True
    then have "p = alloc_ptr a + slop"
      "a' = a\<lparr> alloc_ptr := alloc_ptr a + (slop + n), alloc_bytes_remaining := alloc_bytes_remaining a - (slop + n) \<rparr>"
      using eq Aligned by (auto simp: AllocateAligned_def Let_def slop_def add.commute)
    then show ?thesis using arena_inv_cut [OF inv, of n slop] True Aligned n m by (simp add: add.commute)
  next
    case False
    then have "AllocateFallback heap_new n a = (p, a')"
      using eq Aligned by (auto simp: AllocateAligned_def Let_def slop_def)
    then show ?thesis using arena_inv_fallback [OF inv new, of n p a'] Aligned n by simp
  qed
qed

lemma arena_run_inv:
  assumes "arena_inv given a" "heap_new_ok heap_new" "\<forall>r\<in>set rs. 0 < request_size r"
    "arena_run heap_new rs a = (ps, a')"
  shows "arena_inv (given @ ps) a' \<and> list_all2 (\<lambda>r p. snd p = request_size r
    \<and> (\<forall>n. r = Aligned n \<longrightarrow> fst p mod arena_align = 0)) rs ps"
  using assms
proof (induction rs arbitrary: given a ps)
  case (Cons r rs)
  obtain p a1 where s: "arena_serve heap_new r a = (p, a1)" by fastforce
  obtain qs where q: "arena_run heap_new rs a1 = (qs, a')" "ps = (p, request_size r) # qs"
    using Cons.prems(4) s by (auto split: prod.splits)
  have "arena_inv (given @ [(p, request_size r)]) a1 \<and> (\<forall>n. r = Aligned n \<longrightarrow> p mod arena_align = 0)"
    using arena_serve_inv [OF Cons.prems(1,2) _ s] Cons.prems(3) by simp
  then show ?case
    using Cons.IH [of "given @ [(p, request_size r)]", OF _ Cons.prems(2) _ q(1)] Cons.prems(3) q(2) by simp
qed auto

section \<open>Properties\<close>

text \<open>
  C23: The arena hands out memory correctly: for every sequence of allocation requests of
  positive size, the ranges returned are pairwise disjoint, each has the requested size and lies
  inside a block obtained from \<open>new\<close>, aligned requests get addresses divisible by 8, and
  \<open>MemoryUsage\<close> is the size of all blocks plus one pointer per block.
\<close>

theorem arena_allocations_disjoint:
  assumes "heap_new_ok heap_new" "\<forall>r\<in>set rs. 0 < request_size r"
    "arena_run heap_new rs Arena_init = (ps, a)"
  shows "sorted_wrt range_disjoint ps \<and> (\<forall>p\<in>set ps. \<exists>b\<in>set (arena_blocks a). range_within p b)
    \<and> list_all2 (\<lambda>r p. snd p = request_size r \<and> (\<forall>n. r = Aligned n \<longrightarrow> fst p mod arena_align = 0)) rs ps
    \<and> MemoryUsage a = (\<Sum>b\<leftarrow>arena_blocks a. snd b + 8)"
  using arena_run_inv [OF arena_inv_init assms] by (auto simp: arena_inv_def MemoryUsage_def)

definition bump_new :: heap_allocator where
  "bump_new bs n = 16 * Suc (\<Sum>b\<leftarrow>bs. fst b + snd b)"

lemma bump_new_ok: "heap_new_ok bump_new"
proof -
  have "b \<in> set bs \<Longrightarrow> fst b + snd b \<le> (\<Sum>b\<leftarrow>bs. fst b + snd b)" for b :: "nat \<times> nat" and bs
    by (rule member_le_sum_list) auto
  then show ?thesis by (fastforce simp: heap_new_ok_def range_disjoint_def bump_new_def)
qed

theorem arena_allocations_disjoint_witness:
  "sorted_wrt range_disjoint (fst (arena_run bump_new [Plain 10, Aligned 24, Plain 5000, Aligned 4090] Arena_init))"
  using arena_allocations_disjoint [OF bump_new_ok, of "[Plain 10, Aligned 24, Plain 5000, Aligned 4090]"]
  by (cases "arena_run bump_new [Plain 10, Aligned 24, Plain 5000, Aligned 4090] Arena_init") simp

end
