(* ===== verification/Memtable.thy ===== *)
theory Memtable
  imports Dbformat Skiplist Arena
begin

text \<open>
  The memtable (\<^verbatim>\<open>src/db/memtable.h\<close>, \<^verbatim>\<open>src/db/memtable.cc\<close>): a skip list whose keys are pointers
  to encoded entries in an arena.  An entry is the length-prefixed internal key followed by the
  length-prefixed value; the model keeps with a node the bytes its pointer points at.
\<close>

section \<open>The table\<close>

record MemTable =
  mt_comparator :: comparator
  mt_arena :: arena
  mt_table :: "bytes skiplist"

text \<open>\<open>GetLengthPrefixedSlice(const char*)\<close> reads at most five bytes of length at \<open>data\<close>.\<close>

definition mt_GetLengthPrefixedSlice :: "bytes \<Rightarrow> bytes" where
  "mt_GetLengthPrefixedSlice data =
     (case GetVarint32Ptr (take 5 data) of
        None \<Rightarrow> []
      | Some (len, rest) \<Rightarrow> take (unat len) (drop (length (take 5 data) - length rest) data))"

definition KeyComparator :: "comparator \<Rightarrow> bytes \<Rightarrow> bytes \<Rightarrow> int" where
  "KeyComparator comparator aptr bptr =
     Compare comparator (mt_GetLengthPrefixedSlice aptr) (mt_GetLengthPrefixedSlice bptr)"

definition EncodeKey :: "bytes \<Rightarrow> bytes" where
  "EncodeKey target = PutVarint32 [] (of_nat (length target)) @ target"

text \<open>The node of a skip list: a key pointer and \<open>height\<close> next pointers.\<close>

definition node_bytes :: "nat \<Rightarrow> nat" where
  "node_bytes height = 16 + 8 * (height - 1)"

definition MemTable_init :: "heap_allocator \<Rightarrow> comparator \<Rightarrow> MemTable" where
  "MemTable_init heap_new ucmp =
     \<lparr> mt_comparator = ucmp,
       mt_arena = snd (AllocateAligned heap_new (node_bytes kMaxHeight) Arena_init),
       mt_table = SkipList_init \<rparr>"

definition ApproximateMemoryUsage :: "MemTable \<Rightarrow> nat" where
  "ApproximateMemoryUsage m = MemoryUsage (mt_arena m)"

definition mt_Add :: "heap_allocator \<Rightarrow> u64 \<Rightarrow> ValueType \<Rightarrow> bytes \<Rightarrow> bytes \<Rightarrow> MemTable \<Rightarrow> MemTable option" where
  "mt_Add heap_new s type key value m =
     (let key_size = length key;
          val_size = length value;
          internal_key_size = key_size + 8;
          encoded_len = VartintLength (of_nat internal_key_size) + internal_key_size
            + VartintLength (of_nat val_size) + val_size;
          (buf, ar) = Allocate heap_new encoded_len (mt_arena m);
          entry = EncodeVarint32 (of_nat internal_key_size) @ key
            @ EncodeFixed64 (push_bit 8 s OR type_code type)
            @ EncodeVarint32 (of_nat val_size) @ value
      in case Insert (KeyComparator (InternalKeyComparator (mt_comparator m))) entry (mt_table m) of
           None \<Rightarrow> None
         | Some t \<Rightarrow>
             let (node, ar) = AllocateAligned heap_new (node_bytes (length (n_next (last (sl_nodes t))))) ar
             in Some (m\<lparr> mt_arena := ar, mt_table := t \<rparr>))"

text \<open>
  \<open>Get\<close> returns whether the table decides the lookup, and the new contents of \<open>*value\<close> and \<open>*s\<close>.
\<close>

definition mt_Get :: "MemTable \<Rightarrow> LookupKey \<Rightarrow> bytes \<Rightarrow> status \<Rightarrow> (bool \<times> bytes \<times> status) option" where
  "mt_Get m key value s =
     (let memkey = lk_memtable_key key
      in case sl_Seek (KeyComparator (InternalKeyComparator (mt_comparator m))) (mt_table m) memkey of
           None \<Rightarrow> None
         | Some iter \<Rightarrow> Some (
             if sl_Valid iter then
               let entry = sl_key (mt_table m) iter;
                   (key_length, rest) = the (GetVarint32Ptr (take 5 entry));
                   key_ptr = drop (length (take 5 entry) - length rest) entry
               in if Compare (mt_comparator m) (take (unat key_length - 8) key_ptr) (lk_user_key key) = 0 then
                    let tag = DecodeFixed64 (drop (unat key_length - 8) key_ptr)
                    in if tag AND 255 = type_code kTypeValue then
                         (True, mt_GetLengthPrefixedSlice (drop (unat key_length) key_ptr), s)
                       else if tag AND 255 = type_code kTypeDeletion then (True, value, NotFound [])
                       else (False, value, s)
                  else (False, value, s)
             else (False, value, s)))"

section \<open>Iterator\<close>

text \<open>\<open>MemTableIterator\<close>: the list iterator, with keys and values decoded from the entry.\<close>

definition mti_Seek :: "MemTable \<Rightarrow> bytes \<Rightarrow> nat option option" where
  "mti_Seek m k = sl_Seek (KeyComparator (InternalKeyComparator (mt_comparator m))) (mt_table m) (EncodeKey k)"

definition mti_SeekToFirst :: "MemTable \<Rightarrow> nat option" where
  "mti_SeekToFirst m = sl_SeekToFirst (mt_table m)"

definition mti_SeekToLast :: "MemTable \<Rightarrow> nat option option" where
  "mti_SeekToLast m = sl_SeekToLast (mt_table m)"

definition mti_Next :: "MemTable \<Rightarrow> nat option \<Rightarrow> nat option" where
  "mti_Next m it = sl_Next (mt_table m) it"

definition mti_Prev :: "MemTable \<Rightarrow> nat option \<Rightarrow> nat option option" where
  "mti_Prev m it = sl_Prev (KeyComparator (InternalKeyComparator (mt_comparator m))) (mt_table m) it"

definition mti_key :: "MemTable \<Rightarrow> nat option \<Rightarrow> bytes" where
  "mti_key m it = mt_GetLengthPrefixedSlice (sl_key (mt_table m) it)"

text \<open>The value starts where the key slice, a part of the entry, ends.\<close>

definition mti_value :: "MemTable \<Rightarrow> nat option \<Rightarrow> bytes" where
  "mti_value m it =
     (let entry = sl_key (mt_table m) it;
          (len, rest) = the (GetVarint32Ptr (take 5 entry))
      in mt_GetLengthPrefixedSlice (drop (length (take 5 entry) - length rest + unat len) entry))"

section \<open>Entries\<close>

record mem_entry =
  me_key :: bytes
  me_seq :: u64
  me_type :: ValueType
  me_value :: bytes

definition me_ikey :: "mem_entry \<Rightarrow> bytes" where
  "me_ikey e = InternalKey (me_key e) (me_seq e) (me_type e)"

definition mem_encode :: "mem_entry \<Rightarrow> bytes" where
  "mem_encode e = PutLengthPrefixedSlice [] (me_ikey e) @ PutLengthPrefixedSlice [] (me_value e)"

definition me_ok :: "mem_entry \<Rightarrow> bool" where
  "me_ok e \<longleftrightarrow> length (me_key e) + 8 < 2 ^ 32 \<and> length (me_value e) < 2 ^ 32 \<and> me_seq e \<le> kMaxSequenceNumber"

text \<open>The buffers the comparator may be called with: they start with a length-prefixed internal key.\<close>

definition entry_ok :: "bytes \<Rightarrow> bool" where
  "entry_ok b \<longleftrightarrow> (\<exists>k rest. b = PutLengthPrefixedSlice [] k @ rest \<and> 8 \<le> length k \<and> length k < 2 ^ 32)"

lemma varint32_take5:
  "\<exists>rest'. GetVarint32Ptr (take 5 (EncodeVarint32 n @ rest)) = Some (n, rest')
     \<and> length (take 5 (EncodeVarint32 n @ rest)) - length rest' = length (EncodeVarint32 n)"
proof -
  have "take 5 (EncodeVarint32 n @ rest) = EncodeVarint32 n @ take (5 - length (EncodeVarint32 n)) rest"
    using varint_length_bounds(2) [of n] by simp
  then show ?thesis using GetVarint32_Encode [of n] by (simp add: GetVarint32_def)
qed

lemma mt_GetLengthPrefixedSlice_Put [simp]:
  assumes "length k < 2 ^ 32"
  shows "mt_GetLengthPrefixedSlice (PutLengthPrefixedSlice [] k @ rest) = k"
proof -
  define n :: u32 where "n = of_nat (length k)"
  have n: "unat n = length k" using assms by (simp add: n_def unat_of_nat take_bit_nat_eq_self)
  have e: "PutLengthPrefixedSlice [] k @ rest = EncodeVarint32 n @ k @ rest"
    by (simp add: PutLengthPrefixedSlice_def PutVarint32_def n_def)
  obtain r where "GetVarint32Ptr (take 5 (EncodeVarint32 n @ k @ rest)) = Some (n, r)"
    and l: "length (take 5 (EncodeVarint32 n @ k @ rest)) - length r = length (EncodeVarint32 n)"
    using varint32_take5 by blast
  then have "mt_GetLengthPrefixedSlice (PutLengthPrefixedSlice [] k @ rest)
    = take (unat n) (drop (length (EncodeVarint32 n)) (EncodeVarint32 n @ k @ rest))"
    unfolding mt_GetLengthPrefixedSlice_def e by (simp only: option.case prod.case l)
  then show ?thesis by (simp add: n)
qed

lemma mem_encode_ok: "me_ok e \<Longrightarrow> entry_ok (mem_encode e)"
  unfolding entry_ok_def mem_encode_def me_ok_def me_ikey_def by (metis InternalKey_parts(3) le_add2)

lemma entry_okE:
  assumes "entry_ok b"
  obtains k rest where "b = PutLengthPrefixedSlice [] k @ rest" "8 \<le> length k" "length k < 2 ^ 32"
    "mt_GetLengthPrefixedSlice b = k"
  using assms mt_GetLengthPrefixedSlice_Put unfolding entry_ok_def by metis

lemma mt_slice_encode [simp]: "me_ok e \<Longrightarrow> mt_GetLengthPrefixedSlice (mem_encode e) = me_ikey e"
  by (simp add: mem_encode_def me_ok_def me_ikey_def)

lemma mt_Add_entry:
  "me_ok e \<Longrightarrow> EncodeVarint32 (of_nat (length (me_key e) + 8)) @ me_key e
     @ EncodeFixed64 (push_bit 8 (me_seq e) OR type_code (me_type e))
     @ EncodeVarint32 (of_nat (length (me_value e))) @ me_value e = mem_encode e"
  by (simp add: mem_encode_def me_ikey_def InternalKey_eq PutLengthPrefixedSlice_def PutVarint32_def PackSequenceAndType_def)

lemma mt_Add_Insert:
  assumes "me_ok e" "Insert (KeyComparator (InternalKeyComparator (mt_comparator m))) (mem_encode e) (mt_table m) = Some t"
  shows "\<exists>ar. mt_Add heap_new (me_seq e) (me_type e) (me_key e) (me_value e) m = Some (m\<lparr> mt_arena := ar, mt_table := t \<rparr>)"
  unfolding mt_Add_def Let_def mt_Add_entry [OF assms(1)] assms(2) by (auto split: prod.split)

context sl_order
begin

lemma Seek_rep:
  assumes "sl_rep compare key_ok s ks" "key_ok key"
  shows "\<exists>it. sl_Seek compare s key = Some it
    \<and> (case dropWhile (\<lambda>k. 0 < compare key k) ks of
         [] \<Rightarrow> it = None
       | k # _ \<Rightarrow> it \<noteq> None \<and> sl_key s it = k)"
proof -
  obtain L where L: "sl_inv compare key_ok s L" "ks = map (node_key s) L" by (rule sl_repE [OF assms(1)])
  obtain prev where f: "FindGreaterOrEqual compare s key = Some (first_of (dropWhile (below s key) L), prev)"
    using FindGE_eq [OF L(1) assms(2)] by blast
  have "below s key = (\<lambda>k. 0 < compare key k) \<circ> node_key s" by (auto simp: below_def)
  then have d: "dropWhile (\<lambda>k. 0 < compare key k) ks = map (node_key s) (dropWhile (below s key) L)"
    by (simp add: L(2) dropWhile_map)
  define D where "D = dropWhile (below s key) L"
  show ?thesis
    using f unfolding d D_def [symmetric] by (cases D) (simp_all add: sl_Seek_def sl_key_def first_of_def)
qed

end

section \<open>The memtable over an order of user keys\<close>

sublocale internal_keys \<subseteq> mt: sl_order "KeyComparator (InternalKeyComparator ucmp)" entry_ok
proof (unfold_locales, goal_cases)
  case (1 a b)
  then show ?case by (auto simp: KeyComparator_def elim!: entry_okE intro: ik.cmp_sym [THEN iffD1] ik.cmp_sym [THEN iffD2])
next
  case (2 a b c)
  then show ?case unfolding KeyComparator_def by (metis ik.cmp_less_trans entry_okE)
qed

text \<open>
  The table \<open>m\<close> over the user comparator \<open>ucmp\<close> stores the entries \<open>es\<close>, in the order of their
  internal keys.
\<close>

definition mt_rep :: "comparator \<Rightarrow> MemTable \<Rightarrow> mem_entry list \<Rightarrow> bool" where
  "mt_rep ucmp m es \<longleftrightarrow> mt_comparator m = ucmp \<and> (\<forall>e\<in>set es. me_ok e)
     \<and> sl_rep (KeyComparator (InternalKeyComparator ucmp)) entry_ok (mt_table m) (map mem_encode es)"

fun mt_AddAll :: "heap_allocator \<Rightarrow> mem_entry list \<Rightarrow> MemTable \<Rightarrow> MemTable option" where
  "mt_AddAll heap_new [] m = Some m"
| "mt_AddAll heap_new (e # es) m =
     (case mt_Add heap_new (me_seq e) (me_type e) (me_key e) (me_value e) m of
        None \<Rightarrow> None
      | Some m \<Rightarrow> mt_AddAll heap_new es m)"

text \<open>The versions of \<open>k\<close> that a reader at sequence number \<open>s\<close> may see, and what a lookup makes of the newest.\<close>

definition mem_visible :: "mem_entry list \<Rightarrow> bytes \<Rightarrow> u64 \<Rightarrow> mem_entry list" where
  "mem_visible es k s = filter (\<lambda>e. me_key e = k \<and> me_seq e \<le> s) es"

definition get_result :: "mem_entry \<Rightarrow> bytes \<Rightarrow> status \<Rightarrow> bool \<times> bytes \<times> status" where
  "get_result e value st =
     (case me_type e of kTypeValue \<Rightarrow> (True, me_value e, st) | kTypeDeletion \<Rightarrow> (True, value, NotFound []))"

lemma entry_parse:
  assumes "me_ok e"
  shows "\<exists>rest. GetVarint32Ptr (take 5 (mem_encode e)) = Some (of_nat (length (me_key e) + 8), rest)
    \<and> drop (length (take 5 (mem_encode e)) - length rest) (mem_encode e) = me_ikey e @ PutLengthPrefixedSlice [] (me_value e)"
proof -
  have e: "mem_encode e = EncodeVarint32 (of_nat (length (me_key e) + 8)) @ me_ikey e @ PutLengthPrefixedSlice [] (me_value e)"
    by (simp add: mem_encode_def PutLengthPrefixedSlice_def PutVarint32_def me_ikey_def)
  show ?thesis
    using varint32_take5 [of "of_nat (length (me_key e) + 8)" "me_ikey e @ PutLengthPrefixedSlice [] (me_value e)"]
    unfolding e [symmetric] by (metis append_eq_conv_conj e)
qed

lemma mt_Get_entry:
  assumes e: "me_ok e" and "sl_Seek (KeyComparator (InternalKeyComparator (mt_comparator m))) (mt_table m) (lk_memtable_key key) = Some it"
    and it: "it \<noteq> None" "sl_key (mt_table m) it = mem_encode e"
  shows "mt_Get m key value st = Some (if Compare (mt_comparator m) (me_key e) (lk_user_key key) = 0
    then get_result e value st else (False, value, st))"
proof -
  define n :: u32 where "n = of_nat (length (me_key e) + 8)"
  have n: "unat n = length (me_key e) + 8"
    using e unfolding n_def me_ok_def by (simp only: unat_of_nat) (simp add: take_bit_nat_eq_self)
  obtain rest where r: "GetVarint32Ptr (take 5 (mem_encode e)) = Some (n, rest)"
    "drop (length (take 5 (mem_encode e)) - length rest) (mem_encode e) = me_ikey e @ PutLengthPrefixedSlice [] (me_value e)"
    using entry_parse [OF e] unfolding n_def by blast
  have ik: "me_ikey e = me_key e @ EncodeFixed64 (PackSequenceAndType (me_seq e) (me_type e))"
    by (simp add: me_ikey_def InternalKey_eq)
  have v: "mt_GetLengthPrefixedSlice (PutLengthPrefixedSlice [] (me_value e)) = me_value e"
    using mt_GetLengthPrefixedSlice_Put [of "me_value e" "[]"] e by (simp add: me_ok_def)
  have tag: "PackSequenceAndType (me_seq e) (me_type e) AND 255 = type_code (me_type e)"
    using e Pack_fields(2) by (simp add: me_ok_def)
  show ?thesis
    unfolding mt_Get_def Let_def assms(2) option.case it(2) r(1) option.sel prod.case r(2) n
    using it(1) tag by (cases "me_type e") (simp_all add: sl_Valid_def ik v get_result_def)
qed

context internal_keys
begin

lemma mem_compare:
  "me_ok e \<Longrightarrow> me_ok f \<Longrightarrow>
     KeyComparator (InternalKeyComparator ucmp) (mem_encode e) (mem_encode f)
     = Compare (InternalKeyComparator ucmp) (me_ikey e) (me_ikey f)"
  by (simp add: KeyComparator_def)

lemma mt_rep_init: "mt_rep ucmp (MemTable_init heap_new ucmp) []"
  by (simp add: mt_rep_def MemTable_init_def sl_rep_init)

lemma mt_Add_rep:
  assumes rep: "mt_rep ucmp m es" and e: "me_ok e" and new: "\<forall>f\<in>set es. me_key f = me_key e \<longrightarrow> me_seq f \<noteq> me_seq e"
  shows "\<exists>m'. mt_Add heap_new (me_seq e) (me_type e) (me_key e) (me_value e) m = Some m'
    \<and> mt_rep ucmp m' (takeWhile (\<lambda>f. Compare (InternalKeyComparator ucmp) (me_ikey f) (me_ikey e) < 0) es
        @ e # dropWhile (\<lambda>f. Compare (InternalKeyComparator ucmp) (me_ikey f) (me_ikey e) < 0) es)"
proof -
  let ?cmp = "KeyComparator (InternalKeyComparator ucmp)"
  let ?P = "\<lambda>f. Compare (InternalKeyComparator ucmp) (me_ikey f) (me_ikey e) < 0"
  have ok: "\<forall>f\<in>set es. me_ok f" and sl: "sl_rep ?cmp entry_ok (mt_table m) (map mem_encode es)"
    and c: "mt_comparator m = ucmp" using rep by (auto simp: mt_rep_def)
  have "?cmp (mem_encode e) k \<noteq> 0" if k: "k \<in> set (map mem_encode es)" for k
  proof -
    obtain f where f: "f \<in> set es" "k = mem_encode f" using k by auto
    then have "me_ok f" using ok by blast
    moreover have "Compare (InternalKeyComparator ucmp) (me_ikey e) (me_ikey f) \<noteq> 0"
      using new f(1) e \<open>me_ok f\<close> Pack_fields(1) unfolding ik_eq me_ikey_def me_ok_def by simp metis
    ultimately show ?thesis using e f(2) by (simp add: mem_compare)
  qed
  from mt.Insert_rep [OF sl mem_encode_ok [OF e] this] obtain t where
    t: "Insert ?cmp (mem_encode e) (mt_table m) = Some t"
    "sl_rep ?cmp entry_ok t (takeWhile (\<lambda>k. ?cmp k (mem_encode e) < 0) (map mem_encode es)
       @ mem_encode e # dropWhile (\<lambda>k. ?cmp k (mem_encode e) < 0) (map mem_encode es))" by blast
  have "takeWhile ((\<lambda>k. ?cmp k (mem_encode e) < 0) \<circ> mem_encode) es = takeWhile ?P es"
    "dropWhile ((\<lambda>k. ?cmp k (mem_encode e) < 0) \<circ> mem_encode) es = dropWhile ?P es"
    using ok e by (auto simp: mem_compare intro: takeWhile_cong dropWhile_cong)
  with t(2) have "sl_rep ?cmp entry_ok t (map mem_encode (takeWhile ?P es @ e # dropWhile ?P es))"
    by (simp add: takeWhile_map dropWhile_map)
  moreover have "\<forall>f\<in>set (takeWhile ?P es @ e # dropWhile ?P es). me_ok f"
    using ok e by (auto dest: set_takeWhileD set_dropWhileD)
  moreover obtain ar where "mt_Add heap_new (me_seq e) (me_type e) (me_key e) (me_value e) m
    = Some (m\<lparr> mt_arena := ar, mt_table := t \<rparr>)"
    using mt_Add_Insert [OF e t(1) [folded c]] by blast
  ultimately show ?thesis using c by (auto simp: mt_rep_def)
qed

lemma mt_rep_sorted:
  assumes "mt_rep ucmp m es"
  shows "sorted_wrt (\<lambda>e f. Compare (InternalKeyComparator ucmp) (me_ikey e) (me_ikey f) < 0) es"
proof -
  obtain L where L: "sl_inv (KeyComparator (InternalKeyComparator ucmp)) entry_ok (mt_table m) L"
    "map mem_encode es = map (node_key (mt_table m)) L"
    using assms by (auto simp: mt_rep_def sl_rep_def)
  have "sorted_wrt (\<lambda>a b. KeyComparator (InternalKeyComparator ucmp) a b < 0) (map mem_encode es)"
    using L(1) unfolding L(2) by (simp add: sl_inv_def sorted_wrt_map)
  then have "sorted_wrt (\<lambda>e f. KeyComparator (InternalKeyComparator ucmp) (mem_encode e) (mem_encode f) < 0) es"
    by (simp add: sorted_wrt_map)
  then show ?thesis
    by (rule sorted_wrt_mono_rel [rotated]) (use assms in \<open>auto simp: mt_rep_def mem_compare\<close>)
qed

lemma before_lookup:
  assumes "me_ok e" "s \<le> kMaxSequenceNumber"
  shows "0 < Compare (InternalKeyComparator ucmp) (InternalKey k s kValueTypeForSeek) (me_ikey e) \<longleftrightarrow>
    Compare ucmp (me_key e) k < 0 \<or> me_key e = k \<and> s < me_seq e"
  using assms Pack_less_iff [of s "me_seq e" kTypeValue "me_type e"]
  unfolding ik_greater by (auto simp: me_ikey_def me_ok_def kValueTypeForSeek_def)

text \<open>Seeking the lookup key ends at the first visible version, which is the newest.\<close>

lemma dropWhile_lookup:
  assumes "\<forall>e\<in>set es. me_ok e" "s \<le> kMaxSequenceNumber"
    "sorted_wrt (\<lambda>e f. Compare (InternalKeyComparator ucmp) (me_ikey e) (me_ikey f) < 0) es"
  shows "(case dropWhile (\<lambda>e. 0 < Compare (InternalKeyComparator ucmp) (InternalKey k s kValueTypeForSeek) (me_ikey e)) es of
      [] \<Rightarrow> mem_visible es k s = []
    | e # _ \<Rightarrow> me_ok e \<and> (if me_key e = k then (\<exists>fs. mem_visible es k s = e # fs \<and> (\<forall>f\<in>set fs. me_seq f \<le> me_seq e))
        else mem_visible es k s = []))"
  using assms
proof (induction es)
  case (Cons e es)
  have ok: "me_ok e" using Cons.prems(1) by simp
  show ?case
  proof (cases "0 < Compare (InternalKeyComparator ucmp) (InternalKey k s kValueTypeForSeek) (me_ikey e)")
    case True
    then have "\<not> (me_key e = k \<and> me_seq e \<le> s)"
      using before_lookup [OF ok Cons.prems(2)] user.cmp_refl by auto
    then have v: "mem_visible (e # es) k s = mem_visible es k s" by (auto simp: mem_visible_def)
    show ?thesis using Cons True unfolding v by simp
  next
    case False
    then have f: "\<not> Compare ucmp (me_key e) k < 0" "me_key e = k \<Longrightarrow> me_seq e \<le> s"
      unfolding before_lookup [OF ok Cons.prems(2)] by auto
    have after: "Compare ucmp (me_key e) (me_key g) < 0 \<or> me_key e = me_key g \<and> me_seq g \<le> me_seq e" if "g \<in> set es" for g
    proof -
      have "me_ok g" "Compare (InternalKeyComparator ucmp) (me_ikey e) (me_ikey g) < 0" using Cons.prems that by auto
      then show ?thesis using ok Pack_less_iff [of "me_seq g" "me_seq e" "me_type g" "me_type e"]
        unfolding ik_less me_ikey_def me_ok_def by auto
    qed
    have "mem_visible es k s = []" if "me_key e \<noteq> k"
    proof -
      have "Compare ucmp k (me_key e) < 0"
        using f(1) that user.cmp_eq_iff [of "me_key e" k] user.cmp_sym [of k "me_key e"] by auto
      then have "Compare ucmp k (me_key g) < 0" if "g \<in> set es" for g
        using after [OF that] user.cmp_less_trans by (metis (full_types))
      then have "me_key g \<noteq> k" if "g \<in> set es" for g using that user.cmp_refl [of k] by force
      then show ?thesis by (simp add: mem_visible_def)
    qed
    moreover have "\<forall>g\<in>set (mem_visible es k s). me_seq g \<le> me_seq e" if "me_key e = k"
      using after that user.cmp_refl by (force simp: mem_visible_def)
    ultimately show ?thesis using False f(2) ok by (auto simp: mem_visible_def)
  qed
qed (simp add: mem_visible_def)

lemma mt_Get_rep:
  assumes rep: "mt_rep ucmp m es" and k: "length k + 8 < 2 ^ 32" and s: "s \<le> kMaxSequenceNumber"
  shows "(mem_visible es k s = [] \<longrightarrow> mt_Get m (LookupKey_init k s) value st = Some (False, value, st))
    \<and> (\<forall>e fs. mem_visible es k s = e # fs \<longrightarrow> mt_Get m (LookupKey_init k s) value st = Some (get_result e value st)
         \<and> (\<forall>f\<in>set fs. me_seq f \<le> me_seq e))"
proof -
  let ?cmp = "KeyComparator (InternalKeyComparator ucmp)" and ?ik = "InternalKey k s kValueTypeForSeek"
  let ?D = "dropWhile (\<lambda>e. 0 < Compare (InternalKeyComparator ucmp) ?ik (me_ikey e)) es"
  have ok: "\<forall>e\<in>set es. me_ok e" and c: "mt_comparator m = ucmp"
    and sl: "sl_rep ?cmp entry_ok (mt_table m) (map mem_encode es)" using rep by (auto simp: mt_rep_def)
  have key: "lk_memtable_key (LookupKey_init k s) = PutLengthPrefixedSlice [] ?ik @ []" using LookupKey_views(3) [OF k] by simp
  have kok: "entry_ok (lk_memtable_key (LookupKey_init k s))"
    unfolding key entry_ok_def by (rule exI [of _ ?ik], rule exI [of _ "[]"]) (use k in simp)
  have kik: "mt_GetLengthPrefixedSlice (lk_memtable_key (LookupKey_init k s)) = ?ik"
    unfolding key by (rule mt_GetLengthPrefixedSlice_Put) (use k in simp)
  have "dropWhile ((\<lambda>b. 0 < ?cmp (lk_memtable_key (LookupKey_init k s)) b) \<circ> mem_encode) es = ?D"
    using ok kik by (auto simp: KeyComparator_def intro: dropWhile_cong)
  then have D: "dropWhile (\<lambda>b. 0 < ?cmp (lk_memtable_key (LookupKey_init k s)) b) (map mem_encode es) = map mem_encode ?D"
    by (simp add: dropWhile_map)
  note seek = mt.Seek_rep [OF sl kok, unfolded D] and look = dropWhile_lookup [OF ok s mt_rep_sorted [OF rep], of k]
  show ?thesis
  proof (cases ?D)
    case Nil
    then show ?thesis using seek look unfolding Nil by (auto simp: mt_Get_def c sl_Valid_def)
  next
    case (Cons e fs)
    then obtain it where it: "sl_Seek ?cmp (mt_table m) (lk_memtable_key (LookupKey_init k s)) = Some it"
      "it \<noteq> None" "sl_key (mt_table m) it = mem_encode e" and e: "me_ok e"
      using seek look unfolding Cons by auto
    have "mt_Get m (LookupKey_init k s) value st =
      Some (if me_key e = k then get_result e value st else (False, value, st))"
      using mt_Get_entry [OF e, of m "LookupKey_init k s"] it user.cmp_eq_iff [of "me_key e" k]
      by (simp add: c LookupKey_views)
    then show ?thesis using look unfolding Cons by (auto split: if_splits)
  qed
qed

lemma mt_AddAll_rep:
  assumes "mt_rep ucmp m fs" "\<forall>e\<in>set es. me_ok e" "distinct (map (\<lambda>e. (me_key e, me_seq e)) (fs @ es))"
  shows "\<exists>m' gs. mt_AddAll heap_new es m = Some m' \<and> mt_rep ucmp m' gs \<and> mset gs = mset fs + mset es"
  using assms
proof (induction es arbitrary: m fs)
  case (Cons e es)
  let ?P = "\<lambda>f. Compare (InternalKeyComparator ucmp) (me_ikey f) (me_ikey e) < 0"
  let ?fs = "takeWhile ?P fs @ e # dropWhile ?P fs"
  have ms: "mset ?fs = mset (fs @ [e])"
    using mset_append [of "takeWhile ?P fs" "dropWhile ?P fs"] unfolding takeWhile_dropWhile_id by simp
  have "\<forall>f\<in>set fs. me_key f = me_key e \<longrightarrow> me_seq f \<noteq> me_seq e" 
  proof -
    have "(me_key e, me_seq e) \<notin> (\<lambda>e. (me_key e, me_seq e)) ` set fs" using Cons.prems(3) by simp
    then show ?thesis by (metis (no_types, lifting) image_eqI)
  qed
  then obtain m1 where m1: "mt_Add heap_new (me_seq e) (me_type e) (me_key e) (me_value e) m = Some m1"
    "mt_rep ucmp m1 ?fs" using mt_Add_rep [OF Cons.prems(1), of e heap_new] Cons.prems(2) by auto
  have "mset (map (\<lambda>e. (me_key e, me_seq e)) (?fs @ es)) = mset (map (\<lambda>e. (me_key e, me_seq e)) (fs @ e # es))"
    using arg_cong [OF ms, of "image_mset (\<lambda>e. (me_key e, me_seq e))"] by simp
  then have "distinct (map (\<lambda>e. (me_key e, me_seq e)) (?fs @ es))" 
    using Cons.prems(3) mset_eq_imp_distinct_iff by blast
  from Cons.IH [OF m1(2) _ this] Cons.prems(2) obtain m' gs where
    "mt_AddAll heap_new es m1 = Some m'" "mt_rep ucmp m' gs" "mset gs = mset ?fs + mset es" by auto
  then show ?case using m1(1) unfolding ms by (intro exI [of _ m'] exI [of _ gs]) simp
qed auto

end

section \<open>Properties\<close>

text \<open>
  C18: A memtable answers like the newest visible version.  Adding any entries with distinct
  (user key, sequence number) pairs to a fresh table succeeds, and a lookup of \<open>k\<close> at sequence
  number \<open>s\<close> then finds the entry of \<open>k\<close> with the greatest sequence number not above \<open>s\<close>: it
  returns that entry's value, or NotFound if that entry is a deletion, and reports that the table
  does not decide the lookup exactly when no entry of \<open>k\<close> is visible.
\<close>

theorem memtable_get_newest:
  assumes "internal_keys ucmp" "\<forall>e\<in>set es. me_ok e" "distinct (map (\<lambda>e. (me_key e, me_seq e)) es)"
    "length k + 8 < 2 ^ 32" "s \<le> kMaxSequenceNumber"
  shows "\<exists>m. mt_AddAll heap_new es (MemTable_init heap_new ucmp) = Some m
    \<and> ((\<forall>e\<in>set es. me_key e = k \<longrightarrow> s < me_seq e) \<longrightarrow>
         mt_Get m (LookupKey_init k s) value st = Some (False, value, st))
    \<and> (\<forall>e\<in>set es. me_key e = k \<and> me_seq e \<le> s
           \<and> (\<forall>f\<in>set es. me_key f = k \<and> me_seq f \<le> s \<longrightarrow> me_seq f \<le> me_seq e) \<longrightarrow>
         mt_Get m (LookupKey_init k s) value st = Some (get_result e value st))"
proof -
  obtain m gs where m: "mt_AddAll heap_new es (MemTable_init heap_new ucmp) = Some m" "mt_rep ucmp m gs" "mset gs = mset es"
    using internal_keys.mt_AddAll_rep [OF assms(1) internal_keys.mt_rep_init [OF assms(1), of heap_new] assms(2),
        of heap_new] assms(3) by auto
  have sg: "set gs = set es" and inj: "inj_on (\<lambda>e. (me_key e, me_seq e)) (set es)"
    using m(3) assms(3) by (auto simp: distinct_map dest: mset_eq_setD)
  note get = internal_keys.mt_Get_rep [OF assms(1) m(2) assms(4,5), of "value" st]
  have "mt_Get m (LookupKey_init k s) value st = Some (get_result e value st)"
    if e: "e \<in> set es" "me_key e = k" "me_seq e \<le> s"
      and max: "\<forall>f\<in>set es. me_key f = k \<and> me_seq f \<le> s \<longrightarrow> me_seq f \<le> me_seq e" for e
  proof -
    have "e \<in> set (mem_visible gs k s)" using e sg by (simp add: mem_visible_def)
    then obtain g fs where g: "mem_visible gs k s = g # fs" by (cases "mem_visible gs k s") auto
    then have "g \<in> set es" "me_key g = k" "me_seq g \<le> s" using sg list.set_intros(1) [of g fs]
      unfolding g [symmetric] by (auto simp: mem_visible_def)
    moreover have "me_seq e \<le> me_seq g" using get g \<open>e \<in> set (mem_visible gs k s)\<close> by auto
    ultimately have "g = e" using max e inj by (auto simp: inj_on_def intro: antisym)
    then show ?thesis using get g by blast
  qed
  moreover have "mem_visible gs k s = []" if "\<forall>e\<in>set es. me_key e = k \<longrightarrow> s < me_seq e"
    using that sg by (simp add: mem_visible_def filter_empty_conv not_le)
  ultimately show ?thesis using m(1) get by blast
qed

theorem memtable_get_newest_witness:
  "\<exists>m. mt_AddAll bump_new [\<lparr> me_key = [97], me_seq = 5, me_type = kTypeValue, me_value = [1] \<rparr>,
      \<lparr> me_key = [97], me_seq = 7, me_type = kTypeDeletion, me_value = [] \<rparr>] (MemTable_init bump_new BytewiseComparator) = Some m
    \<and> mt_Get m (LookupKey_init [97] 6) [] OK = Some (True, [1], OK)"
  (is "\<exists>m. mt_AddAll _ ?es _ = _ \<and> _")
  using memtable_get_newest [OF bw.internal_keys_axioms, of ?es "[97]" 6 bump_new "[]" OK]
  by (simp add: me_ok_def get_result_def kMaxSequenceNumber_def)

end
