(* ===== verification/Write_Batch.thy ===== *)
theory Write_Batch
  imports Memtable
begin

text \<open>
  Write batches (\<^verbatim>\<open>src/db/write_batch.cc\<close>, \<^verbatim>\<open>src/db/write_batch_internal.h\<close>): a sequence number
  (fixed64), a count (fixed32) and the records.  \<open>int\<close> counts are 32-bit words.
\<close>

section \<open>Representation\<close>

record WriteBatch =
  wb_rep :: bytes

definition kHeader :: nat where "kHeader = 12"

definition wb_Clear :: "WriteBatch \<Rightarrow> WriteBatch" where
  "wb_Clear b = b\<lparr> wb_rep := replicate kHeader 0 \<rparr>"

definition WriteBatch_init :: WriteBatch where
  "WriteBatch_init = wb_Clear \<lparr> wb_rep = [] \<rparr>"

definition wb_ApproximateSize :: "WriteBatch \<Rightarrow> nat" where
  "wb_ApproximateSize b = length (wb_rep b)"

definition wb_Count :: "WriteBatch \<Rightarrow> u32" where
  "wb_Count b = DecodeFixed32 (drop 8 (wb_rep b))"

text \<open>Writing \<open>bs\<close> over the bytes of \<open>rep\<close> from position \<open>i\<close> on.\<close>

definition overwrite :: "nat \<Rightarrow> bytes \<Rightarrow> bytes \<Rightarrow> bytes" where
  "overwrite i bs rep = take i rep @ bs @ drop (i + length bs) rep"

definition wb_SetCount :: "u32 \<Rightarrow> WriteBatch \<Rightarrow> WriteBatch" where
  "wb_SetCount n b = b\<lparr> wb_rep := overwrite 8 (EncodeFixed32 n) (wb_rep b) \<rparr>"

definition wb_Sequence :: "WriteBatch \<Rightarrow> u64" where
  "wb_Sequence b = DecodeFixed64 (wb_rep b)"

definition wb_SetSequence :: "u64 \<Rightarrow> WriteBatch \<Rightarrow> WriteBatch" where
  "wb_SetSequence seq b = b\<lparr> wb_rep := overwrite 0 (EncodeFixed64 seq) (wb_rep b) \<rparr>"

text \<open>\<open>static_cast<char>(kTypeValue)\<close> and \<open>kTypeDeletion\<close>.\<close>

definition type_char :: "ValueType \<Rightarrow> byte" where
  "type_char t = ucast (type_code t)"

definition wb_Put :: "bytes \<Rightarrow> bytes \<Rightarrow> WriteBatch \<Rightarrow> WriteBatch" where
  "wb_Put key value b =
     (let b = wb_SetCount (wb_Count b + 1) b;
          rep = wb_rep b @ [type_char kTypeValue];
          rep = PutLengthPrefixedSlice rep key;
          rep = PutLengthPrefixedSlice rep value
      in b\<lparr> wb_rep := rep \<rparr>)"

definition wb_Delete :: "bytes \<Rightarrow> WriteBatch \<Rightarrow> WriteBatch" where
  "wb_Delete key b =
     (let b = wb_SetCount (wb_Count b + 1) b;
          rep = wb_rep b @ [type_char kTypeDeletion];
          rep = PutLengthPrefixedSlice rep key
      in b\<lparr> wb_rep := rep \<rparr>)"

definition wb_SetContents :: "bytes \<Rightarrow> WriteBatch \<Rightarrow> WriteBatch" where
  "wb_SetContents contents b = b\<lparr> wb_rep := contents \<rparr>"

definition wb_Append :: "WriteBatch \<Rightarrow> WriteBatch \<Rightarrow> WriteBatch" where
  "wb_Append dst src =
     (let dst = wb_SetCount (wb_Count dst + wb_Count src) dst
      in dst\<lparr> wb_rep := wb_rep dst @ drop kHeader (wb_rep src) \<rparr>)"

section \<open>Iteration\<close>

text \<open>\<open>WriteBatch::Handler\<close>, with its object's state passed along.\<close>

record 's wb_handler =
  h_Put :: "bytes \<Rightarrow> bytes \<Rightarrow> 's \<Rightarrow> 's"
  h_Delete :: "bytes \<Rightarrow> 's \<Rightarrow> 's"

function Iterate_loop :: "'s wb_handler \<Rightarrow> bytes \<Rightarrow> u32 \<Rightarrow> 's \<Rightarrow> (status + u32) \<times> 's" where
  "Iterate_loop handler input found st =
     (case input of
        [] \<Rightarrow> (Inr found, st)
      | tag # input \<Rightarrow>
          if tag = type_char kTypeValue then
            (case GetLengthPrefixedSlice input of
               None \<Rightarrow> (Inl (Corruption ''bad WriteBatch Put''), st)
             | Some (key, input) \<Rightarrow>
                 (case GetLengthPrefixedSlice input of
                    None \<Rightarrow> (Inl (Corruption ''bad WriteBatch Put''), st)
                  | Some (value, input) \<Rightarrow> Iterate_loop handler input (found + 1) (h_Put handler key value st)))
          else if tag = type_char kTypeDeletion then
            (case GetLengthPrefixedSlice input of
               None \<Rightarrow> (Inl (Corruption ''bad WriteBatch Delete''), st)
             | Some (key, input) \<Rightarrow> Iterate_loop handler input (found + 1) (h_Delete handler key st))
          else (Inl (Corruption ''unknow WriteBatch tag''), st))"
  by pat_completeness auto
termination
proof (relation "measure (\<lambda>(h, input, f, s). length input)", goal_cases)
  case (2 handler input found st tag input' x key rest y v rest')
  then show ?case using GetLengthPrefixedSlice_shorter [of input' key rest] GetLengthPrefixedSlice_shorter [of rest v rest'] by simp
next
  case (3 handler input found st tag input' x key rest)
  then show ?case using GetLengthPrefixedSlice_shorter [of input' key rest] by simp
qed auto

declare Iterate_loop.simps [simp del]

definition wb_Iterate :: "'s wb_handler \<Rightarrow> WriteBatch \<Rightarrow> 's \<Rightarrow> status \<times> 's" where
  "wb_Iterate handler b st =
     (let input = wb_rep b in
      if length input < kHeader then (Corruption ''malformed WriteBatch (too small)'', st)
      else
        case Iterate_loop handler (drop kHeader input) 0 st of
          (Inl e, st) \<Rightarrow> (e, st)
        | (Inr found, st) \<Rightarrow>
            if found \<noteq> wb_Count b then (Corruption ''WriteBatch has woring count'', st) else (OK, st))"

section \<open>Insertion into a memtable\<close>

text \<open>The inserter's state: the next sequence number and the table.\<close>

type_synonym inserter = "u64 \<times> MemTable option"

definition inserter_add :: "heap_allocator \<Rightarrow> ValueType \<Rightarrow> bytes \<Rightarrow> bytes \<Rightarrow> inserter \<Rightarrow> inserter" where
  "inserter_add heap_new t key value i =
     (case i of (seq, mem) \<Rightarrow>
        (seq + 1, case mem of None \<Rightarrow> None | Some m \<Rightarrow> mt_Add heap_new seq t key value m))"

definition MemTableInserter :: "heap_allocator \<Rightarrow> inserter wb_handler" where
  "MemTableInserter heap_new =
     \<lparr> h_Put = inserter_add heap_new kTypeValue,
       h_Delete = (\<lambda>key. inserter_add heap_new kTypeDeletion key []) \<rparr>"

definition wb_InsertInto :: "heap_allocator \<Rightarrow> WriteBatch \<Rightarrow> MemTable \<Rightarrow> status \<times> MemTable option" where
  "wb_InsertInto heap_new b m =
     (let (s, _, mem) = wb_Iterate (MemTableInserter heap_new) b (wb_Sequence b, Some m) in (s, mem))"

section \<open>The operations a batch stands for\<close>

datatype batch_op = BPut bytes bytes | BDelete bytes

fun op_bytes :: "batch_op \<Rightarrow> bytes" where
  "op_bytes (BPut k v) = type_char kTypeValue # PutLengthPrefixedSlice [] k @ PutLengthPrefixedSlice [] v"
| "op_bytes (BDelete k) = type_char kTypeDeletion # PutLengthPrefixedSlice [] k"

fun op_ok :: "batch_op \<Rightarrow> bool" where
  "op_ok (BPut k v) \<longleftrightarrow> length k + 8 < 2 ^ 32 \<and> length v < 2 ^ 32"
| "op_ok (BDelete k) \<longleftrightarrow> length k + 8 < 2 ^ 32"

fun op_apply :: "'s wb_handler \<Rightarrow> batch_op \<Rightarrow> 's \<Rightarrow> 's" where
  "op_apply h (BPut k v) = h_Put h k v"
| "op_apply h (BDelete k) = h_Delete h k"

text \<open>The batch \<open>b\<close> holds the operations \<open>ops\<close> and starts at \<open>seq\<close>.\<close>

definition wb_is :: "WriteBatch \<Rightarrow> u64 \<Rightarrow> batch_op list \<Rightarrow> bool" where
  "wb_is b seq ops \<longleftrightarrow> wb_rep b = EncodeFixed64 seq @ EncodeFixed32 (of_nat (length ops)) @ concat (map op_bytes ops)"

lemma wb_is_header:
  assumes "wb_is b seq ops"
  shows "wb_Sequence b = seq" "wb_Count b = of_nat (length ops)" "drop kHeader (wb_rep b) = concat (map op_bytes ops)"
    "length (wb_rep b) = kHeader + length (concat (map op_bytes ops))"
  using assms by (simp_all add: wb_is_def wb_Sequence_def wb_Count_def kHeader_def)

lemma wb_is_SetCount:
  "wb_is b seq ops \<Longrightarrow> wb_rep (wb_SetCount n b) = EncodeFixed64 seq @ EncodeFixed32 n @ concat (map op_bytes ops)"
  by (simp add: wb_is_def wb_SetCount_def overwrite_def)

lemma PutLengthPrefixedSlice_append: "PutLengthPrefixedSlice a v = a @ PutLengthPrefixedSlice [] v"
  by (simp add: PutLengthPrefixedSlice_def PutVarint32_def)

lemma wb_is_ops:
  assumes "wb_is b seq ops"
  shows "wb_is (wb_Put k v b) seq (ops @ [BPut k v])" "wb_is (wb_Delete k b) seq (ops @ [BDelete k])"
    "wb_is (wb_SetSequence seq' b) seq' ops"
    "wb_is c seq'' ops'' \<Longrightarrow> wb_is (wb_Append b c) seq (ops @ ops'')"
proof -
  show "wb_is (wb_Put k v b) seq (ops @ [BPut k v])" "wb_is (wb_Delete k b) seq (ops @ [BDelete k])"
    using wb_is_SetCount [OF assms] wb_is_header(2) [OF assms]
    by (simp_all add: wb_Put_def wb_Delete_def wb_is_def Let_def add.commute PutLengthPrefixedSlice_append [of "_ @ _"])
  show "wb_is (wb_SetSequence seq' b) seq' ops"
    using assms by (simp add: wb_is_def wb_SetSequence_def overwrite_def)
  show "wb_is (wb_Append b c) seq (ops @ ops'')" if "wb_is c seq'' ops''"
    using wb_is_SetCount [OF assms] wb_is_header [OF assms] wb_is_header [OF that]
    by (simp add: wb_Append_def wb_is_def Let_def)
qed

lemma wb_is_init: "wb_is (wb_Clear b) 0 []" "wb_is WriteBatch_init 0 []"
  by (simp_all add: wb_is_def wb_Clear_def WriteBatch_init_def kHeader_def EncodeFixed64_def EncodeFixed32_def
      numeral_eq_Suc)

lemma type_char_neq [simp]: "type_char kTypeValue \<noteq> type_char kTypeDeletion" "type_char kTypeDeletion \<noteq> type_char kTypeValue"
  by (simp_all add: type_char_def)

lemma Iterate_loop_ops:
  assumes "\<forall>op\<in>set ops. op_ok op"
  shows "Iterate_loop h (concat (map op_bytes ops)) found st = (Inr (found + of_nat (length ops)), fold (op_apply h) ops st)"
  using assms
proof (induction ops arbitrary: found st)
  case Nil
  then show ?case by (subst Iterate_loop.simps) simp
next
  case (Cons op ops)
  then show ?case by (cases op) (subst Iterate_loop.simps, simp add: algebra_simps)+
qed

lemma wb_Iterate_ops:
  assumes "wb_is b seq ops" "\<forall>op\<in>set ops. op_ok op"
  shows "wb_Iterate h b st = (OK, fold (op_apply h) ops st)"
  using wb_is_header [OF assms(1)] by (simp add: wb_Iterate_def Iterate_loop_ops [OF assms(2)])

text \<open>The memtable entries of a batch: its operations, numbered from its sequence number on.\<close>

fun op_entry :: "u64 \<Rightarrow> batch_op \<Rightarrow> mem_entry" where
  "op_entry seq (BPut k v) = \<lparr> me_key = k, me_seq = seq, me_type = kTypeValue, me_value = v \<rparr>"
| "op_entry seq (BDelete k) = \<lparr> me_key = k, me_seq = seq, me_type = kTypeDeletion, me_value = [] \<rparr>"

fun batch_entries :: "u64 \<Rightarrow> batch_op list \<Rightarrow> mem_entry list" where
  "batch_entries seq [] = []"
| "batch_entries seq (op # ops) = op_entry seq op # batch_entries (seq + 1) ops"

lemma inserter_apply:
  "op_apply (MemTableInserter heap_new) op (seq, mem) = (let e = op_entry seq op in
     (seq + 1, case mem of None \<Rightarrow> None | Some m \<Rightarrow> mt_Add heap_new (me_seq e) (me_type e) (me_key e) (me_value e) m))"
  by (cases op) (simp_all add: MemTableInserter_def inserter_add_def Let_def split: option.split)

lemma inserter_fold:
  "fold (op_apply (MemTableInserter heap_new)) ops (seq, mem)
   = (seq + of_nat (length ops), case mem of None \<Rightarrow> None | Some m \<Rightarrow> mt_AddAll heap_new (batch_entries seq ops) m)"
proof (induction ops arbitrary: seq mem)
  case (Cons op ops)
  show ?case by (cases mem) (simp_all add: Cons.IH inserter_apply Let_def split: option.split)
qed (simp split: option.split)

lemma op_entry_fields:
  "me_seq (op_entry seq op) = seq"
  "op_ok op \<Longrightarrow> seq \<le> kMaxSequenceNumber \<Longrightarrow> me_ok (op_entry seq op)"
  by (cases op; simp add: me_ok_def)+

lemma batch_entries_ok:
  assumes "\<forall>op\<in>set ops. op_ok op" "unat seq + length ops \<le> 2 ^ 56"
  shows "(\<forall>e\<in>set (batch_entries seq ops). me_ok e \<and> unat seq \<le> unat (me_seq e) \<and> unat (me_seq e) < unat seq + length ops)
    \<and> distinct (map me_seq (batch_entries seq ops))"
  using assms
proof (induction ops arbitrary: seq)
  case (Cons op ops)
  have lt: "unat seq + 1 < 2 ^ 64" using Cons.prems(2) by simp
  then have s1: "unat (seq + 1) = unat seq + 1" by (simp add: unat_word_ariths)
  have "me_ok (op_entry seq op)" using Cons.prems by (intro op_entry_fields) (auto simp: le_kMaxSequenceNumber)
  moreover note IH = Cons.IH [of "seq + 1"]
  moreover have "seq \<notin> set (map me_seq (batch_entries (seq + 1) ops))" using IH Cons.prems s1 by fastforce
  ultimately show ?case using Cons.prems s1 by (fastforce simp: op_entry_fields)
qed simp

section \<open>Properties\<close>

text \<open>
  C19: A write batch is the list of its operations: \<open>Clear\<close>, \<open>Put\<close>, \<open>Delete\<close>, \<open>SetSequence\<close> and \<open>Append\<close>
  act on the encoded form as on that list, \<open>Sequence\<close> and \<open>Count\<close> read the header, and iterating a
  batch calls the handler for exactly its operations, in order, and returns OK.
\<close>

theorem write_batch_refines_ops:
  assumes "wb_is b seq ops" "wb_is c seq'' ops''" "\<forall>op\<in>set ops. op_ok op"
  shows "wb_is (wb_Clear b) 0 [] \<and> wb_is (wb_Put k v b) seq (ops @ [BPut k v])
    \<and> wb_is (wb_Delete k b) seq (ops @ [BDelete k]) \<and> wb_is (wb_SetSequence seq' b) seq' ops
    \<and> wb_is (wb_Append b c) seq (ops @ ops'')
    \<and> wb_Sequence b = seq \<and> wb_Count b = of_nat (length ops)
    \<and> wb_Iterate h b st = (OK, fold (op_apply h) ops st)"
  by (intro conjI wb_is_init wb_is_ops [OF assms(1)] wb_is_ops(4) [OF assms(1,2)] wb_is_header [OF assms(1)]
      wb_Iterate_ops [OF assms(1,3)])

theorem write_batch_refines_ops_witness:
  "wb_Iterate \<lparr> h_Put = (\<lambda>k v xs. xs @ [k @ v]), h_Delete = (\<lambda>k xs. xs @ [k]) \<rparr>
     (wb_Delete [9] (wb_Put [1, 2] [3] WriteBatch_init)) [] = (OK, [[1, 2, 3], [9]])"
proof -
  have "wb_is (wb_Delete [9] (wb_Put [1, 2] [3] WriteBatch_init)) 0 [BPut [1, 2] [3], BDelete [9]]"
    using wb_is_ops(2) [OF wb_is_ops(1) [OF wb_is_init(2)]] by fastforce
  from write_batch_refines_ops [OF this this, of "[]" "[]" 0 "\<lparr> h_Put = (\<lambda>k v xs. xs @ [k @ v]), h_Delete = (\<lambda>k xs. xs @ [k]) \<rparr>" "[]"]
  show ?thesis by simp
qed

text \<open>
  C20: Applying a batch to a memtable.  If the batch's sequence numbers are new to the table and do
  not exceed 56 bits, \<open>InsertInto\<close> returns OK, and the table then holds its old entries and one
  entry for every operation of the batch, numbered consecutively from the batch's sequence number.
\<close>

theorem batch_insert_into_memtable:
  assumes "internal_keys ucmp" "mt_rep ucmp m es" "distinct (map (\<lambda>e. (me_key e, me_seq e)) es)"
    "wb_is b seq ops" "\<forall>op\<in>set ops. op_ok op" "unat seq + length ops \<le> 2 ^ 56" "\<forall>e\<in>set es. me_seq e < seq"
  shows "\<exists>m' gs. wb_InsertInto heap_new b m = (OK, Some m') \<and> mt_rep ucmp m' gs
    \<and> mset gs = mset es + mset (batch_entries seq ops)
    \<and> distinct (map (\<lambda>e. (me_key e, me_seq e)) gs) \<and> (\<forall>g\<in>set gs. unat (me_seq g) < unat seq + length ops)"
proof -
  let ?bs = "batch_entries seq ops" and ?f = "\<lambda>e. (me_key e, me_seq e)"
  note bs = batch_entries_ok [OF assms(5,6)]
  have d: "distinct (map ?f ?bs)"
    using bs distinct_map [of snd "map ?f ?bs"] by (simp add: comp_def)
  have lt: "me_seq e < me_seq f" if "e \<in> set es" "f \<in> set ?bs" for e f
    using bs assms(7) that by (meson order_less_le_trans word_le_nat_alt)
  then have "distinct (map ?f (es @ ?bs))" using assms(3) d by fastforce
  then obtain m' gs where m': "mt_AddAll heap_new ?bs m = Some m'" "mt_rep ucmp m' gs" "mset gs = mset es + mset ?bs"
    using internal_keys.mt_AddAll_rep [OF assms(1,2), of ?bs] bs by blast
  have "mset (map ?f gs) = mset (map ?f (es @ ?bs))" using m'(3) by simp
  then have "distinct (map ?f gs)" using \<open>distinct (map ?f (es @ ?bs))\<close> mset_eq_imp_distinct_iff by blast
  moreover have "\<forall>g\<in>set gs. unat (me_seq g) < unat seq + length ops"
  proof -
    have "set gs = set es \<union> set ?bs" using m'(3) by (metis mset_append set_append set_mset_mset)
    then show ?thesis using bs assms(7) by (auto simp: word_less_nat_alt trans_less_add1)
  qed
  moreover have "wb_InsertInto heap_new b m = (OK, Some m')"
    by (simp add: wb_InsertInto_def wb_Iterate_ops [OF assms(4,5)] inserter_fold wb_is_header [OF assms(4)] m'(1))
  ultimately show ?thesis using m' by blast
qed

theorem batch_insert_into_memtable_witness:
  "\<exists>m'. wb_InsertInto bump_new (wb_SetSequence 7 (wb_Put [1] [2] WriteBatch_init)) (MemTable_init bump_new BytewiseComparator) = (OK, Some m')"
proof -
  have "wb_is (wb_SetSequence 7 (wb_Put [1] [2] WriteBatch_init)) 7 [BPut [1] [2]]"
    using wb_is_ops(3) [OF wb_is_ops(1) [OF wb_is_init(2)]] by fastforce
  from batch_insert_into_memtable [OF bw.internal_keys_axioms bw.mt_rep_init [of bump_new] _ this, of bump_new] show ?thesis by auto
qed

end
