(* ===== verification/Iterators.thy ===== *)
theory Iterators
  imports Comparators
begin

text \<open>
  The iterator interface (\<^verbatim>\<open>include/iterator.h\<close>, \<^verbatim>\<open>src/table/iterator.cc\<close>) and the caching wrapper
  (\<^verbatim>\<open>src/table/iterator_wrapper.h\<close>).  An iterator class is a record of functions on the state of its
  objects; the locale \<open>sorted_iterator\<close> is what an iterator over a sorted list of entries promises.
  The list of cleanup functions run by the destructor is not modelled.
\<close>

section \<open>The interface\<close>

record 's Iterator =
  it_Valid :: "'s \<Rightarrow> bool"
  it_SeekToFirst :: "'s \<Rightarrow> 's"
  it_SeekToLast :: "'s \<Rightarrow> 's"
  it_Seek :: "bytes \<Rightarrow> 's \<Rightarrow> 's"
  it_Next :: "'s \<Rightarrow> 's"
  it_Prev :: "'s \<Rightarrow> 's"
  it_key :: "'s \<Rightarrow> bytes"
  it_value :: "'s \<Rightarrow> bytes"
  it_status :: "'s \<Rightarrow> status"

text \<open>\<open>EmptyIterator\<close>; its state is its status.\<close>

definition EmptyIterator :: "status Iterator" where
  "EmptyIterator =
     \<lparr> it_Valid = (\<lambda>s. False), it_SeekToFirst = (\<lambda>s. s), it_SeekToLast = (\<lambda>s. s), it_Seek = (\<lambda>t s. s),
       it_Next = (\<lambda>s. s), it_Prev = (\<lambda>s. s), it_key = (\<lambda>s. []), it_value = (\<lambda>s. []), it_status = (\<lambda>s. s) \<rparr>"

definition NewEmptyIterator :: status where "NewEmptyIterator = OK"

definition NewErrorIterator :: "status \<Rightarrow> status" where "NewErrorIterator s = s"

text \<open>Virtual dispatch between two iterator classes.\<close>

definition IteratorSum :: "'a Iterator \<Rightarrow> 'b Iterator \<Rightarrow> ('a + 'b) Iterator" where
  "IteratorSum a b =
     \<lparr> it_Valid = case_sum (it_Valid a) (it_Valid b),
       it_SeekToFirst = map_sum (it_SeekToFirst a) (it_SeekToFirst b),
       it_SeekToLast = map_sum (it_SeekToLast a) (it_SeekToLast b),
       it_Seek = (\<lambda>t. map_sum (it_Seek a t) (it_Seek b t)),
       it_Next = map_sum (it_Next a) (it_Next b), it_Prev = map_sum (it_Prev a) (it_Prev b),
       it_key = case_sum (it_key a) (it_key b), it_value = case_sum (it_value a) (it_value b),
       it_status = case_sum (it_status a) (it_status b) \<rparr>"

section \<open>The caching wrapper\<close>

record 's IteratorWrapper =
  w_iter :: 's
  w_valid :: bool
  w_key :: bytes

definition w_Update :: "'s Iterator \<Rightarrow> 's IteratorWrapper \<Rightarrow> 's IteratorWrapper" where
  "w_Update it w =
     (let w = w\<lparr> w_valid := it_Valid it (w_iter w) \<rparr>
      in if w_valid w then w\<lparr> w_key := it_key it (w_iter w) \<rparr> else w)"

definition w_Set :: "'s Iterator \<Rightarrow> 's \<Rightarrow> 's IteratorWrapper" where
  "w_Set it iter = w_Update it \<lparr> w_iter = iter, w_valid = False, w_key = [] \<rparr>"

definition WrapperIterator :: "'s Iterator \<Rightarrow> 's IteratorWrapper Iterator" where
  "WrapperIterator it =
     \<lparr> it_Valid = w_valid,
       it_SeekToFirst = (\<lambda>w. w_Update it (w\<lparr> w_iter := it_SeekToFirst it (w_iter w) \<rparr>)),
       it_SeekToLast = (\<lambda>w. w_Update it (w\<lparr> w_iter := it_SeekToLast it (w_iter w) \<rparr>)),
       it_Seek = (\<lambda>t w. w_Update it (w\<lparr> w_iter := it_Seek it t (w_iter w) \<rparr>)),
       it_Next = (\<lambda>w. w_Update it (w\<lparr> w_iter := it_Next it (w_iter w) \<rparr>)),
       it_Prev = (\<lambda>w. w_Update it (w\<lparr> w_iter := it_Prev it (w_iter w) \<rparr>)),
       it_key = w_key,
       it_value = (\<lambda>w. it_value it (w_iter w)),
       it_status = (\<lambda>w. it_status it (w_iter w)) \<rparr>"

section \<open>The contract\<close>

type_synonym entries = "(bytes \<times> bytes) list"

definition sorted_entries :: "comparator \<Rightarrow> (bytes \<Rightarrow> bool) \<Rightarrow> entries \<Rightarrow> bool" where
  "sorted_entries cmp key_ok es \<longleftrightarrow>
     (\<forall>e\<in>set es. key_ok (fst e)) \<and> sorted_wrt (\<lambda>e f. Compare cmp (fst e) (fst f) < 0) es"

text \<open>The position of the first entry whose key is not below \<open>t\<close>.\<close>

definition seek_pos :: "comparator \<Rightarrow> bytes \<Rightarrow> entries \<Rightarrow> nat" where
  "seek_pos cmp t es = length (takeWhile (\<lambda>e. Compare cmp (fst e) t < 0) es)"

text \<open>The entries an iterator visits when it is stepped while valid, at most \<open>fuel\<close> times.\<close>

fun it_walk :: "'s Iterator \<Rightarrow> ('s \<Rightarrow> 's) \<Rightarrow> nat \<Rightarrow> 's \<Rightarrow> entries" where
  "it_walk it step 0 s = []"
| "it_walk it step (Suc n) s = (if it_Valid it s then (it_key it s, it_value it s) # it_walk it step n (step s) else [])"

text \<open>
  The calls of a client, which steps an iterator only while it is valid, and the same calls on a cursor into the list
  of entries.
\<close>

datatype it_call = CSeekToFirst | CSeekToLast | CSeek bytes | CNext | CPrev

fun it_run :: "'s Iterator \<Rightarrow> it_call list \<Rightarrow> 's \<Rightarrow> 's" where
  "it_run it [] s = s"
| "it_run it (c # cs) s = it_run it cs
     (case c of CSeekToFirst \<Rightarrow> it_SeekToFirst it s | CSeekToLast \<Rightarrow> it_SeekToLast it s | CSeek t \<Rightarrow> it_Seek it t s
      | CNext \<Rightarrow> (if it_Valid it s then it_Next it s else s) | CPrev \<Rightarrow> (if it_Valid it s then it_Prev it s else s))"

fun cursor_run :: "comparator \<Rightarrow> entries \<Rightarrow> it_call list \<Rightarrow> nat \<Rightarrow> nat" where
  "cursor_run cmp es [] p = p"
| "cursor_run cmp es (c # cs) p = cursor_run cmp es cs
     (case c of CSeekToFirst \<Rightarrow> 0 | CSeekToLast \<Rightarrow> length es - 1 | CSeek t \<Rightarrow> seek_pos cmp t es
      | CNext \<Rightarrow> (if p < length es then Suc p else p)
      | CPrev \<Rightarrow> (if p < length es then if p = 0 then length es else p - 1 else p))"

text \<open>
  What a client sees of a new iterator over \<open>es\<close>.  A full scan in either direction and a scan from any target visit exactly the entries and then end: the
  walk may take one step more than there are entries.  And after every sequence of calls, with any changes of direction, the iterator stands
  where the cursor stands.
\<close>

definition iterates :: "comparator \<Rightarrow> (bytes \<Rightarrow> bool) \<Rightarrow> 's Iterator \<Rightarrow> 's \<Rightarrow> entries \<Rightarrow> bool" where
  "iterates cmp key_ok it s es \<longleftrightarrow>
     it_walk it (it_Next it) (Suc (length es)) (it_SeekToFirst it s) = es
     \<and> it_walk it (it_Prev it) (Suc (length es)) (it_SeekToLast it s) = rev es
     \<and> (\<forall>t. key_ok t \<longrightarrow>
          it_walk it (it_Next it) (Suc (length es)) (it_Seek it t s) = dropWhile (\<lambda>e. Compare cmp (fst e) t < 0) es)
     \<and> (\<forall>cs. (\<forall>t. CSeek t \<in> set cs \<longrightarrow> key_ok t) \<longrightarrow>
          (let s' = it_run it cs s; p = cursor_run cmp es cs (length es)
           in (it_Valid it s' \<longleftrightarrow> p < length es) \<and> (p < length es \<longrightarrow> (it_key it s', it_value it s') = es ! p) \<and> it_status it s' = OK))"

lemma iterates_Seek:
  "iterates cmp key_ok it s es \<Longrightarrow> key_ok t
    \<Longrightarrow> it_walk it (it_Next it) (Suc (length es)) (it_Seek it t s) = dropWhile (\<lambda>e. Compare cmp (fst e) t < 0) es"
  by (simp add: iterates_def)

lemma iterates_run:
  assumes "iterates cmp key_ok it s es" "\<forall>t. CSeek t \<in> set cs \<longrightarrow> key_ok t"
  shows "it_Valid it (it_run it cs s) \<longleftrightarrow> cursor_run cmp es cs (length es) < length es"
    "cursor_run cmp es cs (length es) < length es
      \<Longrightarrow> (it_key it (it_run it cs s), it_value it (it_run it cs s)) = es ! cursor_run cmp es cs (length es)"
  using assms by (simp_all add: iterates_def Let_def)

text \<open>
  \<open>iat s es n\<close>: the iterator object \<open>s\<close> runs over the entries \<open>es\<close> and stands at position \<open>n\<close>, the
  position \<open>length es\<close> being the invalid one.
\<close>

locale sorted_iterator = comparator_contract cmp key_ok for cmp key_ok +
  fixes it :: "'s Iterator" and iat :: "'s \<Rightarrow> entries \<Rightarrow> nat \<Rightarrow> bool"
  assumes iat_sorted: "iat s es n \<Longrightarrow> sorted_entries cmp key_ok es"
    and iat_le: "iat s es n \<Longrightarrow> n \<le> length es"
    and iat_Valid: "iat s es n \<Longrightarrow> it_Valid it s \<longleftrightarrow> n < length es"
    and iat_key: "iat s es n \<Longrightarrow> n < length es \<Longrightarrow> it_key it s = fst (es ! n)"
    and iat_value: "iat s es n \<Longrightarrow> n < length es \<Longrightarrow> it_value it s = snd (es ! n)"
    and iat_status: "iat s es n \<Longrightarrow> it_status it s = OK"
    and iat_SeekToFirst: "iat s es n \<Longrightarrow> iat (it_SeekToFirst it s) es 0"
    and iat_SeekToLast: "iat s es n \<Longrightarrow> iat (it_SeekToLast it s) es (length es - 1)"
    and iat_Seek: "iat s es n \<Longrightarrow> key_ok t \<Longrightarrow> iat (it_Seek it t s) es (seek_pos cmp t es)"
    and iat_Next: "iat s es n \<Longrightarrow> n < length es \<Longrightarrow> iat (it_Next it s) es (Suc n)"
    and iat_Prev: "iat s es n \<Longrightarrow> n < length es \<Longrightarrow>
      iat (it_Prev it s) es (if n = 0 then length es else n - 1)"
begin

lemma iat_fields: "iat s es n \<Longrightarrow> n < length es \<Longrightarrow> it_Valid it s \<and> (it_key it s, it_value it s) = es ! n"
  by (simp add: iat_Valid iat_key iat_value)

lemma walk_Next:
  "iat s es n \<Longrightarrow> length es - n \<le> fuel \<Longrightarrow> it_walk it (it_Next it) fuel s = drop n es"
proof (induction fuel arbitrary: s n)
  case 0
  then show ?case by simp
next
  case (Suc fuel)
  then show ?case
    using iat_fields [OF Suc.prems(1)] iat_Valid [OF Suc.prems(1)] Suc.IH [OF iat_Next [OF Suc.prems(1)]]
    by (cases "n < length es") (auto simp: Cons_nth_drop_Suc)
qed

lemma walk_Prev:
  "iat s es n \<Longrightarrow> n < length es \<Longrightarrow> n < fuel \<Longrightarrow> it_walk it (it_Prev it) fuel s = rev (take (Suc n) es)"
proof (induction fuel arbitrary: s n)
  case (Suc fuel)
  note p = iat_Prev [OF Suc.prems(1,2)]
  show ?case
  proof (cases n)
    case 0
    then have "it_walk it (it_Prev it) fuel (it_Prev it s) = []"
      using p iat_Valid by (cases fuel) auto
    then show ?thesis using iat_fields [OF Suc.prems(1,2)] Suc.prems(2) 0 by (auto simp: take_Suc_conv_app_nth)
  next
    case (Suc m)
    then show ?thesis using iat_fields [OF Suc.prems(1,2)] Suc.IH [of "it_Prev it s" m] p Suc.prems
      by (auto simp: take_Suc_conv_app_nth)
  qed
qed simp

lemma run_cursor:
  assumes "iat s es n" "\<forall>t. CSeek t \<in> set cs \<longrightarrow> key_ok t"
  shows "iat (it_run it cs s) es (cursor_run cmp es cs n)"
  using assms
proof (induction cs arbitrary: s n)
  case (Cons c cs)
  have "iat (case c of CSeekToFirst \<Rightarrow> it_SeekToFirst it s | CSeekToLast \<Rightarrow> it_SeekToLast it s | CSeek t \<Rightarrow> it_Seek it t s
      | CNext \<Rightarrow> (if it_Valid it s then it_Next it s else s) | CPrev \<Rightarrow> (if it_Valid it s then it_Prev it s else s)) es
     (case c of CSeekToFirst \<Rightarrow> 0 | CSeekToLast \<Rightarrow> length es - 1 | CSeek t \<Rightarrow> seek_pos cmp t es
      | CNext \<Rightarrow> (if n < length es then Suc n else n)
      | CPrev \<Rightarrow> (if n < length es then if n = 0 then length es else n - 1 else n))"
    using iat_SeekToFirst [OF Cons.prems(1)] iat_SeekToLast [OF Cons.prems(1)] iat_Seek [OF Cons.prems(1)] iat_Next [OF Cons.prems(1)] iat_Prev [OF Cons.prems(1)]
      iat_Valid [OF Cons.prems(1)] Cons.prems by (cases c) auto
  from Cons.IH [OF this] show ?case using Cons.prems(2) by simp
qed simp

lemma iat_iterates:
  assumes "iat s es (length es)"
  shows "iterates cmp key_ok it s es"
proof -
  have "it_walk it (it_Next it) (Suc (length es)) (it_SeekToFirst it s) = es"
    using walk_Next [OF iat_SeekToFirst [OF assms], of "Suc (length es)"] by simp
  moreover have "it_walk it (it_Prev it) (Suc (length es)) (it_SeekToLast it s) = rev es"
    using walk_Prev [OF iat_SeekToLast [OF assms], of "Suc (length es)"] iat_Valid [OF iat_SeekToLast [OF assms]] by (cases "es = []") auto
  moreover have "it_walk it (it_Next it) (Suc (length es)) (it_Seek it t s) = dropWhile (\<lambda>e. Compare cmp (fst e) t < 0) es"
    if "key_ok t" for t
    using walk_Next [OF iat_Seek [OF assms that], of "Suc (length es)"] by (simp add: seek_pos_def dropWhile_eq_drop)
  moreover have "(it_Valid it (it_run it cs s) \<longleftrightarrow> cursor_run cmp es cs (length es) < length es)
    \<and> (cursor_run cmp es cs (length es) < length es \<longrightarrow> (it_key it (it_run it cs s), it_value it (it_run it cs s)) = es ! cursor_run cmp es cs (length es))
    \<and> it_status it (it_run it cs s) = OK" if "\<forall>t. CSeek t \<in> set cs \<longrightarrow> key_ok t" for cs
    using iat_fields [OF run_cursor [OF assms that]] iat_Valid [OF run_cursor [OF assms that]] iat_status [OF run_cursor [OF assms that]] by auto
  ultimately show ?thesis by (simp add: iterates_def Let_def)
qed

end

definition wrapper_at :: "'s Iterator \<Rightarrow> ('s \<Rightarrow> entries \<Rightarrow> nat \<Rightarrow> bool) \<Rightarrow> 's IteratorWrapper \<Rightarrow> entries \<Rightarrow> nat \<Rightarrow> bool" where
  "wrapper_at it iat w es n \<longleftrightarrow> iat (w_iter w) es n \<and> (w_valid w \<longleftrightarrow> it_Valid it (w_iter w))
     \<and> (w_valid w \<longrightarrow> w_key w = it_key it (w_iter w))"

lemma wrapper_at_Update [simp]: "wrapper_at it iat (w_Update it w) es n \<longleftrightarrow> iat (w_iter w) es n"
  by (simp add: wrapper_at_def w_Update_def Let_def)

lemma wrapper_atD: "wrapper_at it iat w es n \<Longrightarrow> iat (w_iter w) es n"
  by (simp add: wrapper_at_def)

lemma seek_pos_le: "seek_pos cmp t es \<le> length es"
  by (simp add: seek_pos_def length_takeWhile_le)

context sorted_iterator
begin

text \<open>The wrapper caches faithfully: it keeps the contract of the iterator it wraps.\<close>

lemma wrapper_contract: "sorted_iterator cmp key_ok (WrapperIterator it) (wrapper_at it iat)"
proof (rule sorted_iterator.intro [OF comparator_contract_axioms sorted_iterator_axioms.intro], goal_cases)
  case (10 s es n)
  then show ?case by (simp add: WrapperIterator_def iat_Next wrapper_atD)
next
  case (11 s es n)
  then show ?case using iat_Prev [of "w_iter s" es n] wrapper_atD [of it iat s es n] by (simp add: WrapperIterator_def)
qed (simp_all add: WrapperIterator_def del: One_nat_def, (auto simp del: One_nat_def simp: wrapper_at_def iat_le iat_Valid iat_key iat_value iat_status
       intro: iat_sorted iat_SeekToFirst iat_SeekToLast iat_Seek))

lemma wrapper_at_Set: "iat s es n \<Longrightarrow> wrapper_at it iat (w_Set it s) es n"
  by (simp add: w_Set_def)

end

lemma sum_contract:
  assumes a: "sorted_iterator cmp key_ok a ata" and b: "sorted_iterator cmp key_ok b atb"
  shows "sorted_iterator cmp key_ok (IteratorSum a b) (case_sum ata atb)"
proof -
  note A = sorted_iterator.iat_sorted [OF a] sorted_iterator.iat_le [OF a] sorted_iterator.iat_Valid [OF a]
      sorted_iterator.iat_key [OF a] sorted_iterator.iat_value [OF a] sorted_iterator.iat_status [OF a]
      sorted_iterator.iat_SeekToFirst [OF a] sorted_iterator.iat_SeekToLast [OF a] sorted_iterator.iat_Seek [OF a]
      sorted_iterator.iat_Next [OF a] sorted_iterator.iat_Prev [OF a]
  note B = sorted_iterator.iat_sorted [OF b] sorted_iterator.iat_le [OF b] sorted_iterator.iat_Valid [OF b]
      sorted_iterator.iat_key [OF b] sorted_iterator.iat_value [OF b] sorted_iterator.iat_status [OF b]
      sorted_iterator.iat_SeekToFirst [OF b] sorted_iterator.iat_SeekToLast [OF b] sorted_iterator.iat_Seek [OF b]
      sorted_iterator.iat_Next [OF b] sorted_iterator.iat_Prev [OF b]
  have "comparator_contract cmp key_ok" using a by (simp add: sorted_iterator_def)
  then show ?thesis
  proof (rule sorted_iterator.intro [OF _ sorted_iterator_axioms.intro], goal_cases)
    case (11 s es n)
    then show ?case using A(11) B(11) by (cases s) (simp_all add: IteratorSum_def)
  qed (auto simp: IteratorSum_def A(2-6) B(2-6) intro: A(1,7-10) B(1,7-10) simp del: One_nat_def split: sum.splits)
qed

end
