(* ===== verification/Blocks.thy ===== *)
theory Blocks
  imports Coding Iterators
begin

text \<open>
  Table blocks: the builder with prefix compression (\<^verbatim>\<open>src/table/block_builder.cc\<close>) and the reader
  with its iterator (\<^verbatim>\<open>src/table/block.cc\<close>).  Offsets in a block are natural numbers; restart
  points and entry lengths keep their 32 bits where they are stored and where their sum can wrap.
\<close>

section \<open>BlockBuilder\<close>

record BlockBuilder =
  bb_interval :: nat
  bb_buffer :: bytes
  bb_restarts :: "u32 list"
  bb_counter :: nat
  bb_finished :: bool
  bb_last_key :: bytes

definition BlockBuilder_init :: "nat \<Rightarrow> BlockBuilder" where
  "BlockBuilder_init block_restart_interval =
     \<lparr> bb_interval = block_restart_interval, bb_buffer = [], bb_restarts = [0], bb_counter = 0,
       bb_finished = False, bb_last_key = [] \<rparr>"

definition bb_Reset :: "BlockBuilder \<Rightarrow> BlockBuilder" where
  "bb_Reset b = b\<lparr> bb_buffer := [], bb_restarts := [0], bb_counter := 0, bb_finished := False, bb_last_key := [] \<rparr>"

definition bb_CurrentSizeEstimate :: "BlockBuilder \<Rightarrow> nat" where
  "bb_CurrentSizeEstimate b = length (bb_buffer b) + length (bb_restarts b) * 4 + 4"

definition bb_empty :: "BlockBuilder \<Rightarrow> bool" where
  "bb_empty b = (bb_buffer b = [])"

definition bb_Finish :: "BlockBuilder \<Rightarrow> bytes \<times> BlockBuilder" where
  "bb_Finish b =
     (let buffer = fold (\<lambda>r buf. PutFixed32 buf r) (bb_restarts b) (bb_buffer b);
          buffer = PutFixed32 buffer (of_nat (length (bb_restarts b)))
      in (buffer, b\<lparr> bb_buffer := buffer, bb_finished := True \<rparr>))"

text \<open>The loop that counts the bytes \<open>a\<close> and \<open>b\<close> share at their start.\<close>

fun shared_prefix :: "bytes \<Rightarrow> bytes \<Rightarrow> nat" where
  "shared_prefix (x # xs) (y # ys) = (if x = y then Suc (shared_prefix xs ys) else 0)"
| "shared_prefix _ _ = 0"

definition bb_Add :: "bytes \<Rightarrow> bytes \<Rightarrow> BlockBuilder \<Rightarrow> BlockBuilder" where
  "bb_Add key value b =
     (let (shared, b) =
            (if bb_counter b < bb_interval b then (shared_prefix (bb_last_key b) key, b)
             else (0, b\<lparr> bb_restarts := bb_restarts b @ [of_nat (length (bb_buffer b))], bb_counter := 0 \<rparr>));
          non_shared = length key - shared;
          buffer = PutVarint64 (bb_buffer b) (of_nat shared);
          buffer = PutVarint64 buffer (of_nat non_shared);
          buffer = PutVarint64 buffer (of_nat (length value));
          buffer = buffer @ take non_shared (drop shared key) @ value
      in b\<lparr> bb_buffer := buffer,
            bb_last_key := take shared (bb_last_key b) @ take non_shared (drop shared key),
            bb_counter := bb_counter b + 1 \<rparr>)"

section \<open>Block\<close>

record Block =
  bl_data :: bytes
  bl_size :: nat
  bl_restart_offset :: nat

definition NumRestarts :: "bytes \<Rightarrow> nat \<Rightarrow> nat" where
  "NumRestarts data sz = unat (DecodeFixed32 (drop (sz - 4) data))"

definition Block_init :: "bytes \<Rightarrow> Block" where
  "Block_init contents =
     (let size = length contents
      in if size < 4 then \<lparr> bl_data = contents, bl_size = 0, bl_restart_offset = 0 \<rparr>
         else
           let max_restarts_allowed = (size - 4) div 4
           in if NumRestarts contents size > max_restarts_allowed
              then \<lparr> bl_data = contents, bl_size = 0, bl_restart_offset = 0 \<rparr>
              else \<lparr> bl_data = contents, bl_size = size,
                     bl_restart_offset = size - (1 + NumRestarts contents size) * 4 \<rparr>)"

text \<open>
  \<open>DecodeEntry\<close> reads the entry between \<open>p\<close> and \<open>limit\<close> and returns the three lengths and the
  position of the key.  The check of the two lengths against the rest wraps at 32 bits.
\<close>

definition DecodeEntry :: "bytes \<Rightarrow> nat \<Rightarrow> nat \<Rightarrow> (u32 \<times> u32 \<times> u32 \<times> nat) option" where
  "DecodeEntry data p limit =
     (if limit < p + 3 then None
      else
        let shared = ucast (data ! p); non_shared = ucast (data ! (p + 1)); value_length = ucast (data ! (p + 2));
            parsed =
              (if shared OR non_shared OR value_length < (128 :: u32)
               then Some (shared, non_shared, value_length, p + 3)
               else
                 case GetVarint32Ptr (drop p (take limit data)) of
                   None \<Rightarrow> None
                 | Some (shared, rest) \<Rightarrow>
                     (case GetVarint32Ptr rest of
                        None \<Rightarrow> None
                      | Some (non_shared, rest) \<Rightarrow>
                          (case GetVarint32Ptr rest of
                             None \<Rightarrow> None
                           | Some (value_length, rest) \<Rightarrow>
                               Some (shared, non_shared, value_length, limit - length rest))))
        in case parsed of
             None \<Rightarrow> None
           | Some (shared, non_shared, value_length, p) \<Rightarrow>
               if (of_nat (limit - p) :: u32) < non_shared + value_length then None
               else Some (shared, non_shared, value_length, p))"

section \<open>Block::Iter\<close>

text \<open>\<open>value_\<close> is a slice of the block: an offset and a length.\<close>

record BlockIter =
  bi_data :: bytes
  bi_restarts :: nat
  bi_num_restarts :: nat
  bi_current :: nat
  bi_restart_index :: nat
  bi_key :: bytes
  bi_value_pos :: nat
  bi_value_len :: nat
  bi_status :: status

definition BlockIter_init :: "bytes \<Rightarrow> nat \<Rightarrow> nat \<Rightarrow> BlockIter" where
  "BlockIter_init data restarts num_restarts =
     \<lparr> bi_data = data, bi_restarts = restarts, bi_num_restarts = num_restarts, bi_current = restarts,
       bi_restart_index = num_restarts, bi_key = [], bi_value_pos = 0, bi_value_len = 0, bi_status = OK \<rparr>"

definition bi_Valid :: "BlockIter \<Rightarrow> bool" where
  "bi_Valid it = (bi_current it < bi_restarts it)"

definition bi_value :: "BlockIter \<Rightarrow> bytes" where
  "bi_value it = take (bi_value_len it) (drop (bi_value_pos it) (bi_data it))"

definition NextEntryOffset :: "BlockIter \<Rightarrow> nat" where
  "NextEntryOffset it = bi_value_pos it + bi_value_len it"

definition GetRestartPoint :: "BlockIter \<Rightarrow> nat \<Rightarrow> nat" where
  "GetRestartPoint it index = unat (DecodeFixed32 (drop (bi_restarts it + index * 4) (bi_data it)))"

definition SeekToRestartPoint :: "nat \<Rightarrow> BlockIter \<Rightarrow> BlockIter" where
  "SeekToRestartPoint index it =
     it\<lparr> bi_key := [], bi_restart_index := index, bi_value_pos := GetRestartPoint it index, bi_value_len := 0 \<rparr>"

definition CorruptionError :: "BlockIter \<Rightarrow> BlockIter" where
  "CorruptionError it =
     it\<lparr> bi_current := bi_restarts it, bi_restart_index := bi_num_restarts it,
         bi_status := Corruption ''bad entry in block'', bi_key := [], bi_value_pos := 0, bi_value_len := 0 \<rparr>"

function advance_restart :: "BlockIter \<Rightarrow> BlockIter" where
  "advance_restart it =
     (if bi_restart_index it + 1 < bi_num_restarts it \<and> GetRestartPoint it (bi_restart_index it + 1) < bi_current it
      then advance_restart (it\<lparr> bi_restart_index := bi_restart_index it + 1 \<rparr>)
      else it)"
  by pat_completeness auto
termination by (relation "measure (\<lambda>it. bi_num_restarts it - bi_restart_index it)") auto

declare advance_restart.simps [simp del]

definition ParseNextKey :: "BlockIter \<Rightarrow> bool \<times> BlockIter" where
  "ParseNextKey it =
     (let it = it\<lparr> bi_current := NextEntryOffset it \<rparr>;
          p = bi_current it;
          limit = bi_restarts it
      in if limit \<le> p then
           (False, it\<lparr> bi_current := bi_restarts it, bi_restart_index := bi_num_restarts it \<rparr>)
         else
           case DecodeEntry (bi_data it) p limit of
             None \<Rightarrow> (False, CorruptionError it)
           | Some (shared, non_shared, value_length, p) \<Rightarrow>
               if length (bi_key it) < unat shared then (False, CorruptionError it)
               else
                 (True, advance_restart
                    (it\<lparr> bi_key := take (unat shared) (bi_key it) @ take (unat non_shared) (drop p (bi_data it)),
                         bi_value_pos := p + unat non_shared, bi_value_len := unat value_length \<rparr>)))"

definition bi_Next :: "BlockIter \<Rightarrow> BlockIter" where
  "bi_Next it = snd (ParseNextKey it)"

lemma advance_restart_fields [simp]:
  "bi_data (advance_restart it) = bi_data it" "bi_restarts (advance_restart it) = bi_restarts it"
  "bi_num_restarts (advance_restart it) = bi_num_restarts it" "bi_current (advance_restart it) = bi_current it"
  "bi_key (advance_restart it) = bi_key it" "bi_value_pos (advance_restart it) = bi_value_pos it"
  "bi_value_len (advance_restart it) = bi_value_len it" "bi_status (advance_restart it) = bi_status it"
  by (induction it rule: advance_restart.induct; subst advance_restart.simps; simp)+

lemma GetVarint32Ptr_shorter: "GetVarint32Ptr xs = Some (x, r) \<Longrightarrow> length r < length xs"
  using GetVarint32PtrFallback_suffix by (simp add: GetVarint32Ptr_fallback)

lemma DecodeEntry_progress:
  assumes "DecodeEntry data p limit = Some (s, n, v, q)"
  shows "p < q"
  using assms unfolding DecodeEntry_def Let_def
  by (auto split: if_splits option.splits dest!: GetVarint32Ptr_shorter) linarith

lemma ParseNextKey_progress:
  assumes "ParseNextKey it = (True, it')"
  shows "bi_restarts it' = bi_restarts it" "NextEntryOffset it < bi_restarts it" "NextEntryOffset it < NextEntryOffset it'"
  using assms unfolding ParseNextKey_def Let_def
  by (auto simp: NextEntryOffset_def split: if_splits option.splits dest!: DecodeEntry_progress)

text \<open>The first loop of \<open>Prev\<close>: back to a restart point before \<open>original\<close>, if there is one.\<close>

function Prev_restart :: "nat \<Rightarrow> BlockIter \<Rightarrow> bool \<times> BlockIter" where
  "Prev_restart original it =
     (if original \<le> GetRestartPoint it (bi_restart_index it) then
        if bi_restart_index it = 0 then
          (False, it\<lparr> bi_current := bi_restarts it, bi_restart_index := bi_num_restarts it \<rparr>)
        else Prev_restart original (it\<lparr> bi_restart_index := bi_restart_index it - 1 \<rparr>)
      else (True, it))"
  by pat_completeness auto
termination by (relation "measure (\<lambda>(original, it). bi_restart_index it)") auto

function parse_until :: "nat \<Rightarrow> BlockIter \<Rightarrow> BlockIter" where
  "parse_until original it =
     (case ParseNextKey it of
        (False, it) \<Rightarrow> it
      | (True, it) \<Rightarrow> if NextEntryOffset it < original then parse_until original it else it)"
  by pat_completeness auto
termination
proof (relation "measure (\<lambda>(original, it). bi_restarts it - NextEntryOffset it)", goal_cases)
  case (2 original it b it')
  then have "ParseNextKey it = (True, it')" by simp
  from ParseNextKey_progress [OF this] show ?case by simp
qed simp

declare Prev_restart.simps [simp del] parse_until.simps [simp del]

definition bi_Prev :: "BlockIter \<Rightarrow> BlockIter" where
  "bi_Prev it =
     (let original = bi_current it in
      case Prev_restart original it of
        (False, it) \<Rightarrow> it
      | (True, it) \<Rightarrow> parse_until original (SeekToRestartPoint (bi_restart_index it) it))"

text \<open>The binary search over the restart points; \<open>None\<close> is the jump to the corruption error.\<close>

function Seek_search :: "comparator \<Rightarrow> bytes \<Rightarrow> BlockIter \<Rightarrow> nat \<Rightarrow> nat \<Rightarrow> nat option" where
  "Seek_search cmp target it left right =
     (if left < right then
        let mid = (left + right + 1) div 2;
            region_offset = GetRestartPoint it mid
        in case DecodeEntry (bi_data it) region_offset (bi_restarts it) of
             None \<Rightarrow> None
           | Some (shared, non_shared, value_length, key_ptr) \<Rightarrow>
               if shared \<noteq> 0 then None
               else
                 let mid_key = take (unat non_shared) (drop key_ptr (bi_data it))
                 in if Compare cmp mid_key target < 0 then Seek_search cmp target it mid right
                    else Seek_search cmp target it left (mid - 1)
      else Some left)"
  by pat_completeness auto
termination by (relation "measure (\<lambda>(cmp, target, it, left, right). right - left)") auto

function Seek_scan :: "comparator \<Rightarrow> bytes \<Rightarrow> BlockIter \<Rightarrow> BlockIter" where
  "Seek_scan cmp target it =
     (case ParseNextKey it of
        (False, it) \<Rightarrow> it
      | (True, it) \<Rightarrow> if 0 \<le> Compare cmp (bi_key it) target then it else Seek_scan cmp target it)"
  by pat_completeness auto
termination
proof (relation "measure (\<lambda>(cmp, target, it). bi_restarts it - NextEntryOffset it)", goal_cases)
  case (2 cmp target it b it')
  then have "ParseNextKey it = (True, it')" by simp
  from ParseNextKey_progress [OF this] show ?case by simp
qed simp

declare Seek_search.simps [simp del] Seek_scan.simps [simp del]

definition bi_Seek :: "comparator \<Rightarrow> bytes \<Rightarrow> BlockIter \<Rightarrow> BlockIter" where
  "bi_Seek cmp target it =
     (let current_key_compare = (if bi_Valid it then Compare cmp (bi_key it) target else 0);
          left = (if bi_Valid it \<and> current_key_compare < 0 then bi_restart_index it else 0);
          right = (if bi_Valid it \<and> 0 < current_key_compare then bi_restart_index it else bi_num_restarts it - 1)
      in if bi_Valid it \<and> current_key_compare = 0 then it
         else
           case Seek_search cmp target it left right of
             None \<Rightarrow> CorruptionError it
           | Some left \<Rightarrow>
               let skip_seek = (left = bi_restart_index it \<and> current_key_compare < 0);
                   it = (if skip_seek then it else SeekToRestartPoint left it)
               in Seek_scan cmp target it)"

definition bi_SeekToFirst :: "BlockIter \<Rightarrow> BlockIter" where
  "bi_SeekToFirst it = snd (ParseNextKey (SeekToRestartPoint 0 it))"

definition bi_SeekToLast :: "BlockIter \<Rightarrow> BlockIter" where
  "bi_SeekToLast it = parse_until (bi_restarts it) (SeekToRestartPoint (bi_num_restarts it - 1) it)"

definition BlockIterator :: "comparator \<Rightarrow> BlockIter Iterator" where
  "BlockIterator cmp =
     \<lparr> it_Valid = bi_Valid, it_SeekToFirst = bi_SeekToFirst, it_SeekToLast = bi_SeekToLast,
       it_Seek = bi_Seek cmp, it_Next = bi_Next, it_Prev = bi_Prev, it_key = bi_key,
       it_value = bi_value, it_status = bi_status \<rparr>"

text \<open>\<open>Block::NewIterator\<close> returns an empty (error) iterator or one over the block.\<close>

definition Block_NewIterator :: "Block \<Rightarrow> status + BlockIter" where
  "Block_NewIterator b =
     (if bl_size b < 4 then Inl (NewErrorIterator (Corruption ''bad clock contents''))
      else
        let num_restarts = NumRestarts (bl_data b) (bl_size b)
        in if num_restarts = 0 then Inl NewEmptyIterator
           else Inr (BlockIter_init (bl_data b) (bl_restart_offset b) num_restarts))"

section \<open>The layout of a block\<close>

text \<open>A slot is an entry with the number of key bytes it shares with the entry before it.\<close>

type_synonym slot = "nat \<times> bytes \<times> bytes"

abbreviation slot_shared :: "slot \<Rightarrow> nat" where "slot_shared \<equiv> fst"
abbreviation slot_entry :: "slot \<Rightarrow> bytes \<times> bytes" where "slot_entry \<equiv> snd"
abbreviation slot_key :: "slot \<Rightarrow> bytes" where "slot_key s \<equiv> fst (snd s)"
abbreviation slot_value :: "slot \<Rightarrow> bytes" where "slot_value s \<equiv> snd (snd s)"

definition slot_bytes :: "slot \<Rightarrow> bytes" where
  "slot_bytes s = EncodeVarint64 (of_nat (slot_shared s)) @ EncodeVarint64 (of_nat (length (slot_key s) - slot_shared s))
     @ EncodeVarint64 (of_nat (length (slot_value s))) @ drop (slot_shared s) (slot_key s) @ slot_value s"

definition slot_off :: "slot list \<Rightarrow> nat \<Rightarrow> nat" where
  "slot_off ss n = length (concat (map slot_bytes (take n ss)))"

definition slots_ok :: "slot list \<Rightarrow> bool" where
  "slots_ok ss \<longleftrightarrow> (\<forall>n<length ss. slot_shared (ss ! n) \<le> length (slot_key (ss ! n))
     \<and> length (slot_key (ss ! n)) + length (slot_value (ss ! n)) < 2 ^ 32
     \<and> (if n = 0 then slot_shared (ss ! n) = 0
         else slot_shared (ss ! n) \<le> length (slot_key (ss ! (n - 1)))
           \<and> take (slot_shared (ss ! n)) (slot_key (ss ! (n - 1))) = take (slot_shared (ss ! n)) (slot_key (ss ! n))))"

text \<open>Restart points are slots that share nothing, the first slot among them.\<close>

definition restarts_ok :: "slot list \<Rightarrow> nat list \<Rightarrow> bool" where
  "restarts_ok ss rs \<longleftrightarrow> rs \<noteq> [] \<and> rs ! 0 = 0 \<and> sorted_wrt (<) rs
     \<and> (if ss = [] then rs = [0] else \<forall>r\<in>set rs. r < length ss \<and> slot_shared (ss ! r) = 0)"

definition block_bytes :: "slot list \<Rightarrow> nat list \<Rightarrow> bytes" where
  "block_bytes ss rs = concat (map slot_bytes ss) @ concat (map (\<lambda>r. EncodeFixed32 (of_nat (slot_off ss r))) rs)
     @ EncodeFixed32 (of_nat (length rs))"

definition block_ok :: "slot list \<Rightarrow> nat list \<Rightarrow> bool" where
  "block_ok ss rs \<longleftrightarrow> slots_ok ss \<and> restarts_ok ss rs \<and> length (block_bytes ss rs) < 2 ^ 32"

lemma first_byte_varint:
  "v < 128 \<Longrightarrow> EncodeVarint64 v = [ucast v]"
  "\<not> v < 128 \<Longrightarrow> \<exists>bs. EncodeVarint64 v = ucast (v OR 128) # bs"
  by (subst EncodeVarint64.simps, auto simp: not_less)+

lemma cont_byte_ge: "\<not> (ucast (ucast (v OR 128 :: u64) :: byte) :: u32) < 128"
proof
  assume "(ucast (ucast (v OR 128 :: u64) :: byte) :: u32) < 128"
  then have lt: "unat (ucast (ucast (v OR 128 :: u64) :: byte) :: u32) < 2 ^ 7" by (simp add: word_less_nat_alt)
  have "bit (ucast (ucast (v OR 128 :: u64) :: byte) :: u32) 7"
    by (simp add: bit_simps bit_128)
  then have "bit (unat (ucast (ucast (v OR 128 :: u64) :: byte) :: u32)) 7" by (simp add: bit_unsigned_iff)
  then show False using lt by (metis bit_nat_def div_less even_zero)
qed

lemma or_less_128: "(a OR b :: u32) < 128 \<longleftrightarrow> a < 128 \<and> b < 128"
proof -
  have m: "x < 128 \<longleftrightarrow> (\<forall>n\<ge>7. \<not> bit x n)" for x :: u32
  proof
    assume "x < 128"
    then have "unat (take_bit 7 x) = unat x"
      by (simp add: unsigned_take_bit_eq take_bit_nat_eq_self word_less_nat_alt)
    then have "take_bit 7 x = x" by (simp only: word_unat_eq_iff)
    then show "\<forall>n\<ge>7. \<not> bit x n" by (metis bit_take_bit_iff not_less)
  next
    assume "\<forall>n\<ge>7. \<not> bit x n"
    then have "take_bit 7 x = x" by (intro bit_word_eqI) (auto simp: bit_simps intro: ccontr)
    then have "unat x = take_bit 7 (unat x)" by (metis unsigned_take_bit_eq)
    then have "unat x < 2 ^ 7" by (metis take_bit_nat_less_exp)
    then show "x < 128" by (simp add: word_less_nat_alt)
  qed
  show ?thesis unfolding m by (auto simp: bit_simps)
qed

lemma unat_ucast_8_32: "unat (ucast (b :: byte) :: u32) = unat b"
  using unat_word_less [of b] by (simp add: unsigned_ucast_eq take_bit_nat_eq_self)

lemma unat_ucast_64_8: "unat w < 128 \<Longrightarrow> unat (ucast (w :: u64) :: byte) = unat w"
  by (simp add: unsigned_ucast_eq take_bit_nat_eq_self)

text \<open>The first byte of a varint decides the fast path.\<close>

lemma first_byte_fast:
  assumes "xs = EncodeVarint64 w @ ys"
  shows "(ucast (xs ! 0) :: u32) < 128 \<longleftrightarrow> w < 128"
    "w < 128 \<Longrightarrow> xs = [ucast w] @ ys \<and> (ucast (ucast w :: byte) :: u32) = ucast w"
proof -
  show "(ucast (xs ! 0) :: u32) < 128 \<longleftrightarrow> w < 128"
  proof (cases "w < 128")
    case True
    have "unat w < 128" using True by (simp add: word_less_nat_alt)
    then have "unat (ucast (ucast w :: byte) :: u32) < 128"
      by (simp only: unat_ucast_8_32 unat_ucast_64_8)
    then show ?thesis using True assms first_byte_varint(1) [OF True] by (simp add: word_less_nat_alt)
  next
    case False
    then show ?thesis using assms first_byte_varint(2) [OF False] cont_byte_ge by auto
  qed
  assume w: "w < 128"
  then have "unat w < 128" by (simp add: word_less_nat_alt)
  then have "unat (ucast (ucast w :: byte) :: u32) = unat (ucast w :: u32)"
    by (simp only: unat_ucast_8_32 unat_ucast_64_8) (simp add: unsigned_ucast_eq take_bit_nat_eq_self)
  then show "xs = [ucast w] @ ys \<and> (ucast (ucast w :: byte) :: u32) = ucast w"
    using assms first_byte_varint(1) [OF w] by (simp only: word_unat_eq_iff)
qed

lemma DecodeEntry_varints:
  assumes d: "data = A @ EncodeVarint64 w1 @ EncodeVarint64 w2 @ EncodeVarint64 w3 @ rest @ C"
    and w: "unat w1 < 2 ^ 32" "unat w2 < 2 ^ 32" "unat w3 < 2 ^ 32"
    and q: "q = length A + length (EncodeVarint64 w1 @ EncodeVarint64 w2 @ EncodeVarint64 w3)"
    and fits: "unat w2 + unat w3 \<le> length rest" "length rest < 2 ^ 32"
  shows "DecodeEntry data (length A) (q + length rest) = Some (ucast w1, ucast w2, ucast w3, q)"
proof -
  let ?e1 = "EncodeVarint64 w1" and ?e2 = "EncodeVarint64 w2" and ?e3 = "EncodeVarint64 w3"
  let ?p = "length A" and ?limit = "q + length rest"
  have l: "0 < length ?e1" "0 < length ?e2" "0 < length ?e3" by (rule varint_length_bounds)+
  then have lim: "\<not> ?limit < ?p + 3" using q unfolding length_append by linarith
  have cur: "drop ?p (take ?limit data) = ?e1 @ ?e2 @ ?e3 @ rest" by (simp add: d q)
  have nth: "data ! (?p + i) = (?e1 @ ?e2 @ ?e3 @ rest @ C) ! i" for i by (simp add: d nth_append)
  have sum: "\<not> (of_nat (?limit - q) :: u32) < ucast w2 + ucast w3"
  proof -
    have "unat (ucast w2 + ucast w3 :: u32) = unat w2 + unat w3"
      using w fits by (simp add: unat_word_ariths unsigned_ucast_eq take_bit_nat_eq_self)
    moreover have "unat (of_nat (length rest) :: u32) = length rest"
      using fits by (simp add: unat_of_nat take_bit_nat_eq_self)
    ultimately show ?thesis using fits by (simp add: word_less_nat_alt)
  qed
  have slow: "GetVarint32Ptr (?e1 @ ?e2 @ ?e3 @ rest) = Some (ucast w1, ?e2 @ ?e3 @ rest)"
    "GetVarint32Ptr (?e2 @ ?e3 @ rest) = Some (ucast w2, ?e3 @ rest)"
    "GetVarint32Ptr (?e3 @ rest) = Some (ucast w3, rest)"
    using w GetVarint32_Encode64 unfolding GetVarint32_def by blast+
  define fast where "fast = ((ucast (data ! ?p) OR ucast (data ! (?p + 1)) OR ucast (data ! (?p + 2)) :: u32) < 128)"
  have f: "data ! ?p = ucast w1 \<and> data ! (?p + 1) = ucast w2 \<and> data ! (?p + 2) = ucast w3
    \<and> w1 < 128 \<and> w2 < 128 \<and> w3 < 128 \<and> q = ?p + 3" if fast
  proof -
    have b: "(ucast (data ! ?p) :: u32) < 128" "(ucast (data ! (?p + 1)) :: u32) < 128" "(ucast (data ! (?p + 2)) :: u32) < 128"
      using that by (auto simp: fast_def or_less_128)
    have w1: "w1 < 128" using b(1) nth [of 0] first_byte_fast(1) [of _ w1, OF refl] by simp
    then have e1: "?e1 = [ucast w1]" by (rule first_byte_varint)
    have w2: "w2 < 128" using b(2) nth [of 1] first_byte_fast(1) [of _ w2, OF refl] e1 by simp
    then have e2: "?e2 = [ucast w2]" by (rule first_byte_varint)
    have w3: "w3 < 128" using b(3) nth [of 2] first_byte_fast(1) [of _ w3, OF refl] e1 e2 by simp
    then have "?e3 = [ucast w3]" by (rule first_byte_varint)
    with e1 e2 w1 w2 w3 show ?thesis using nth [of 0] nth [of 1] nth [of 2] q by simp
  qed
  have "(ucast (ucast v :: byte) :: u32) = ucast v" if "v < 128" for v :: u64
    using first_byte_fast(2) [OF refl that] by simp
  note byte = this
  show ?thesis
  proof (cases fast)
    case True
    with f have e: "data ! ?p = ucast w1" "data ! (?p + 1) = ucast w2" "data ! (?p + 2) = ucast w3" "q = ?p + 3"
      and lt: "w1 < 128" "w2 < 128" "w3 < 128" by auto
    show ?thesis
      using lim sum True unfolding DecodeEntry_def Let_def fast_def e(1-3) e(4) [symmetric] byte [OF lt(1)] byte [OF lt(2)] byte [OF lt(3)]
      by simp
  next
    case False
    have "?limit - length rest = q" by simp
    then show ?thesis using False lim sum
      unfolding DecodeEntry_def Let_def fast_def cur slow option.case prod.case by simp
  qed
qed

lemma slot_bytes_pos: "0 < length (slot_bytes s)"
  using varint_length_bounds(3) [of "of_nat (slot_shared s)"] by (simp add: slot_bytes_def)

lemma slot_off_0 [simp]: "slot_off ss 0 = 0"
  by (simp add: slot_off_def)

lemma slot_off_Suc: "n < length ss \<Longrightarrow> slot_off ss (Suc n) = slot_off ss n + length (slot_bytes (ss ! n))"
  by (simp add: slot_off_def take_Suc_conv_app_nth)

lemma slot_off_less: "m < n \<Longrightarrow> n \<le> length ss \<Longrightarrow> slot_off ss m < slot_off ss n"
proof (induction n)
  case (Suc n)
  then show ?case using slot_bytes_pos [of "ss ! n"] by (cases "m = n") (auto simp: slot_off_Suc)
qed simp

lemma slot_off_less_iff: "m \<le> length ss \<Longrightarrow> n \<le> length ss \<Longrightarrow> slot_off ss m < slot_off ss n \<longleftrightarrow> m < n"
  using slot_off_less by (metis linorder_neqE_nat not_less_iff_gr_or_eq)

lemma slot_off_le_iff: "m \<le> length ss \<Longrightarrow> n \<le> length ss \<Longrightarrow> slot_off ss m \<le> slot_off ss n \<longleftrightarrow> m \<le> n"
  using slot_off_less_iff by (metis not_less)

lemma slots_split:
  assumes "n < length ss"
  shows "concat (map slot_bytes ss) = concat (map slot_bytes (take n ss)) @ slot_bytes (ss ! n) @ concat (map slot_bytes (drop (Suc n) ss))"
proof -
  have "concat (map slot_bytes ss) = concat (map slot_bytes (take n ss @ ss ! n # drop (Suc n) ss))"
    using assms by (simp add: id_take_nth_drop [symmetric])
  then show ?thesis by simp
qed

lemma block_split:
  assumes "n < length ss"
  shows "block_bytes ss rs = concat (map slot_bytes (take n ss)) @ slot_bytes (ss ! n)
    @ concat (map slot_bytes (drop (Suc n) ss)) @ drop (slot_off ss (length ss)) (block_bytes ss rs)"
  using slots_split [OF assms] by (simp add: block_bytes_def slot_off_def)

section \<open>The iterator on a well-formed block\<close>

definition bi_base :: "slot list \<Rightarrow> nat list \<Rightarrow> BlockIter \<Rightarrow> bool" where
  "bi_base ss rs it \<longleftrightarrow> block_ok ss rs \<and> bi_data it = block_bytes ss rs \<and> bi_restarts it = slot_off ss (length ss)
     \<and> bi_num_restarts it = length rs \<and> bi_status it = OK"

text \<open>The restart index is that of the last restart point at or before slot \<open>n\<close>, up to one that is slot \<open>n\<close> itself.\<close>

definition index_at :: "nat list \<Rightarrow> nat \<Rightarrow> nat \<Rightarrow> bool" where
  "index_at rs i n \<longleftrightarrow> i < length rs \<and> rs ! i \<le> n \<and> (\<forall>j. i < j \<and> j < length rs \<longrightarrow> n \<le> rs ! j)"

text \<open>Standing on slot \<open>n\<close>, or past the end for \<open>n = length ss\<close>.\<close>

definition bi_at :: "slot list \<Rightarrow> nat list \<Rightarrow> BlockIter \<Rightarrow> nat \<Rightarrow> bool" where
  "bi_at ss rs it n \<longleftrightarrow> bi_base ss rs it \<and> n \<le> length ss \<and> bi_current it = slot_off ss n
     \<and> (n < length ss \<longrightarrow> bi_key it = slot_key (ss ! n) \<and> bi_value it = slot_value (ss ! n)
          \<and> NextEntryOffset it = slot_off ss (Suc n) \<and> index_at rs (bi_restart_index it) n)"

text \<open>About to parse slot \<open>n\<close>.\<close>

definition bi_before :: "slot list \<Rightarrow> nat list \<Rightarrow> BlockIter \<Rightarrow> nat \<Rightarrow> bool" where
  "bi_before ss rs it n \<longleftrightarrow> bi_base ss rs it \<and> n \<le> length ss \<and> NextEntryOffset it = slot_off ss n
     \<and> bi_restart_index it < length rs \<and> rs ! bi_restart_index it \<le> n
     \<and> (n < length ss \<longrightarrow> slot_shared (ss ! n) \<le> length (bi_key it)
          \<and> take (slot_shared (ss ! n)) (bi_key it) = take (slot_shared (ss ! n)) (slot_key (ss ! n)))"

lemma restarts_bound: "restarts_ok ss rs \<Longrightarrow> j < length rs \<Longrightarrow> rs ! j \<le> length ss"
  by (auto simp: restarts_ok_def split: if_splits) (meson less_imp_le nth_mem)

lemma slot_off_bound: "slot_off ss n \<le> length (block_bytes ss rs)"
  by (simp add: slot_off_def block_bytes_def) (metis append_take_drop_id concat_append le_add1 length_append map_append trans_le_add1)

lemma GetRestartPoint_eq:
  assumes "bi_base ss rs it" "j < length rs"
  shows "GetRestartPoint it j = slot_off ss (rs ! j)"
proof -
  let ?f = "\<lambda>r. of_nat (slot_off ss r) :: u32"
  have "drop (slot_off ss (length ss) + j * 4) (block_bytes ss rs)
    = concat (map (\<lambda>r. EncodeFixed32 (?f r)) (drop j rs)) @ EncodeFixed32 (of_nat (length rs))"
    using assms(2) by (simp add: block_bytes_def slot_off_def drop_fixed_concat length_fixed_concat)
  also have "\<dots> = EncodeFixed32 (?f (rs ! j)) @ concat (map (\<lambda>r. EncodeFixed32 (?f r)) (drop (Suc j) rs)) @ EncodeFixed32 (of_nat (length rs))"
    using assms(2) by (simp add: Cons_nth_drop_Suc [symmetric])
  finally have "GetRestartPoint it j = unat (?f (rs ! j))"
    using assms by (simp add: GetRestartPoint_def bi_base_def)
  moreover have "slot_off ss (rs ! j) < 2 ^ 32"
    using slot_off_bound [of ss "rs ! j" rs] assms(1) by (simp add: bi_base_def block_ok_def)
  ultimately show ?thesis by (simp add: unat_of_nat take_bit_nat_eq_self)
qed

lemma bi_base_upd [simp]:
  "bi_base ss rs (it\<lparr> bi_restart_index := i \<rparr>) = bi_base ss rs it" "bi_base ss rs (it\<lparr> bi_current := c \<rparr>) = bi_base ss rs it"
  "bi_base ss rs (it\<lparr> bi_key := k \<rparr>) = bi_base ss rs it" "bi_base ss rs (it\<lparr> bi_value_pos := p \<rparr>) = bi_base ss rs it"
  "bi_base ss rs (it\<lparr> bi_value_len := l \<rparr>) = bi_base ss rs it" "bi_base ss rs (advance_restart it) = bi_base ss rs it"
  by (simp_all add: bi_base_def)

lemma restarts_mono: "restarts_ok ss rs \<Longrightarrow> i \<le> j \<Longrightarrow> j < length rs \<Longrightarrow> rs ! i \<le> rs ! j"
  using sorted_wrt_nth_mono [of "(<)" rs i j] by (cases "i = j") (auto simp: restarts_ok_def)

lemma advance_restart_index:
  assumes "bi_base ss rs it" "n \<le> length ss" "bi_current it = slot_off ss n"
    "bi_restart_index it < length rs" "rs ! bi_restart_index it \<le> n"
  shows "index_at rs (bi_restart_index (advance_restart it)) n"
  using assms
proof (induction it rule: advance_restart.induct)
  case (1 it)
  let ?i = "bi_restart_index it"
  have num: "bi_num_restarts it = length rs" and ok: "restarts_ok ss rs"
    using "1.prems"(1) by (auto simp: bi_base_def block_ok_def)
  have less: "GetRestartPoint it (?i + 1) < bi_current it \<longleftrightarrow> rs ! (?i + 1) < n" if "?i + 1 < length rs"
    using GetRestartPoint_eq [OF "1.prems"(1) that] restarts_bound [OF ok that] "1.prems"(2,3) by (simp add: slot_off_less_iff)
  show ?case
  proof (cases "?i + 1 < bi_num_restarts it \<and> GetRestartPoint it (?i + 1) < bi_current it")
    case True
    then have "rs ! (?i + 1) < n" using less num by simp
    with "1.IH" [OF True] "1.prems" True show ?thesis by (subst advance_restart.simps) (simp add: num)
  next
    case False
    then have "n \<le> rs ! j" if "?i < j" "j < length rs" for j
      using that less num restarts_mono [OF ok, of "?i + 1" j] by (auto simp: not_less intro: order_trans)
    then show ?thesis using False "1.prems" by (subst advance_restart.simps) (auto simp: index_at_def)
  qed
qed

lemma DecodeEntry_slot:
  assumes "block_ok ss rs" "n < length ss" and q: "q = slot_off ss (Suc n) - length (drop (slot_shared (ss ! n)) (slot_key (ss ! n)) @ slot_value (ss ! n))"
  shows "DecodeEntry (block_bytes ss rs) (slot_off ss n) (slot_off ss (length ss))
    = Some (of_nat (slot_shared (ss ! n)), of_nat (length (slot_key (ss ! n)) - slot_shared (ss ! n)), of_nat (length (slot_value (ss ! n))), q)"
    "take (length (slot_key (ss ! n)) - slot_shared (ss ! n)) (drop q (block_bytes ss rs)) = drop (slot_shared (ss ! n)) (slot_key (ss ! n))"
    "take (length (slot_value (ss ! n))) (drop (q + (length (slot_key (ss ! n)) - slot_shared (ss ! n))) (block_bytes ss rs)) = slot_value (ss ! n)"
    "q + (length (slot_key (ss ! n)) - slot_shared (ss ! n)) + length (slot_value (ss ! n)) = slot_off ss (Suc n)"
proof -
  define sh k v where "sh = slot_shared (ss ! n)" and "k = slot_key (ss ! n)" and "v = slot_value (ss ! n)"
  define A B C where "A = concat (map slot_bytes (take n ss))" and "B = concat (map slot_bytes (drop (Suc n) ss))"
    and "C = drop (slot_off ss (length ss)) (block_bytes ss rs)"
  let ?e = "\<lambda>m. EncodeVarint64 (of_nat m :: u64)"
  let ?H = "?e sh @ ?e (length k - sh) @ ?e (length v)"
  have ok: "sh \<le> length k" "length k + length v < 2 ^ 32" "length (block_bytes ss rs) < 2 ^ 32"
    using assms(1,2) by (auto simp: block_ok_def slots_ok_def sh_def k_def v_def)
  have sb: "slot_bytes (ss ! n) = ?H @ drop sh k @ v" by (simp add: slot_bytes_def sh_def k_def v_def)
  have data: "block_bytes ss rs = A @ ?e sh @ ?e (length k - sh) @ ?e (length v) @ (drop sh k @ v @ B) @ C"
    using block_split [OF assms(2), of rs] by (simp add: sb A_def B_def C_def)
  have A: "length A = slot_off ss n" by (simp add: A_def slot_off_def)
  have q': "q = length A + length ?H" using q assms(2) A by (simp add: slot_off_Suc sb sh_def k_def v_def)
  have tot: "slot_off ss (length ss) = q + length (drop sh k @ v @ B)"
  proof -
    have "slot_off ss (length ss) = length A + length (slot_bytes (ss ! n)) + length B"
      using slots_split [OF assms(2)] by (simp add: slot_off_def A_def B_def)
    then show ?thesis using q' sb by simp
  qed
  have small: "unat (of_nat m :: u64) = m \<and> ucast (of_nat m :: u64) = (of_nat m :: u32)" if "m < 2 ^ 32" for m
    using that by (simp only: word_unat_eq_iff unsigned_ucast_eq) (simp add: unat_of_nat take_bit_nat_eq_self)
  have "sh < 2 ^ 32" "length k - sh < 2 ^ 32" "length v < 2 ^ 32" using ok by linarith+
  note sm = this [THEN small]
  have "length (drop sh k @ v @ B) < 2 ^ 32" using ok(3) unfolding data by simp
  then show "DecodeEntry (block_bytes ss rs) (slot_off ss n) (slot_off ss (length ss))
    = Some (of_nat (slot_shared (ss ! n)), of_nat (length (slot_key (ss ! n)) - slot_shared (ss ! n)), of_nat (length (slot_value (ss ! n))), q)"
    using DecodeEntry_varints [OF data _ _ _ q'] sm ok unfolding tot A by (simp add: sh_def k_def v_def)
  show "take (length (slot_key (ss ! n)) - slot_shared (ss ! n)) (drop q (block_bytes ss rs)) = drop (slot_shared (ss ! n)) (slot_key (ss ! n))"
    "take (length (slot_value (ss ! n))) (drop (q + (length (slot_key (ss ! n)) - slot_shared (ss ! n))) (block_bytes ss rs)) = slot_value (ss ! n)"
    "q + (length (slot_key (ss ! n)) - slot_shared (ss ! n)) + length (slot_value (ss ! n)) = slot_off ss (Suc n)"
    using data q' assms(2) A by (simp_all add: sh_def k_def v_def slot_off_Suc sb)
qed

lemma ParseNextKey_at:
  assumes b: "bi_before ss rs it n" and n: "n < length ss"
  shows "\<exists>it'. ParseNextKey it = (True, it') \<and> bi_at ss rs it' n"
proof -
  define sh k v where "sh = slot_shared (ss ! n)" and "k = slot_key (ss ! n)" and "v = slot_value (ss ! n)"
  define q where "q = slot_off ss (Suc n) - length (drop sh k @ v)"
  have base: "bi_base ss rs it" and ok: "block_ok ss rs" and nx: "NextEntryOffset it = slot_off ss n"
    and sh: "sh \<le> length (bi_key it)" "take sh (bi_key it) = take sh k"
    and ri: "bi_restart_index it < length rs" "rs ! bi_restart_index it \<le> n"
    using b n by (auto simp: bi_before_def bi_base_def sh_def k_def)
  have d: "bi_data it = block_bytes ss rs" "bi_restarts it = slot_off ss (length ss)" using base by (auto simp: bi_base_def)
  note D = DecodeEntry_slot [OF ok n q_def [unfolded sh_def k_def v_def], folded sh_def k_def v_def]
  have kv: "sh \<le> length k" "length k + length v < 2 ^ 32" using ok n by (auto simp: block_ok_def slots_ok_def sh_def k_def v_def)
  have "sh < 2 ^ 32" "length k - sh < 2 ^ 32" "length v < 2 ^ 32" using kv by linarith+
  then have u: "unat (of_nat sh :: u32) = sh" "unat (of_nat (length k - sh) :: u32) = length k - sh" "unat (of_nat (length v) :: u32) = length v"
    by (simp_all add: unat_of_nat take_bit_nat_eq_self)
  let ?it = "it\<lparr> bi_current := slot_off ss n, bi_key := take sh (bi_key it) @ drop sh k,
    bi_value_pos := q + (length k - sh), bi_value_len := length v \<rparr>"
  have lt: "\<not> slot_off ss (length ss) \<le> slot_off ss n" using slot_off_less [of n "length ss" ss] n by simp
  have "ParseNextKey it = (True, advance_restart ?it)"
    using lt sh(1) by (simp add: ParseNextKey_def Let_def nx d D(1,2) u)
  moreover have "bi_at ss rs (advance_restart ?it) n"
    using advance_restart_index [of ss rs ?it n] base n ri D(3,4) sh(2)
    by (simp add: bi_at_def bi_value_def NextEntryOffset_def d k_def v_def)
  ultimately show ?thesis by blast
qed

lemma ParseNextKey_end:
  assumes "bi_before ss rs it (length ss)"
  shows "\<exists>it'. ParseNextKey it = (False, it') \<and> bi_at ss rs it' (length ss)"
  using assms by (auto simp: ParseNextKey_def Let_def bi_before_def bi_at_def bi_base_def)

lemma bi_at_before:
  assumes "bi_at ss rs it n" "n < length ss"
  shows "bi_before ss rs it (Suc n)"
proof -
  have "slots_ok ss" using assms(1) by (auto simp: bi_at_def bi_base_def block_ok_def)
  then show ?thesis using assms by (auto simp: bi_at_def bi_before_def index_at_def slots_ok_def)
qed

lemma bi_before_restart:
  assumes "bi_base ss rs it" "j < length rs"
  shows "bi_before ss rs (SeekToRestartPoint j it) (rs ! j)"
proof -
  have ok: "restarts_ok ss rs" using assms(1) by (auto simp: bi_base_def block_ok_def)
  have "slot_shared (ss ! (rs ! j)) = 0" if "rs ! j < length ss"
    using ok assms(2) that nth_mem [OF assms(2)] by (cases "ss = []") (auto simp: restarts_ok_def)
  then show ?thesis
    using assms restarts_bound [OF ok assms(2)] GetRestartPoint_eq [OF assms]
    by (simp add: bi_before_def SeekToRestartPoint_def NextEntryOffset_def)
qed

lemma parse_until_at:
  assumes "bi_before ss rs it m" "m < n" "n \<le> length ss"
  shows "bi_at ss rs (parse_until (slot_off ss n) it) (n - 1)"
  using assms
proof (induction "n - m" arbitrary: it m)
  case (Suc d)
  have m: "m < length ss" using Suc.prems by simp
  obtain it' where it': "ParseNextKey it = (True, it')" "bi_at ss rs it' m" using ParseNextKey_at [OF Suc.prems(1) m] by blast
  then have nx: "NextEntryOffset it' = slot_off ss (Suc m)" using m by (simp add: bi_at_def)
  show ?case
  proof (cases "Suc m < n")
    case True
    then have "slot_off ss (Suc m) < slot_off ss n" using Suc.prems by (simp add: slot_off_less)
    then show ?thesis using Suc.hyps(1) [of "Suc m" it'] Suc.hyps(2) bi_at_before [OF it'(2) m] True Suc.prems(3) it'(1) nx
      by (subst parse_until.simps) simp
  next
    case False
    then have "n = Suc m" using Suc.prems by simp
    then show ?thesis using it' nx by (subst parse_until.simps) simp
  qed
qed simp

lemma Prev_restart_at:
  assumes "bi_base ss rs it" "n \<le> length ss" "bi_restart_index it < length rs"
  shows "\<exists>it'. Prev_restart (slot_off ss n) it = (0 < n, it') \<and> bi_base ss rs it'
    \<and> (if n = 0 then bi_current it' = bi_restarts it' else bi_restart_index it' < length rs \<and> rs ! bi_restart_index it' < n)"
  using assms
proof (induction "slot_off ss n" it rule: Prev_restart.induct)
  case (1 it)
  let ?i = "bi_restart_index it"
  have ok: "restarts_ok ss rs" using "1.prems"(1) by (auto simp: bi_base_def block_ok_def)
  have le: "slot_off ss n \<le> GetRestartPoint it ?i \<longleftrightarrow> n \<le> rs ! ?i"
    using GetRestartPoint_eq [OF "1.prems"(1,3)] restarts_bound [OF ok "1.prems"(3)] "1.prems"(2) by (simp add: slot_off_le_iff)
  consider "rs ! ?i < n" | "n \<le> rs ! ?i" "?i = 0" | "n \<le> rs ! ?i" "?i \<noteq> 0" by linarith
  then show ?case
  proof cases
    case 1
    then show ?thesis using "1.prems" le by (subst Prev_restart.simps) auto
  next
    case 2
    then have "n = 0" using ok by (simp add: restarts_ok_def)
    then show ?thesis using 2 "1.prems" le by (subst Prev_restart.simps) simp
  next
    case 3
    then show ?thesis using "1.hyps" "1.prems" le by (subst Prev_restart.simps) simp
  qed
qed

text \<open>The iterator object over the entries \<open>es\<close>.\<close>

definition block_at :: "comparator \<Rightarrow> (bytes \<Rightarrow> bool) \<Rightarrow> BlockIter \<Rightarrow> entries \<Rightarrow> nat \<Rightarrow> bool" where
  "block_at cmp key_ok it es n \<longleftrightarrow>
     (\<exists>ss rs. bi_at ss rs it n \<and> es = map slot_entry ss \<and> sorted_entries cmp key_ok es)"

context comparator_contract
begin

lemma seek_pos_eq:
  assumes "sorted_entries cmp wf es" "n \<le> length es" "\<forall>i<n. Compare cmp (fst (es ! i)) t < 0"
    "n < length es \<longrightarrow> \<not> Compare cmp (fst (es ! n)) t < 0"
  shows "seek_pos cmp t es = n"
  using assms(2-4) unfolding seek_pos_def
proof (induction n arbitrary: es)
  case 0
  then show ?case by (cases es) auto
next
  case (Suc n)
  then obtain e es' where es: "es = e # es'" by (cases es) auto
  have "Compare cmp (fst e) t < 0" using Suc.prems(2) es by auto
  moreover have "length (takeWhile (\<lambda>e. Compare cmp (fst e) t < 0) es') = n"
    using Suc.prems es by (intro Suc.IH) auto
  ultimately show ?case by (simp add: es)
qed

text \<open>In a sorted list the keys before one that is below \<open>t\<close> are below \<open>t\<close>.\<close>

lemma below_before:
  assumes "sorted_entries cmp wf es" "wf t" "n < length es" "Compare cmp (fst (es ! n)) t < 0" "i \<le> n"
  shows "Compare cmp (fst (es ! i)) t < 0"
proof (cases "i = n")
  case False
  then have "Compare cmp (fst (es ! i)) (fst (es ! n)) < 0" "wf (fst (es ! i))" "wf (fst (es ! n))"
    using assms sorted_wrt_nth_mono [of _ es i n] by (auto simp: sorted_entries_def)
  then show ?thesis using assms(2,4) cmp_less_trans by blast
qed (use assms in simp)

lemma Seek_search_at:
  assumes base: "bi_base ss rs it" and "right < length rs" "ss \<noteq> []"
  shows "\<exists>m. Seek_search cmp t it left right = Some m \<and> m \<le> max left right
    \<and> (m = left \<or> left < m \<and> Compare cmp (slot_key (ss ! (rs ! m))) t < 0)"
  using assms
proof (induction cmp t it left right rule: Seek_search.induct)
  case (1 cmp t it left right)
  let ?mid = "(left + right + 1) div 2"
  show ?case
  proof (cases "left < right")
    case True
    then have mid: "left < ?mid" "?mid \<le> right" by auto
    have ok: "block_ok ss rs" "restarts_ok ss rs" using "1.prems"(1) by (auto simp: bi_base_def block_ok_def)
    have m: "?mid < length rs" using mid "1.prems"(2) by simp
    then have r: "rs ! ?mid < length ss" "slot_shared (ss ! (rs ! ?mid)) = 0"
      using ok(2) "1.prems"(3) by (auto simp: restarts_ok_def)
    let ?k = "slot_key (ss ! (rs ! ?mid))" and ?v = "slot_value (ss ! (rs ! ?mid))"
    define q where "q = slot_off ss (Suc (rs ! ?mid)) - length (drop (slot_shared (ss ! (rs ! ?mid))) ?k @ ?v)"
    note D = DecodeEntry_slot [OF ok(1) r(1) q_def, unfolded r(2)]
    have "length ?k < 2 ^ 32" using ok(1) r(1) by (auto simp: block_ok_def slots_ok_def)
    then have u: "unat (of_nat (length ?k) :: u32) = length ?k" by (simp add: unat_of_nat take_bit_nat_eq_self)
    have dec: "DecodeEntry (bi_data it) (GetRestartPoint it ?mid) (bi_restarts it) = Some (0, of_nat (length ?k), of_nat (length ?v), q)"
      using D(1) GetRestartPoint_eq [OF "1.prems"(1) m] "1.prems"(1) by (simp add: bi_base_def)
    have key: "take (unat (of_nat (length ?k) :: u32)) (drop q (bi_data it)) = ?k"
      using D(2) "1.prems"(1) u by (simp add: bi_base_def)
    note step = Seek_search.simps [of cmp t it left right, unfolded Let_def dec option.case prod.case key]
    show ?thesis
    proof (cases "Compare cmp ?k t < 0")
      case below: True
      then obtain m where "Seek_search cmp t it ?mid right = Some m" "m \<le> max ?mid right"
        "m = ?mid \<or> ?mid < m \<and> Compare cmp (slot_key (ss ! (rs ! m))) t < 0"
        using "1.IH"(1) [OF True refl refl dec refl refl refl] key "1.prems" by auto
      then show ?thesis using True below mid step by auto
    next
      case False
      then obtain m where "Seek_search cmp t it left (?mid - 1) = Some m" "m \<le> max left (?mid - 1)"
        "m = left \<or> left < m \<and> Compare cmp (slot_key (ss ! (rs ! m))) t < 0"
        using "1.IH"(2) [OF True refl refl dec refl refl refl] key "1.prems" less_imp_diff_less [OF m, of 1] by auto
      then show ?thesis using True False mid step by auto
    qed
  next
    case False
    then show ?thesis by (subst Seek_search.simps) simp
  qed
qed

lemma Seek_scan_at:
  assumes "bi_before ss rs it n" "sorted_entries cmp wf (map slot_entry ss)"
    "\<forall>i<n. Compare cmp (slot_key (ss ! i)) t < 0"
  shows "bi_at ss rs (Seek_scan cmp t it) (seek_pos cmp t (map slot_entry ss))"
  using assms
proof (induction "length ss - n" arbitrary: it n)
  case 0
  then have n: "n = length ss" by (simp add: bi_before_def)
  then obtain it' where "ParseNextKey it = (False, it')" "bi_at ss rs it' (length ss)" using ParseNextKey_end "0.prems"(1) by blast
  moreover have "seek_pos cmp t (map slot_entry ss) = length ss" using "0.prems" n by (intro seek_pos_eq) auto
  ultimately show ?case by (subst Seek_scan.simps) simp
next
  case (Suc d)
  then have n: "n < length ss" by simp
  obtain it' where it': "ParseNextKey it = (True, it')" "bi_at ss rs it' n" using ParseNextKey_at [OF Suc.prems(1) n] by blast
  then have k: "bi_key it' = slot_key (ss ! n)" using n by (simp add: bi_at_def)
  show ?case
  proof (cases "Compare cmp (slot_key (ss ! n)) t < 0")
    case True
    then have "\<forall>i<Suc n. Compare cmp (slot_key (ss ! i)) t < 0" using Suc.prems(3) less_Suc_eq by auto
    from Suc.hyps(1) [OF _ bi_at_before [OF it'(2) n] Suc.prems(2) this] show ?thesis
      using True it'(1) k Suc.hyps(2) by (subst Seek_scan.simps) simp
  next
    case False
    then have "seek_pos cmp t (map slot_entry ss) = n" using Suc.prems n by (intro seek_pos_eq) auto
    then show ?thesis using False it' k by (subst Seek_scan.simps) simp
  qed
qed

lemma bi_Seek_at:
  assumes at: "bi_at ss rs it n" and es: "sorted_entries cmp wf (map slot_entry ss)" and t: "wf t"
  shows "bi_at ss rs (bi_Seek cmp t it) (seek_pos cmp t (map slot_entry ss))"
proof -
  have base: "bi_base ss rs it" and ok: "restarts_ok ss rs" and num: "bi_num_restarts it = length rs"
    using at by (auto simp: bi_at_def bi_base_def block_ok_def)
  have rs: "rs \<noteq> []" "rs ! 0 = 0" using ok by (auto simp: restarts_ok_def)
  have valid: "bi_Valid it \<longleftrightarrow> n < length ss"
    using at slot_off_less_iff [of n ss "length ss"] by (auto simp: bi_at_def bi_Valid_def bi_base_def)
  have below: "\<forall>i\<le>m. Compare cmp (slot_key (ss ! i)) t < 0" if "Compare cmp (slot_key (ss ! m)) t < 0" "m < length ss" for m
    using below_before [OF es t, of m] that by simp
  define c where "c = (if bi_Valid it then Compare cmp (bi_key it) t else 0)"
  have ck: "c = Compare cmp (slot_key (ss ! n)) t" if "bi_Valid it" using that valid at by (simp add: c_def bi_at_def)
  show ?thesis
  proof (cases "bi_Valid it \<and> c = 0")
    case True
    then have n: "n < length ss" "Compare cmp (slot_key (ss ! n)) t = 0" using valid ck by auto
    have "Compare cmp (slot_key (ss ! i)) t < 0" if "i < n" for i
    proof -
      have "Compare cmp (slot_key (ss ! i)) (slot_key (ss ! n)) < 0" "wf (slot_key (ss ! i))" "wf (slot_key (ss ! n))"
        using es n that sorted_wrt_nth_mono [of _ "map slot_entry ss" i n] by (auto simp: sorted_entries_def)
      then show ?thesis using n(2) t cmp_less_le_trans by (metis order_refl)
    qed
    then have "seek_pos cmp t (map slot_entry ss) = n" using es n by (intro seek_pos_eq) auto
    then show ?thesis using at True unfolding bi_Seek_def Let_def c_def [symmetric] by simp
  next
    case False
    define left where "left = (if bi_Valid it \<and> c < 0 then bi_restart_index it else 0)"
    define right where "right = (if bi_Valid it \<and> 0 < c then bi_restart_index it else length rs - 1)"
    have idx: "index_at rs (bi_restart_index it) n" if "bi_Valid it" using that valid at by (simp add: bi_at_def)
    have lr: "left < length rs" "right < length rs" using idx rs by (auto simp: left_def right_def index_at_def)
    obtain m where m: "Seek_search cmp t it left right = Some m" "m < length rs"
      "m = left \<or> left < m \<and> Compare cmp (slot_key (ss ! (rs ! m))) t < 0"
    proof (cases "ss = []")
      case True
      then have "length rs = 1" using ok by (auto simp: restarts_ok_def)
      then have "left = 0" "right = 0" using lr by auto
      then show ?thesis using that [of 0] Seek_search.simps [of cmp t it 0 0] rs(1) by simp
    next
      case False
      then show ?thesis using Seek_search_at [OF base lr(2) False, of t left] lr that by fastforce
    qed
    have eq: "bi_Seek cmp t it = Seek_scan cmp t (if m = bi_restart_index it \<and> c < 0 then it else SeekToRestartPoint m it)"
      using False m(1) unfolding bi_Seek_def Let_def c_def [symmetric] left_def right_def num by auto
    show ?thesis
    proof (cases "m = bi_restart_index it \<and> c < 0")
      case True
      then have v: "bi_Valid it" "n < length ss" using valid by (auto simp: c_def split: if_splits)
      then have "\<forall>i<Suc n. Compare cmp (slot_key (ss ! i)) t < 0" using below [of n] ck True by (simp add: less_Suc_eq_le)
      then show ?thesis using Seek_scan_at [OF bi_at_before [OF at v(2)] es] eq True by simp
    next
      case F: False
      have "\<forall>i<rs ! m. Compare cmp (slot_key (ss ! i)) t < 0"
      proof (cases "rs ! m = 0")
        case False
        then have "m \<noteq> 0" using rs(2) by metis
        then have "m \<noteq> left" using F by (auto simp: left_def)
        then have "Compare cmp (slot_key (ss ! (rs ! m))) t < 0" using m(3) by simp
        moreover have "rs ! m < length ss" using ok m(2) False nth_mem [OF m(2)] by (auto simp: restarts_ok_def split: if_splits)
        ultimately show ?thesis using below by auto
      qed simp
      then show ?thesis using Seek_scan_at [OF bi_before_restart [OF base m(2)] es] eq F by auto
    qed
  qed
qed

lemma bi_Prev_at:
  assumes at: "bi_at ss rs it n" and n: "n < length ss"
  shows "bi_at ss rs (bi_Prev it) (if n = 0 then length ss else n - 1)"
proof -
  have base: "bi_base ss rs it" "bi_current it = slot_off ss n" "bi_restart_index it < length rs"
    using at n by (auto simp: bi_at_def index_at_def)
  obtain it' where it': "Prev_restart (slot_off ss n) it = (0 < n, it')" "bi_base ss rs it'"
    "if n = 0 then bi_current it' = bi_restarts it' else bi_restart_index it' < length rs \<and> rs ! bi_restart_index it' < n"
    using Prev_restart_at [OF base(1) less_imp_le [OF n] base(3)] by blast
  show ?thesis
  proof (cases "n = 0")
    case True
    then show ?thesis using it' base by (simp add: bi_Prev_def bi_at_def) (simp add: bi_base_def)
  next
    case False
    then show ?thesis
      using it' base parse_until_at [OF bi_before_restart [OF it'(2)], of "bi_restart_index it'" n] n by (simp add: bi_Prev_def)
  qed
qed

lemma bi_SeekToFirst_at:
  assumes "bi_base ss rs it"
  shows "bi_at ss rs (bi_SeekToFirst it) 0"
proof -
  have "rs \<noteq> []" "rs ! 0 = 0" using assms by (auto simp: bi_base_def block_ok_def restarts_ok_def)
  then have b: "bi_before ss rs (SeekToRestartPoint 0 it) 0" using bi_before_restart [OF assms, of 0] by simp
  show ?thesis
    using ParseNextKey_at [OF b] ParseNextKey_end [of ss rs "SeekToRestartPoint 0 it"] b
    by (cases "ss = []") (auto simp: bi_SeekToFirst_def)
qed

lemma bi_SeekToLast_at:
  assumes base: "bi_base ss rs it"
  shows "bi_at ss rs (bi_SeekToLast it) (length ss - 1)"
proof -
  have ok: "restarts_ok ss rs" and eqs: "bi_num_restarts it = length rs" "bi_restarts it = slot_off ss (length ss)"
    using base by (auto simp: bi_base_def block_ok_def)
  have l: "length rs - 1 < length rs" using ok by (simp add: restarts_ok_def)
  note b = bi_before_restart [OF base l]
  show ?thesis
  proof (cases "ss = []")
    case True
    then have "rs ! (length rs - 1) = length ss" using ok by (auto simp: restarts_ok_def)
    then obtain it' where "ParseNextKey (SeekToRestartPoint (length rs - 1) it) = (False, it')" "bi_at ss rs it' (length ss)"
      using ParseNextKey_end b by metis
    then show ?thesis using True unfolding bi_SeekToLast_def eqs by (subst parse_until.simps) simp
  next
    case False
    then have "rs ! (length rs - 1) < length ss" using ok nth_mem [OF l] by (auto simp: restarts_ok_def)
    then show ?thesis using parse_until_at [OF b, of "length ss"] unfolding bi_SeekToLast_def eqs by simp
  qed
qed

lemma bi_Next_at: "bi_at ss rs it n \<Longrightarrow> n < length ss \<Longrightarrow> bi_at ss rs (bi_Next it) (Suc n)"
  using ParseNextKey_at [OF bi_at_before] ParseNextKey_end bi_at_before
  by (cases "Suc n = length ss") (fastforce simp: bi_Next_def)+

end

lemma block_at_lift:
  assumes "block_at cmp key_ok it es n"
    "\<And>ss rs. bi_at ss rs it n \<Longrightarrow> es = map slot_entry ss \<Longrightarrow> sorted_entries cmp key_ok es \<Longrightarrow> bi_at ss rs it' m"
  shows "block_at cmp key_ok it' es m"
  using assms unfolding block_at_def by blast

lemma bi_at_base: "bi_at ss rs it n \<Longrightarrow> bi_base ss rs it"
  by (simp add: bi_at_def)

lemma bi_at_Valid: "bi_at ss rs it n \<Longrightarrow> bi_Valid it \<longleftrightarrow> n < length ss"
  by (auto simp: bi_at_def bi_Valid_def bi_base_def slot_off_less_iff)

sublocale comparator_contract \<subseteq> block: sorted_iterator cmp wf "BlockIterator cmp" "block_at cmp wf"
proof (unfold_locales, goal_cases)
  case (1 it es n)
  then show ?case by (auto simp: block_at_def)
next
  case (2 it es n)
  then show ?case by (auto simp: block_at_def bi_at_def)
next
  case (3 it es n)
  then show ?case by (auto simp: block_at_def BlockIterator_def bi_at_Valid)
next
  case (4 it es n)
  then show ?case by (auto simp: block_at_def BlockIterator_def bi_at_def)
next
  case (5 it es n)
  then show ?case by (auto simp: block_at_def BlockIterator_def bi_at_def)
next
  case (6 it es n)
  then show ?case by (auto simp: block_at_def BlockIterator_def bi_at_def bi_base_def)
next
  case (7 it es n)
  then show ?case by (rule block_at_lift) (simp add: BlockIterator_def bi_SeekToFirst_at bi_at_base)
next
  case (8 it es n)
  then show ?case by (rule block_at_lift) (use bi_SeekToLast_at bi_at_base in \<open>auto simp: BlockIterator_def\<close>)
next
  case (9 it es n t)
  then show ?case by (auto simp: BlockIterator_def elim!: block_at_lift intro: bi_Seek_at)
next
  case (10 it es n)
  then show ?case by (auto simp: BlockIterator_def elim!: block_at_lift intro: bi_Next_at)
next
  case (11 it es n)
  then show ?case using bi_Prev_at by (auto simp: BlockIterator_def elim!: block_at_lift split: if_splits) fastforce+
qed

section \<open>The builder writes well-formed blocks\<close>

definition bb_rep :: "BlockBuilder \<Rightarrow> slot list \<Rightarrow> nat list \<Rightarrow> bool" where
  "bb_rep b ss rs \<longleftrightarrow> 1 \<le> bb_interval b \<and> \<not> bb_finished b \<and> slots_ok ss \<and> restarts_ok ss rs
     \<and> bb_buffer b = concat (map slot_bytes ss) \<and> bb_restarts b = map (\<lambda>r. of_nat (slot_off ss r)) rs
     \<and> bb_counter b + last rs = length ss \<and> bb_last_key b = (if ss = [] then [] else slot_key (last ss))"

lemma shared_prefix: "shared_prefix a b \<le> length a" "shared_prefix a b \<le> length b"
    "take (shared_prefix a b) a = take (shared_prefix a b) b"
  by (induction a b rule: shared_prefix.induct) auto

lemma bb_rep_init: "1 \<le> interval \<Longrightarrow> bb_rep (BlockBuilder_init interval) [] [0]"
  by (simp add: bb_rep_def BlockBuilder_init_def slots_ok_def restarts_ok_def)

lemma bb_rep_Reset: "bb_rep b ss rs \<Longrightarrow> bb_rep (bb_Reset b) [] [0]"
  by (simp add: bb_rep_def bb_Reset_def slots_ok_def restarts_ok_def)

lemma slot_off_append [simp]: "n \<le> length ss \<Longrightarrow> slot_off (ss @ ss') n = slot_off ss n"
  by (simp add: slot_off_def)

lemma slots_ok_snoc:
  assumes "slots_ok ss" "sh \<le> length key" "length key + length v < 2 ^ 32"
    "if ss = [] then sh = 0 else sh \<le> length (slot_key (last ss)) \<and> take sh (slot_key (last ss)) = take sh key"
  shows "slots_ok (ss @ [(sh, key, v)])"
  unfolding slots_ok_def
proof (intro allI impI)
  fix n assume "n < length (ss @ [(sh, key, v)])"
  then consider "n < length ss" | "n = length ss" by fastforce
  then show "slot_shared ((ss @ [(sh, key, v)]) ! n) \<le> length (slot_key ((ss @ [(sh, key, v)]) ! n))
     \<and> length (slot_key ((ss @ [(sh, key, v)]) ! n)) + length (slot_value ((ss @ [(sh, key, v)]) ! n)) < 2 ^ 32
     \<and> (if n = 0 then slot_shared ((ss @ [(sh, key, v)]) ! n) = 0
         else slot_shared ((ss @ [(sh, key, v)]) ! n) \<le> length (slot_key ((ss @ [(sh, key, v)]) ! (n - 1)))
           \<and> take (slot_shared ((ss @ [(sh, key, v)]) ! n)) (slot_key ((ss @ [(sh, key, v)]) ! (n - 1)))
             = take (slot_shared ((ss @ [(sh, key, v)]) ! n)) (slot_key ((ss @ [(sh, key, v)]) ! n)))"
  proof cases
    case 1
    have nth: "(ss @ [(sh, key, v)]) ! n = ss ! n" "(ss @ [(sh, key, v)]) ! (n - 1) = ss ! (n - 1)"
      using 1 less_imp_diff_less [OF 1, of 1] by (simp_all add: nth_append del: One_nat_def)
    show ?thesis unfolding nth using assms(1) 1 unfolding slots_ok_def by blast
  next
    case 2
    then show ?thesis using assms(2-4) by (auto simp: nth_append last_conv_nth split: if_splits)
  qed
qed

lemma bb_rep_Add:
  assumes rep: "bb_rep b ss rs" and len: "length key + length v < 2 ^ 32"
  shows "\<exists>sh rs'. bb_rep (bb_Add key v b) (ss @ [(sh, key, v)]) rs'"
proof (cases "bb_counter b < bb_interval b")
  case True
  define sh where "sh = shared_prefix (bb_last_key b) key"
  note sp = shared_prefix [of "bb_last_key b" key, folded sh_def]
  have "slots_ok (ss @ [(sh, key, v)])"
    using rep sp len by (intro slots_ok_snoc) (auto simp: bb_rep_def)
  moreover have ro: "restarts_ok (ss @ [(sh, key, v)]) rs"
    using rep by (cases "ss = []") (auto simp: bb_rep_def restarts_ok_def sh_def nth_append)
  moreover have "map (\<lambda>r. of_nat (slot_off (ss @ [(sh, key, v)]) r)) rs = (map (\<lambda>r. of_nat (slot_off ss r)) rs :: u32 list)"
    using rep restarts_bound [of ss rs] by (auto simp: bb_rep_def in_set_conv_nth)
  ultimately have "bb_rep (bb_Add key v b) (ss @ [(sh, key, v)]) rs"
    using rep True sp unfolding bb_Add_def Let_def sh_def [symmetric]
    by (simp add: bb_rep_def PutVarint64_def slot_bytes_def)
  then show ?thesis by blast
next
  case False
  have ss: "ss \<noteq> []" "last rs < length ss" using rep False by (auto simp: bb_rep_def)
  have "slots_ok (ss @ [(0, key, v)])" using rep len by (intro slots_ok_snoc) (auto simp: bb_rep_def)
  moreover have "restarts_ok (ss @ [(0, key, v)]) (rs @ [length ss])"
    using rep ss(1) by (auto simp: bb_rep_def restarts_ok_def nth_append sorted_wrt_append)
  moreover have "map (\<lambda>r. of_nat (slot_off (ss @ [(0, key, v)]) r)) rs = (map (\<lambda>r. of_nat (slot_off ss r)) rs :: u32 list)"
    using rep restarts_bound [of ss rs] by (auto simp: bb_rep_def in_set_conv_nth)
  moreover have "slot_off ss (length ss) = length (bb_buffer b)" using rep by (simp add: bb_rep_def slot_off_def)
  ultimately have "bb_rep (bb_Add key v b) (ss @ [(0, key, v)]) (rs @ [length ss])"
    using rep False by (simp add: bb_rep_def bb_Add_def PutVarint64_def slot_bytes_def)
  then show ?thesis by blast
qed

definition bb_AddAll :: "entries \<Rightarrow> BlockBuilder \<Rightarrow> BlockBuilder" where
  "bb_AddAll es b = fold (\<lambda>(k, v). bb_Add k v) es b"

lemma bb_rep_AddAll:
  assumes "bb_rep b ss rs" "\<forall>e\<in>set es. length (fst e) + length (snd e) < 2 ^ 32"
  shows "\<exists>ss' rs'. bb_rep (bb_AddAll es b) (ss @ ss') rs' \<and> map slot_entry ss' = es"
  using assms
proof (induction es arbitrary: b ss rs)
  case Nil
  then show ?case by (auto simp: bb_AddAll_def intro: exI [of _ "[]"])
next
  case (Cons e es)
  obtain sh rs1 where "bb_rep (bb_Add (fst e) (snd e) b) (ss @ [(sh, fst e, snd e)]) rs1"
    using bb_rep_Add [OF Cons.prems(1), of "fst e" "snd e"] Cons.prems(2) by auto
  from Cons.IH [OF this] Cons.prems(2) obtain ss' rs' where
    "bb_rep (bb_AddAll es (bb_Add (fst e) (snd e) b)) ((ss @ [(sh, fst e, snd e)]) @ ss') rs'" "map slot_entry ss' = es" by auto
  then show ?case by (intro exI [of _ "(sh, e) # ss'"] exI [of _ rs']) (simp add: bb_AddAll_def case_prod_beta)
qed

lemma bb_Finish_rep:
  assumes "bb_rep b ss rs"
  shows "fst (bb_Finish b) = block_bytes ss rs"
proof -
  have "fold (\<lambda>r buf. PutFixed32 buf r) xs buf = buf @ concat (map EncodeFixed32 xs)" for xs buf
    by (induction xs arbitrary: buf) (auto simp: PutFixed32_def)
  then show ?thesis using assms by (simp add: bb_Finish_def Let_def bb_rep_def block_bytes_def PutFixed32_def comp_def)
qed

lemma NewIterator_block:
  assumes "block_ok ss rs"
  shows "\<exists>it. Block_NewIterator (Block_init (block_bytes ss rs)) = Inr it \<and> bi_at ss rs it (length ss)"
proof -
  let ?d = "block_bytes ss rs"
  have len: "length ?d = slot_off ss (length ss) + 4 * length rs + 4"
    by (simp add: block_bytes_def slot_off_def length_fixed_concat)
  have rs: "0 < length rs" "length rs < 2 ^ 32" using assms len by (auto simp: block_ok_def restarts_ok_def)
  have num: "NumRestarts ?d (length ?d) = length rs"
  proof -
    have "drop (length ?d - 4) ?d = EncodeFixed32 (of_nat (length rs))"
      by (simp add: block_bytes_def length_fixed_concat)
    then show ?thesis using rs(2) by (simp add: NumRestarts_def unat_of_nat take_bit_nat_eq_self)
  qed
  have "Block_init ?d = \<lparr> bl_data = ?d, bl_size = length ?d, bl_restart_offset = slot_off ss (length ss) \<rparr>"
    using len num by (simp add: Block_init_def Let_def)
  then have "Block_NewIterator (Block_init ?d) = Inr (BlockIter_init ?d (slot_off ss (length ss)) (length rs))"
    using len num rs by (simp add: Block_NewIterator_def Let_def)
  moreover have "bi_at ss rs (BlockIter_init ?d (slot_off ss (length ss)) (length rs)) (length ss)"
    using assms by (simp add: bi_at_def bi_base_def BlockIter_init_def)
  ultimately show ?thesis by blast
qed

lemma block_roundtrip_at:
  assumes "1 \<le> interval" "\<forall>e\<in>set es. length (fst e) + length (snd e) < 2 ^ 32"
    "data = fst (bb_Finish (bb_AddAll es (BlockBuilder_init interval)))" "length data < 2 ^ 32" "sorted_entries cmp key_ok es"
  shows "\<exists>it. Block_NewIterator (Block_init data) = Inr it \<and> block_at cmp key_ok it es (length es)"
proof -
  obtain ss rs where ss: "bb_rep (bb_AddAll es (BlockBuilder_init interval)) ss rs" "map slot_entry ss = es"
    using bb_rep_AddAll [OF bb_rep_init [OF assms(1)] assms(2)] by auto
  then have data: "data = block_bytes ss rs" using assms(3) bb_Finish_rep by simp
  have "block_ok ss rs" using ss(1) assms(4) data by (simp add: block_ok_def bb_rep_def)
  from NewIterator_block [OF this] obtain it where
    "Block_NewIterator (Block_init data) = Inr it" "bi_at ss rs it (length ss)" using data by blast
  moreover have "length ss = length es" using ss(2) by auto
  ultimately show ?thesis using ss(2) assms(5) unfolding block_at_def by metis
qed

context comparator_contract
begin

lemma block_iterates: "block_at cmp wf it es (length es) \<Longrightarrow> iterates cmp wf (BlockIterator cmp) it es"
  by (rule block.iat_iterates)

end

section \<open>Properties\<close>

text \<open>
  C21: Blocks are read back.  For every comparator that keeps the contract, a block built from sorted
  entries (prefix-compressed, with any restart interval) opens to an iterator that scans exactly
  these entries forwards and backwards and then becomes invalid.  Its \<open>Seek\<close>, a binary search over the restart points
  and a linear scan, stands at the first entry not below the target.  After any sequence of calls, a \<open>Seek\<close> from
  a valid position and a change of direction included, it stands where a cursor into the entries stands.
\<close>

theorem block_roundtrip:
  assumes "comparator_contract cmp key_ok" "1 \<le> interval" "\<forall>e\<in>set es. length (fst e) + length (snd e) < 2 ^ 32"
    "data = fst (bb_Finish (bb_AddAll es (BlockBuilder_init interval)))" "length data < 2 ^ 32" "sorted_entries cmp key_ok es"
  shows "\<exists>it. Block_NewIterator (Block_init data) = Inr it \<and> iterates cmp key_ok (BlockIterator cmp) it es"
proof -
  obtain it where "Block_NewIterator (Block_init data) = Inr it" "block_at cmp key_ok it es (length es)"
    using block_roundtrip_at [OF assms(2-6)] by blast
  then show ?thesis using comparator_contract.block_iterates [OF assms(1)] by blast
qed

lemma example_block_length:
  "length (fst (bb_Finish (bb_AddAll [([97], [1]), ([97, 98], [2]), ([98], [])] (BlockBuilder_init 2)))) < 2 ^ 32"
  by (simp add: bb_AddAll_def bb_Add_def Let_def PutVarint64_def BlockBuilder_init_def first_byte_varint(1) bb_Finish_def PutFixed32_def)

theorem block_roundtrip_witness:
  "\<exists>it. Block_NewIterator (Block_init (fst (bb_Finish (bb_AddAll [([97], [1]), ([97, 98], [2]), ([98], [])] (BlockBuilder_init 2))))) = Inr it
     \<and> it_walk (BlockIterator BytewiseComparator) bi_Next 4 (bi_Seek BytewiseComparator [97, 97] it) = [([97, 98], [2]), ([98], [])]
     \<and> bi_key (bi_Prev (bi_Seek BytewiseComparator [97, 97] (bi_SeekToLast it))) = [97]
     \<and> \<not> bi_Valid (bi_Prev (bi_SeekToFirst it))"
proof -
  let ?I = "BlockIterator BytewiseComparator" and ?es = "[([97], [1]), ([97, 98], [2]), ([98], [])] :: entries"
  have "sorted_entries BytewiseComparator (\<lambda>_. True) ?es"
    by (simp add: sorted_entries_def BytewiseComparator_def)
  from block_roundtrip [OF bytewise.comparator_contract_axioms _ _ refl example_block_length this]
  obtain it where it: "Block_NewIterator (Block_init (fst (bb_Finish (bb_AddAll ?es (BlockBuilder_init 2))))) = Inr it"
    "iterates BytewiseComparator (\<lambda>_. True) ?I it ?es"
    by auto
  note run = iterates_run [OF it(2)]
  have "it_walk ?I bi_Next 4 (bi_Seek BytewiseComparator [97, 97] it) = [([97, 98], [2]), ([98], [])]"
  proof -
    have "dropWhile (\<lambda>e. Compare BytewiseComparator (fst e) [97, 97] < 0) ?es = [([97, 98], [2]), ([98], [])]"
      by (simp add: BytewiseComparator_def)
    moreover have "Suc (length ?es) = 4" by simp
    ultimately show ?thesis using iterates_Seek [OF it(2), of "[97, 97]"] by (simp only: BlockIterator_def Iterator.simps simp_thms)
  qed
  moreover have "bi_key (bi_Prev (bi_Seek BytewiseComparator [97, 97] (bi_SeekToLast it))) = [97]"
    using run(2) [of "[CSeekToLast, CSeek [97, 97], CPrev]"] run(1) [of "[CSeekToLast, CSeek [97, 97]]"]
    by (simp add: BlockIterator_def seek_pos_def BytewiseComparator_def)
  moreover have "\<not> bi_Valid (bi_Prev (bi_SeekToFirst it))"
    using run(1) [of "[CSeekToFirst, CPrev]"] run(1) [of "[CSeekToFirst]"] by (simp add: BlockIterator_def)
  ultimately show ?thesis using it(1) by blast
qed

end
