(* ===== verification/Merger.thy ===== *)
theory Merger
  imports Blocks
begin

text \<open>
  The merging iterator (\<^verbatim>\<open>src/table/merger.cc\<close>).  A child is an \<^verbatim>\<open>IteratorWrapper\<close>; \<open>child\<close> is the
  class of its operations, and \<open>current_\<close> is the index of the child it points to.
\<close>

section \<open>MergingIterator\<close>

datatype merge_direction = kForward | kReverse

record 'w MergingIter =
  mi_children :: "'w list"
  mi_current :: "nat option"
  mi_direction :: merge_direction

definition MergingIter_init :: "'s Iterator \<Rightarrow> 's list \<Rightarrow> 's IteratorWrapper MergingIter" where
  "MergingIter_init it children =
     \<lparr> mi_children = map (w_Set it) children, mi_current = None, mi_direction = kForward \<rparr>"

definition smaller_child :: "comparator \<Rightarrow> 'w Iterator \<Rightarrow> 'w list \<Rightarrow> nat \<Rightarrow> nat option \<Rightarrow> nat option" where
  "smaller_child cmp child cs i smallest =
     (if it_Valid child (cs ! i) then
        case smallest of
          None \<Rightarrow> Some i
        | Some j \<Rightarrow> if Compare cmp (it_key child (cs ! i)) (it_key child (cs ! j)) < 0 then Some i else smallest
      else smallest)"

definition FindSmallest :: "comparator \<Rightarrow> 'w Iterator \<Rightarrow> 'w MergingIter \<Rightarrow> 'w MergingIter" where
  "FindSmallest cmp child m =
     m\<lparr> mi_current := fold (smaller_child cmp child (mi_children m)) [0..<length (mi_children m)] None \<rparr>"

definition larger_child :: "comparator \<Rightarrow> 'w Iterator \<Rightarrow> 'w list \<Rightarrow> nat \<Rightarrow> nat option \<Rightarrow> nat option" where
  "larger_child cmp child cs i largest =
     (if it_Valid child (cs ! i) then
        case largest of
          None \<Rightarrow> Some i
        | Some j \<Rightarrow> if 0 < Compare cmp (it_key child (cs ! i)) (it_key child (cs ! j)) then Some i else largest
      else largest)"

definition FindLargest :: "comparator \<Rightarrow> 'w Iterator \<Rightarrow> 'w MergingIter \<Rightarrow> 'w MergingIter" where
  "FindLargest cmp child m =
     m\<lparr> mi_current := fold (larger_child cmp child (mi_children m)) (rev [0..<length (mi_children m)]) None \<rparr>"

definition mi_Valid :: "'w MergingIter \<Rightarrow> bool" where
  "mi_Valid m = (mi_current m \<noteq> None)"

abbreviation mi_cur :: "'w MergingIter \<Rightarrow> 'w" where
  "mi_cur m \<equiv> mi_children m ! the (mi_current m)"

definition mi_key :: "'w Iterator \<Rightarrow> 'w MergingIter \<Rightarrow> bytes" where
  "mi_key child m = it_key child (mi_cur m)"

definition mi_value :: "'w Iterator \<Rightarrow> 'w MergingIter \<Rightarrow> bytes" where
  "mi_value child m = it_value child (mi_cur m)"

definition mi_SeekToFirst :: "comparator \<Rightarrow> 'w Iterator \<Rightarrow> 'w MergingIter \<Rightarrow> 'w MergingIter" where
  "mi_SeekToFirst cmp child m =
     (FindSmallest cmp child (m\<lparr> mi_children := map (it_SeekToFirst child) (mi_children m) \<rparr>))\<lparr> mi_direction := kForward \<rparr>"

definition mi_SeekToLast :: "comparator \<Rightarrow> 'w Iterator \<Rightarrow> 'w MergingIter \<Rightarrow> 'w MergingIter" where
  "mi_SeekToLast cmp child m =
     (FindLargest cmp child (m\<lparr> mi_children := map (it_SeekToLast child) (mi_children m) \<rparr>))\<lparr> mi_direction := kReverse \<rparr>"

definition mi_Seek :: "comparator \<Rightarrow> 'w Iterator \<Rightarrow> bytes \<Rightarrow> 'w MergingIter \<Rightarrow> 'w MergingIter" where
  "mi_Seek cmp child target m =
     (FindSmallest cmp child (m\<lparr> mi_children := map (it_Seek child target) (mi_children m) \<rparr>))\<lparr> mi_direction := kForward \<rparr>"

text \<open>The loops over all children but the current one.\<close>

definition mi_others :: "('w \<Rightarrow> 'w) \<Rightarrow> 'w MergingIter \<Rightarrow> 'w MergingIter" where
  "mi_others f m =
     m\<lparr> mi_children := map (\<lambda>i. if Some i = mi_current m then mi_children m ! i else f (mi_children m ! i))
          [0..<length (mi_children m)] \<rparr>"

definition mi_Next :: "comparator \<Rightarrow> 'w Iterator \<Rightarrow> 'w MergingIter \<Rightarrow> 'w MergingIter" where
  "mi_Next cmp child m =
     (let m = (if mi_direction m \<noteq> kForward then
                 (mi_others (\<lambda>c. let c = it_Seek child (mi_key child m) c
                                 in if it_Valid child c \<and> Compare cmp (mi_key child m) (it_key child c) = 0
                                    then it_Next child c else c) m)\<lparr> mi_direction := kForward \<rparr>
               else m);
          m = m\<lparr> mi_children := (mi_children m)[the (mi_current m) := it_Next child (mi_cur m)] \<rparr>
      in FindSmallest cmp child m)"

definition mi_Prev :: "comparator \<Rightarrow> 'w Iterator \<Rightarrow> 'w MergingIter \<Rightarrow> 'w MergingIter" where
  "mi_Prev cmp child m =
     (let m = (if mi_direction m \<noteq> kReverse then
                 (mi_others (\<lambda>c. let c = it_Seek child (mi_key child m) c
                                 in if it_Valid child c then it_Prev child c else it_SeekToLast child c) m)
                   \<lparr> mi_direction := kReverse \<rparr>
               else m);
          m = m\<lparr> mi_children := (mi_children m)[the (mi_current m) := it_Prev child (mi_cur m)] \<rparr>
      in FindLargest cmp child m)"

fun first_error :: "status list \<Rightarrow> status" where
  "first_error [] = OK"
| "first_error (s # ss) = (if ok s then first_error ss else s)"

definition mi_status :: "'w Iterator \<Rightarrow> 'w MergingIter \<Rightarrow> status" where
  "mi_status child m = first_error (map (it_status child) (mi_children m))"

definition MergingIterator :: "comparator \<Rightarrow> 'w Iterator \<Rightarrow> 'w MergingIter Iterator" where
  "MergingIterator cmp child =
     \<lparr> it_Valid = mi_Valid, it_SeekToFirst = mi_SeekToFirst cmp child, it_SeekToLast = mi_SeekToLast cmp child,
       it_Seek = mi_Seek cmp child, it_Next = mi_Next cmp child, it_Prev = mi_Prev cmp child,
       it_key = mi_key child, it_value = mi_value child, it_status = mi_status child \<rparr>"

text \<open>\<open>NewMergingIterator\<close>: an empty iterator, the only child, or a merging iterator.\<close>

definition NewMergingIterator :: "'s Iterator \<Rightarrow> 's list \<Rightarrow> status + 's + 's IteratorWrapper MergingIter" where
  "NewMergingIterator it children =
     (if length children = 0 then Inl NewEmptyIterator
      else if length children = 1 then Inr (Inl (children ! 0))
      else Inr (Inr (MergingIter_init it children)))"

section \<open>Cuts of the children at a position of the merged list\<close>

text \<open>Position \<open>p\<close> of \<open>l\<close> separates its entries in \<open>S\<close> from the others.\<close>

definition cut :: "entries \<Rightarrow> nat \<Rightarrow> (bytes \<times> bytes) set \<Rightarrow> bool" where
  "cut l p S \<longleftrightarrow> p \<le> length l \<and> set (take p l) = set l \<inter> S"

definition prev_pos :: "entries \<Rightarrow> nat \<Rightarrow> nat" where
  "prev_pos l p = (if p = 0 then length l else p - 1)"

lemma fold_pick:
  assumes "\<And>i j k. V i \<Longrightarrow> V j \<Longrightarrow> V k \<Longrightarrow> B j k \<Longrightarrow> \<not> B i k \<Longrightarrow> \<not> B i j" "\<And>i. V i \<Longrightarrow> \<not> B i i"
  shows "case fold (\<lambda>i s. if V i then (case s of None \<Rightarrow> Some i | Some j \<Rightarrow> if B i j then Some i else s) else s) xs None of
      None \<Rightarrow> \<forall>i\<in>set xs. \<not> V i
    | Some c \<Rightarrow> c \<in> set xs \<and> V c \<and> (\<forall>i\<in>set xs. V i \<longrightarrow> \<not> B i c)"
proof (induction xs rule: rev_induct)
  case (snoc x xs)
  define r where "r = fold (\<lambda>i s. if V i then (case s of None \<Rightarrow> Some i | Some j \<Rightarrow> if B i j then Some i else s) else s) xs None"
  show ?case
  proof (cases r)
    case None
    then show ?thesis using snoc assms(2) unfolding r_def [symmetric] by (auto simp: r_def [symmetric])
  next
    case (Some c)
    then have c: "c \<in> set xs" "V c" "\<forall>i\<in>set xs. V i \<longrightarrow> \<not> B i c" using snoc unfolding r_def [symmetric] by auto
    have "\<forall>i\<in>set (xs @ [x]). V i \<longrightarrow> \<not> B i x" if "V x" "B x c"
      using c that assms(1) [of _ x c] assms(2) by auto
    then show ?thesis using Some c by (auto simp: r_def [symmetric])
  qed
qed simp

text \<open>\<open>es\<close> is the merge of the lists \<open>ess\<close>; no key occurs twice.\<close>

definition merged :: "comparator \<Rightarrow> (bytes \<Rightarrow> bool) \<Rightarrow> entries list \<Rightarrow> entries \<Rightarrow> bool" where
  "merged cmp key_ok ess es \<longleftrightarrow> mset es = mset (concat ess) \<and> sorted_entries cmp key_ok es"

definition merge_at :: "comparator \<Rightarrow> (bytes \<Rightarrow> bool) \<Rightarrow> ('w \<Rightarrow> entries \<Rightarrow> nat \<Rightarrow> bool) \<Rightarrow> 'w MergingIter \<Rightarrow> entries \<Rightarrow> nat \<Rightarrow> bool" where
  "merge_at cmp key_ok cat m es n \<longleftrightarrow> (\<exists>ess pos. length ess = length (mi_children m) \<and> merged cmp key_ok ess es \<and> n \<le> length es
     \<and> (\<forall>i<length ess. cat (mi_children m ! i) (ess ! i) (pos i))
     \<and> (if n < length es then
          \<exists>c p. mi_current m = Some c \<and> c < length ess \<and> (\<forall>i<length ess. cut (ess ! i) (p i) (set (take n es)))
            \<and> p c < length (ess ! c) \<and> ess ! c ! p c = es ! n \<and> pos c = p c
            \<and> (\<forall>i<length ess. i \<noteq> c \<longrightarrow> pos i = (if mi_direction m = kForward then p i else prev_pos (ess ! i) (p i)))
        else mi_current m = None))"

lemma distinct_concat_nth:
  assumes "distinct (concat ess)" "i < length ess" "j < length ess" "x \<in> set (ess ! i)" "x \<in> set (ess ! j)"
  shows "i = j"
  using assms
proof (induction ess arbitrary: i j)
  case (Cons l ess)
  have "x \<notin> set l" if "k < length ess" "x \<in> set (ess ! k)" for k
    using Cons.prems(1) nth_mem [OF that(1)] that(2) by auto
  then show ?case using Cons.prems Cons.IH [of "i - 1" "j - 1"] by (cases i; cases j) auto
qed simp

context sorted_iterator
begin

lemma entries_less:
  "sorted_entries cmp key_ok es \<Longrightarrow> i < j \<Longrightarrow> j < length es \<Longrightarrow> Compare cmp (fst (es ! i)) (fst (es ! j)) < 0"
  using sorted_wrt_nth_mono [of "\<lambda>e f. Compare cmp (fst e) (fst f) < 0" es i j] by (simp add: sorted_entries_def)

lemma cmp_greater_trans:
  "key_ok a \<Longrightarrow> key_ok b \<Longrightarrow> key_ok c \<Longrightarrow> 0 < Compare cmp a b \<Longrightarrow> 0 < Compare cmp b c \<Longrightarrow> 0 < Compare cmp a c"
  using cmp_less_trans [of c b a] cmp_sym [of c b] cmp_sym [of b a] cmp_sym [of c a] by simp

lemma entries_ok: "sorted_entries cmp key_ok es \<Longrightarrow> i < length es \<Longrightarrow> key_ok (fst (es ! i))"
  by (simp add: sorted_entries_def)

lemma entries_less_iff:
  assumes "sorted_entries cmp key_ok es" "i < length es" "j < length es"
  shows "Compare cmp (fst (es ! i)) (fst (es ! j)) < 0 \<longleftrightarrow> i < j"
proof -
  have "\<not> i < j" if "\<not> i < j" by (rule that)
  moreover have "\<not> Compare cmp (fst (es ! i)) (fst (es ! j)) < 0" if "j \<le> i"
  proof (cases "j = i")
    case True
    then show ?thesis using assms cmp_refl entries_ok by force
  next
    case False
    then have "Compare cmp (fst (es ! j)) (fst (es ! i)) < 0" using that assms entries_less [of es j i] by simp
    then show ?thesis using cmp_sym [of "fst (es ! i)" "fst (es ! j)"] assms entries_ok by force
  qed
  ultimately show ?thesis using entries_less [OF assms(1) _ assms(3), of i] by (meson not_less)
qed

lemma sorted_entries_distinct: "sorted_entries cmp key_ok es \<Longrightarrow> distinct es"
  unfolding distinct_conv_nth using entries_less_iff
  by (metis linorder_neqE_nat less_irrefl_nat)

lemma merged_facts:
  assumes "merged cmp key_ok ess es"
  shows "set es = (\<Union>i<length ess. set (ess ! i))" "distinct es" "sorted_entries cmp key_ok es"
    "\<And>i j x. i < length ess \<Longrightarrow> j < length ess \<Longrightarrow> x \<in> set (ess ! i) \<Longrightarrow> x \<in> set (ess ! j) \<Longrightarrow> i = j"
proof -
  show s: "sorted_entries cmp key_ok es" using assms by (simp add: merged_def)
  then show d: "distinct es" by (rule sorted_entries_distinct)
  have m: "mset es = mset (concat ess)" using assms by (simp add: merged_def)
  then have "set es = (\<Union>l\<in>set ess. set l)" by (metis mset_eq_setD set_concat)
  moreover have "set ess = (!) ess ` {..<length ess}" by (auto simp: in_set_conv_nth)
  ultimately show "set es = (\<Union>i<length ess. set (ess ! i))" by simp
  have "distinct (concat ess)" using d m mset_eq_imp_distinct_iff by blast
  then show "\<And>i j x. i < length ess \<Longrightarrow> j < length ess \<Longrightarrow> x \<in> set (ess ! i) \<Longrightarrow> x \<in> set (ess ! j) \<Longrightarrow> i = j"
    by (rule distinct_concat_nth)
qed

lemma seek_cut:
  assumes "sorted_entries cmp key_ok l" "key_ok t"
  shows "set (take (seek_pos cmp t l) l) = {e \<in> set l. Compare cmp (fst e) t < 0}"
proof -
  have t: "take (seek_pos cmp t l) l = takeWhile (\<lambda>e. Compare cmp (fst e) t < 0) l"
    by (simp add: seek_pos_def takeWhile_eq_take [symmetric])
  have "e \<in> set (takeWhile (\<lambda>e. Compare cmp (fst e) t < 0) l)" if "e \<in> set l" "Compare cmp (fst e) t < 0" for e
    using assms(1) that
  proof (induction l)
    case (Cons a l)
    then have s: "sorted_entries cmp key_ok l" by (simp add: sorted_entries_def)
    have "Compare cmp (fst a) t < 0"
      using Cons.prems cmp_less_trans [of "fst a" "fst e" t] assms(2) by (auto simp: sorted_entries_def)
    then show ?case using Cons s by auto
  qed simp
  then show ?thesis unfolding t by (auto dest: set_takeWhileD)
qed

lemma entries_cut:
  assumes "sorted_entries cmp key_ok es" "n < length es"
  shows "set (take n es) = {e \<in> set es. Compare cmp (fst e) (fst (es ! n)) < 0}"
proof -
  have "set (take n es) = (!) es ` {i. i < n}" using assms(2) by (auto simp: nth_image [symmetric] lessThan_def [symmetric] atLeast0LessThan)
  also have "{i. i < n} = {i. i < length es \<and> Compare cmp (fst (es ! i)) (fst (es ! n)) < 0}"
    using entries_less_iff [OF assms(1) _ assms(2)] assms(2) by (auto dest: less_trans)
  also have "(!) es ` \<dots> = {e \<in> set es. Compare cmp (fst e) (fst (es ! n)) < 0}"
    unfolding set_conv_nth by (auto simp: image_def)
  finally show ?thesis .
qed

text \<open>Where the entry at a position of the merged list sits in the children, for a cut before and after it.\<close>

lemma nth_in_take: "q < p \<Longrightarrow> q < length l \<Longrightarrow> l ! q \<in> set (take p l)"
  by (metis in_set_conv_nth length_take min_less_iff_conj nth_take)

lemma cut_next:
  assumes m: "merged cmp key_ok ess es" and i: "i < length ess" and l: "sorted_entries cmp key_ok (ess ! i)"
    and c: "cut (ess ! i) p (set (take n es))" and p: "p < length (ess ! i)"
  shows "\<exists>k\<ge>n. k < length es \<and> ess ! i ! p = es ! k"
proof -
  have "ess ! i ! p \<notin> set (take p (ess ! i))"
    using sorted_entries_distinct [OF l] p by (auto simp: in_set_conv_nth nth_eq_iff_index_eq)
  then have "ess ! i ! p \<notin> set (take n es)" using c p by (auto simp: cut_def)
  moreover have "ess ! i ! p \<in> set es" unfolding merged_facts(1) [OF m] using i p by (metis UN_I lessThan_iff nth_mem)
  then obtain k where k: "k < length es" "ess ! i ! p = es ! k" by (metis in_set_conv_nth)
  ultimately have "\<not> k < n" using nth_in_take by metis
  then have "n \<le> k" by simp
  then show ?thesis using k by blast
qed

lemma cut_prev:
  assumes m: "merged cmp key_ok ess es" and n: "n \<le> length es"
    and c: "cut (ess ! i) p (set (take n es))" and p: "0 < p"
  shows "\<exists>k<n. ess ! i ! (p - 1) = es ! k"
proof -
  have "ess ! i ! (p - 1) \<in> set (take p (ess ! i))"
    using c p by (intro nth_in_take) (auto simp: cut_def)
  then have "ess ! i ! (p - 1) \<in> set (take n es)" using c by (auto simp: cut_def)
  then show ?thesis using n by (auto simp: in_set_conv_nth)
qed

lemma cut_le: "cut l p S \<Longrightarrow> p \<le> length l"
  by (simp add: cut_def)

lemma sorted_children:
  assumes "merged cmp key_ok ess es" "\<forall>i<length ess. iat (cs ! i) (ess ! i) (pos i)" "i < length ess"
  shows "sorted_entries cmp key_ok (ess ! i)"
  using assms iat_sorted by blast

lemma not_in_take:
  assumes "x \<in> set l" "x \<notin> set (take p l)"
  shows "\<exists>q\<ge>p. q < length l \<and> l ! q = x"
proof -
  obtain q where q: "q < length l" "l ! q = x" using assms(1) by (metis in_set_conv_nth)
  then have "\<not> q < p" using assms(2) nth_in_take by blast
  then show ?thesis using q not_less by blast
qed

lemma nth_not_in_take: "distinct l \<Longrightarrow> n < length l \<Longrightarrow> l ! n \<notin> set (take n l)"
  by (auto simp: in_set_conv_nth nth_eq_iff_index_eq)

text \<open>With every child at a cut for \<open>n\<close>, the smallest valid child is at entry \<open>n\<close> of the merge.\<close>

lemma FindSmallest_current:
  assumes m: "merged cmp key_ok ess es" and cs: "length cs = length ess" "\<forall>i<length ess. iat (cs ! i) (ess ! i) (p i)"
    and c: "\<forall>i<length ess. cut (ess ! i) (p i) (set (take n es))" and n: "n \<le> length es"
  shows "case fold (smaller_child cmp it cs) [0..<length cs] None of
      None \<Rightarrow> n = length es
    | Some c \<Rightarrow> n < length es \<and> c < length ess \<and> p c < length (ess ! c) \<and> ess ! c ! p c = es ! n"
proof -
  let ?V = "\<lambda>i. i < length ess \<and> it_Valid it (cs ! i)"
  let ?B = "\<lambda>i j. Compare cmp (it_key it (cs ! i)) (it_key it (cs ! j)) < 0"
  have so: "sorted_entries cmp key_ok es" using m by (simp add: merged_def)
  have V: "p i < length (ess ! i)" if "?V i" for i using cs(2) that iat_Valid by blast
  have nxt: "\<exists>k\<ge>n. k < length es \<and> ess ! i ! p i = es ! k \<and> it_key it (cs ! i) = fst (es ! k)" if "?V i" for i
  proof -
    have i: "i < length ess" "iat (cs ! i) (ess ! i) (p i)" using that cs(2) by auto
    then show ?thesis
      using cut_next [OF m i(1) iat_sorted [OF i(2)], of "p i" n] c V [OF that] iat_key [OF i(2)] by auto
  qed
  have key_n: "\<exists>j. ?V j \<and> it_key it (cs ! j) = fst (es ! n)" if n': "n < length es"
  proof -
    obtain j where j: "j < length ess" "es ! n \<in> set (ess ! j)" using merged_facts(1) [OF m] nth_mem [OF n'] by auto
    have ij: "iat (cs ! j) (ess ! j) (p j)" using cs(2) j(1) by blast
    have "es ! n \<notin> set (take (p j) (ess ! j))"
      using c j nth_not_in_take [OF merged_facts(2) [OF m] n'] by (auto simp: cut_def)
    then obtain q where q: "p j \<le> q" "q < length (ess ! j)" "ess ! j ! q = es ! n" using not_in_take [OF j(2)] by blast
    then have v: "?V j" using iat_Valid [OF ij] j(1) by simp
    obtain k where k: "n \<le> k" "k < length es" "ess ! j ! p j = es ! k" "it_key it (cs ! j) = fst (es ! k)" using nxt [OF v] by blast
    have "\<not> n < k"
      using entries_less_iff [OF iat_sorted [OF ij] q(2), of "p j"] entries_less_iff [OF so n' k(2)] q k by auto
    then show ?thesis using k v by auto
  qed
  have at_n: "ess ! i ! p i = es ! n" if i: "?V i" and j: "it_key it (cs ! j) = fst (es ! n)" "\<not> ?B j i" and n': "n < length es" for i j
  proof -
    obtain k where k: "n \<le> k" "k < length es" "ess ! i ! p i = es ! k" "it_key it (cs ! i) = fst (es ! k)" using nxt [OF i] by blast
    then have "\<not> n < k" using j entries_less_iff [OF so n' k(2)] by auto
    then show ?thesis using k by simp
  qed
  have ok: "key_ok (it_key it (cs ! i))" if "?V i" for i using nxt [OF that] entries_ok [OF so] by metis
  have pick: "case fold (\<lambda>i s. if ?V i then (case s of None \<Rightarrow> Some i | Some j \<Rightarrow> if ?B i j then Some i else s) else s) [0..<length cs] None of
      None \<Rightarrow> \<forall>i\<in>set [0..<length cs]. \<not> ?V i
    | Some c \<Rightarrow> c \<in> set [0..<length cs] \<and> ?V c \<and> (\<forall>i\<in>set [0..<length cs]. ?V i \<longrightarrow> \<not> ?B i c)"
    by (rule fold_pick [of ?V ?B]) (use ok cmp_less_trans cmp_refl in \<open>metis, fastforce\<close>)
  have eq: "fold (smaller_child cmp it cs) [0..<length cs] None
    = fold (\<lambda>i s. if ?V i then (case s of None \<Rightarrow> Some i | Some j \<Rightarrow> if ?B i j then Some i else s) else s) [0..<length cs] None"
    by (rule fold_cong) (auto simp: smaller_child_def cs(1) fun_eq_iff)
  show ?thesis
  proof (cases "fold (smaller_child cmp it cs) [0..<length cs] None")
    case None
    then have "\<not> ?V i" for i using pick [folded eq] cs(1) by auto
    then show ?thesis using None key_n n by force
  next
    case (Some c)
    then have c: "?V c" "\<forall>i. ?V i \<longrightarrow> \<not> ?B i c" using pick [folded eq] cs(1) by auto
    then have n': "n < length es" using nxt [OF c(1)] by auto
    then obtain j where "?V j" "it_key it (cs ! j) = fst (es ! n)" using key_n by blast
    then show ?thesis using Some c n' V [OF c(1)] at_n [OF c(1)] by auto
  qed
qed

text \<open>With every child just before a cut for \<open>n\<close>, the largest valid child is at entry \<open>n - 1\<close>.\<close>

lemma FindLargest_current:
  assumes m: "merged cmp key_ok ess es" and cs: "length cs = length ess" "\<forall>i<length ess. iat (cs ! i) (ess ! i) (prev_pos (ess ! i) (p i))"
    and c: "\<forall>i<length ess. cut (ess ! i) (p i) (set (take n es))" and n: "n \<le> length es"
  shows "case fold (larger_child cmp it cs) (rev [0..<length cs]) None of
      None \<Rightarrow> n = 0
    | Some c \<Rightarrow> 0 < n \<and> c < length ess \<and> 0 < p c \<and> p c \<le> length (ess ! c) \<and> ess ! c ! (p c - 1) = es ! (n - 1)"
proof -
  let ?V = "\<lambda>i. i < length ess \<and> it_Valid it (cs ! i)"
  let ?B = "\<lambda>i j. 0 < Compare cmp (it_key it (cs ! i)) (it_key it (cs ! j))"
  have so: "sorted_entries cmp key_ok es" using m by (simp add: merged_def)
  have pl: "p i \<le> length (ess ! i)" if "i < length ess" for i using c that cut_le by blast
  have V: "?V i \<longleftrightarrow> i < length ess \<and> 0 < p i" for i
  proof (cases "i < length ess")
    case True
    then have "iat (cs ! i) (ess ! i) (prev_pos (ess ! i) (p i))" using cs(2) by blast
    from iat_Valid [OF this] show ?thesis using True pl [OF True] by (cases "p i = 0") (auto simp: prev_pos_def)
  qed simp
  have prv: "\<exists>k<n. ess ! i ! (p i - 1) = es ! k \<and> it_key it (cs ! i) = fst (es ! k)" if "?V i" for i
  proof -
    have i: "i < length ess" "iat (cs ! i) (ess ! i) (p i - 1)" "0 < p i" "p i - 1 < length (ess ! i)"
      using that cs(2) V [of i] pl [of i] by (auto simp: prev_pos_def)
    then show ?thesis using cut_prev [OF m n _ i(3)] c iat_key [OF i(2,4)] by metis
  qed
  have key_n: "\<exists>j. ?V j \<and> it_key it (cs ! j) = fst (es ! (n - 1))" if n': "0 < n"
  proof -
    have e: "es ! (n - 1) \<in> set (take n es)" "es ! (n - 1) \<in> set es" using n n' by (auto intro: nth_in_take)
    obtain j where j: "j < length ess" "es ! (n - 1) \<in> set (ess ! j)" using merged_facts(1) [OF m] e(2) by auto
    then have "es ! (n - 1) \<in> set (take (p j) (ess ! j))" using c e(1) by (auto simp: cut_def)
    then obtain q where q: "q < p j" "q < length (ess ! j)" "ess ! j ! q = es ! (n - 1)" by (auto simp: in_set_conv_nth)
    then have v: "?V j" using V [of j] j(1) by simp
    have ij: "iat (cs ! j) (ess ! j) (prev_pos (ess ! j) (p j))" using cs(2) j(1) by blast
    obtain k where k: "k < n" "ess ! j ! (p j - 1) = es ! k" "it_key it (cs ! j) = fst (es ! k)" using prv [OF v] by blast
    have "p j - 1 < length (ess ! j)" using q(1) pl [OF j(1)] by linarith
    then have "\<not> k < n - 1"
      using entries_less_iff [OF iat_sorted [OF ij], of "p j - 1" q] entries_less_iff [OF so, of k "n - 1"] q k n by auto
    then show ?thesis using k v by (metis Suc_pred' less_Suc_eq n' diff_Suc_1)
  qed
  have at_n: "ess ! i ! (p i - 1) = es ! (n - 1)" if i: "?V i" and j: "it_key it (cs ! j) = fst (es ! (n - 1))" "\<not> ?B j i" for i j
  proof -
    obtain k where k: "k < n" "ess ! i ! (p i - 1) = es ! k" "it_key it (cs ! i) = fst (es ! k)" using prv [OF i] by blast
    have "n - 1 < length es" "k < length es" using k(1) n by auto
    then have "\<not> k < n - 1"
      using j k n cmp_sym [of "fst (es ! k)" "fst (es ! (n - 1))"] entries_less [OF so, of k "n - 1"] entries_ok [OF so] by auto
    then have "k = n - 1" using k(1) by simp
    then show ?thesis using k by simp
  qed
  have ok: "key_ok (it_key it (cs ! i))" if "?V i" for i using prv [OF that] entries_ok [OF so] n by (metis order_less_le_trans)
  have pick: "case fold (\<lambda>i s. if ?V i then (case s of None \<Rightarrow> Some i | Some j \<Rightarrow> if ?B i j then Some i else s) else s) (rev [0..<length cs]) None of
      None \<Rightarrow> \<forall>i\<in>set (rev [0..<length cs]). \<not> ?V i
    | Some c \<Rightarrow> c \<in> set (rev [0..<length cs]) \<and> ?V c \<and> (\<forall>i\<in>set (rev [0..<length cs]). ?V i \<longrightarrow> \<not> ?B i c)"
  proof (rule fold_pick [of ?V ?B])
    show "\<not> ?B i j" if "?V i" "?V j" "?V k" "?B j k" "\<not> ?B i k" for i j k
      using that cmp_greater_trans [OF ok [of i] ok [of j] ok [of k]] by blast
    show "\<not> ?B i i" if "?V i" for i using cmp_refl [OF ok [OF that]] by simp
  qed
  have eq: "fold (larger_child cmp it cs) (rev [0..<length cs]) None
    = fold (\<lambda>i s. if ?V i then (case s of None \<Rightarrow> Some i | Some j \<Rightarrow> if ?B i j then Some i else s) else s) (rev [0..<length cs]) None"
    by (rule fold_cong) (auto simp: larger_child_def cs(1) fun_eq_iff)
  show ?thesis
  proof (cases "fold (larger_child cmp it cs) (rev [0..<length cs]) None")
    case None
    then have "\<not> ?V i" for i using pick [folded eq] cs(1) by auto
    then show ?thesis using None key_n by force
  next
    case (Some c)
    then have c: "?V c" "\<forall>i. ?V i \<longrightarrow> \<not> ?B i c" using pick [folded eq] cs(1) by auto
    then have n': "0 < n" using prv [OF c(1)] by auto
    then obtain j where "?V j" "it_key it (cs ! j) = fst (es ! (n - 1))" using key_n by blast
    then show ?thesis using Some c n' V [of c] pl [of c] at_n [OF c(1)] by auto
  qed
qed

lemma cut_advance:
  assumes m: "merged cmp key_ok ess es" and i: "i < length ess" "sorted_entries cmp key_ok (ess ! i)"
    and c: "cut (ess ! i) p (set (take n es))" and n: "n < length es"
  shows "cut (ess ! i) (if es ! n \<in> set (ess ! i) then Suc p else p) (set (take (Suc n) es))"
proof (cases "es ! n \<in> set (ess ! i)")
  case True
  then have "es ! n \<notin> set (take p (ess ! i))" using c nth_not_in_take [OF merged_facts(2) [OF m] n] by (auto simp: cut_def)
  then obtain q where q: "p \<le> q" "q < length (ess ! i)" "ess ! i ! q = es ! n" using not_in_take [OF True] by blast
  then obtain k where k: "n \<le> k" "k < length es" "ess ! i ! p = es ! k" using cut_next [OF m i c] by auto
  have "\<not> n < k" using entries_less_iff [OF i(2) q(2), of p] entries_less_iff [OF merged_facts(3) [OF m] n k(2)] q k by auto
  then have "ess ! i ! p = es ! n" "p < length (ess ! i)" using k q by auto
  then show ?thesis using True c n by (auto simp: cut_def take_Suc_conv_app_nth)
qed (use c n in \<open>auto simp: cut_def take_Suc_conv_app_nth\<close>)

lemma FindSmallest_at:
  assumes m: "merged cmp key_ok ess es" and cs: "length (mi_children x) = length ess" "\<forall>i<length ess. iat (mi_children x ! i) (ess ! i) (p i)"
    and c: "\<forall>i<length ess. cut (ess ! i) (p i) (set (take n es))" and n: "n \<le> length es"
  shows "merge_at cmp key_ok iat ((FindSmallest cmp it x)\<lparr> mi_direction := kForward \<rparr>) es n"
  unfolding merge_at_def FindSmallest_def
  using FindSmallest_current [OF m cs c n] m cs c n
  by (intro exI [of _ ess] exI [of _ p]) (auto split: option.splits)

lemma FindLargest_at:
  assumes m: "merged cmp key_ok ess es" and cs: "length (mi_children x) = length ess" "\<forall>i<length ess. iat (mi_children x ! i) (ess ! i) (prev_pos (ess ! i) (p i))"
    and c: "\<forall>i<length ess. cut (ess ! i) (p i) (set (take n es))" and n: "n \<le> length es"
  shows "merge_at cmp key_ok iat ((FindLargest cmp it x)\<lparr> mi_direction := kReverse \<rparr>) es (if n = 0 then length es else n - 1)"
proof (cases "fold (larger_child cmp it (mi_children x)) (rev [0..<length (mi_children x)]) None")
  case None
  then show ?thesis using FindLargest_current [OF m cs c n] m cs unfolding merge_at_def FindLargest_def
    by (intro exI [of _ ess] exI [of _ "\<lambda>i. prev_pos (ess ! i) (p i)"]) simp
next
  case (Some a)
  then have a: "0 < n" "a < length ess" "0 < p a" "p a \<le> length (ess ! a)" "ess ! a ! (p a - 1) = es ! (n - 1)"
    using FindLargest_current [OF m cs c n] by auto
  have in_a: "es ! (n - 1) \<in> set (ess ! a)" using a by (metis diff_less less_le_trans nth_mem zero_less_one)
  define p' where "p' = p(a := p a - 1)"
  have tk: "set (take n es) = insert (es ! (n - 1)) (set (take (n - 1) es))" using a(1) n by (cases n) (auto simp: take_Suc_conv_app_nth)
  have "cut (ess ! i) (p' i) (set (take (n - 1) es))" if i: "i < length ess" for i
  proof (cases "i = a")
    case True
    have "distinct (ess ! a)" using sorted_entries_distinct iat_sorted cs(2) a(2) by blast
    then have "set (take (p a) (ess ! a)) = insert (es ! (n - 1)) (set (take (p a - 1) (ess ! a)))" "es ! (n - 1) \<notin> set (take (p a - 1) (ess ! a))"
      using a nth_not_in_take [of "ess ! a" "p a - 1"] by (cases "p a"; auto simp: take_Suc_conv_app_nth)+
    moreover have "es ! (n - 1) \<notin> set (take (n - 1) es)" using nth_not_in_take [OF merged_facts(2) [OF m], of "n - 1"] a(1) n by simp
    moreover have "set (take (p a) (ess ! a)) = insert (es ! (n - 1)) (set (ess ! a) \<inter> set (take (n - 1) es))"
      using c [rule_format, OF a(2)] in_a unfolding cut_def tk by (simp add: Int_insert_right_if1)
    ultimately have "set (take (p a - 1) (ess ! a)) = set (ess ! a) \<inter> set (take (n - 1) es)"
      using insert_ident [of "es ! (n - 1)" "set (take (p a - 1) (ess ! a))" "set (ess ! a) \<inter> set (take (n - 1) es)"] by simp
    then show ?thesis using True a(4) by (simp add: cut_def p'_def)
  next
    case False
    then have "es ! (n - 1) \<notin> set (ess ! i)" using merged_facts(4) [OF m i a(2) _ in_a] by blast
    then show ?thesis using c [rule_format, OF i] False unfolding cut_def tk by (auto simp: p'_def)
  qed
  then show ?thesis
    using Some a m cs n unfolding merge_at_def FindLargest_def
    by (intro exI [of _ ess] exI [of _ "\<lambda>i. prev_pos (ess ! i) (p i)"])
       (auto simp: p'_def prev_pos_def intro!: exI [of _ p'] split: if_splits)
qed

lemma cut_unique: "distinct l \<Longrightarrow> cut l p S \<Longrightarrow> cut l q S \<Longrightarrow> p = q"
proof -
  assume d: "distinct l" and c: "cut l p S" "cut l q S"
  have len: "card (set (take k l)) = k" if "k \<le> length l" for k
    using distinct_card [OF distinct_take [OF d]] that by simp
  have "set (take p l) = set (take q l)" using c by (simp add: cut_def)
  then show "p = q" using len c unfolding cut_def by metis
qed

lemma cut_seek:
  assumes m: "merged cmp key_ok ess es" and i: "i < length ess" "sorted_entries cmp key_ok (ess ! i)" and t: "key_ok t"
  shows "cut (ess ! i) (seek_pos cmp t (ess ! i)) (set (take (seek_pos cmp t es) es))"
proof -
  have "set (ess ! i) \<subseteq> set es" unfolding merged_facts(1) [OF m] using i(1) by blast
  then show ?thesis
    unfolding cut_def seek_cut [OF i(2) t] seek_cut [OF merged_facts(3) [OF m] t] by (auto simp: seek_pos_le)
qed

lemma cut_seek_key:
  assumes m: "merged cmp key_ok ess es" and i: "i < length ess" "sorted_entries cmp key_ok (ess ! i)"
    and c: "cut (ess ! i) p (set (take n es))" and n: "n < length es"
  shows "seek_pos cmp (fst (es ! n)) (ess ! i) = p"
proof -
  have sub: "set (ess ! i) \<subseteq> set es" unfolding merged_facts(1) [OF m] using i(1) by blast
  have "set (take (seek_pos cmp (fst (es ! n)) (ess ! i)) (ess ! i)) = set (ess ! i) \<inter> set (take n es)"
    unfolding seek_cut [OF i(2) entries_ok [OF merged_facts(3) [OF m] n]] entries_cut [OF merged_facts(3) [OF m] n]
    using sub by blast
  then have "cut (ess ! i) (seek_pos cmp (fst (es ! n)) (ess ! i)) (set (take n es))" by (simp add: cut_def seek_pos_le)
  then show ?thesis using cut_unique [OF sorted_entries_distinct [OF i(2)] _ c] by blast
qed

lemma mi_others_nth:
  "i < length (mi_children m) \<Longrightarrow> mi_children (mi_others f m) ! i
     = (if mi_current m = Some i then mi_children m ! i else f (mi_children m ! i))"
  "length (mi_children (mi_others f m)) = length (mi_children m)" "mi_current (mi_others f m) = mi_current m"
  by (auto simp: mi_others_def)

text \<open>Turning around: afterwards every child is where the direction wants it.\<close>

lemma turn_forward:
  assumes at: "merge_at cmp key_ok iat m es n" and n: "n < length es"
  obtains ess c p m1 where "merged cmp key_ok ess es" "length (mi_children m1) = length ess" "mi_current m1 = Some c" "c < length ess"
    "\<forall>i<length ess. iat (mi_children m1 ! i) (ess ! i) (p i)" "\<forall>i<length ess. cut (ess ! i) (p i) (set (take n es))"
    "p c < length (ess ! c)" "ess ! c ! p c = es ! n" "mi_direction m1 = kForward"
    "mi_Next cmp it m = FindSmallest cmp it (m1\<lparr> mi_children := (mi_children m1)[c := it_Next it (mi_children m1 ! c)] \<rparr>)"
proof -
  obtain ess pos c p where ess: "length ess = length (mi_children m)" "merged cmp key_ok ess es"
    and pos: "\<forall>i<length ess. iat (mi_children m ! i) (ess ! i) (pos i)"
    and c: "mi_current m = Some c" "c < length ess" "\<forall>i<length ess. cut (ess ! i) (p i) (set (take n es))"
      "p c < length (ess ! c)" "ess ! c ! p c = es ! n" "pos c = p c"
    and dir: "\<forall>i<length ess. i \<noteq> c \<longrightarrow> pos i = (if mi_direction m = kForward then p i else prev_pos (ess ! i) (p i))"
    using at n unfolding merge_at_def by auto
  have key: "mi_key it m = fst (es ! n)" using c by (simp add: mi_key_def iat_key [OF pos [rule_format, OF c(2)]])
  define f where "f = (\<lambda>x. let x = it_Seek it (mi_key it m) x in
     if it_Valid it x \<and> Compare cmp (mi_key it m) (it_key it x) = 0 then it_Next it x else x)"
  define m1 where "m1 = (if mi_direction m \<noteq> kForward then (mi_others f m)\<lparr> mi_direction := kForward \<rparr> else m)"
  have so: "sorted_entries cmp key_ok es" using ess(2) by (simp add: merged_def)
  have "iat (mi_children m1 ! i) (ess ! i) (p i)" if i: "i < length ess" for i
  proof (cases "mi_direction m = kForward \<or> i = c")
    case True
    then show ?thesis using pos dir c i ess(1) by (cases "i = c") (auto simp: m1_def mi_others_nth)
  next
    case False
    have at_i: "iat (mi_children m ! i) (ess ! i) (pos i)" using pos i by blast
    have sk: "iat (it_Seek it (fst (es ! n)) (mi_children m ! i)) (ess ! i) (p i)"
      using iat_Seek [OF at_i entries_ok [OF so n]] cut_seek_key [OF ess(2) i iat_sorted [OF at_i] _ n] c(3) i by auto
    have "Compare cmp (fst (es ! n)) (it_key it (it_Seek it (fst (es ! n)) (mi_children m ! i))) \<noteq> 0"
      if "it_Valid it (it_Seek it (fst (es ! n)) (mi_children m ! i))"
    proof -
      have p: "p i < length (ess ! i)" using iat_Valid [OF sk] that by simp
      obtain k where k: "n \<le> k" "k < length es" "ess ! i ! p i = es ! k"
        using cut_next [OF ess(2) i iat_sorted [OF at_i] _ p, of n] c(3) i by auto
      have "k \<noteq> n" using merged_facts(4) [OF ess(2) i c(2), of "es ! n"] k(3) c(4,5) nth_mem p False by metis
      then show ?thesis using entries_less [OF so, of n k] k iat_key [OF sk p] by simp
    qed
    then have "f (mi_children m ! i) = it_Seek it (fst (es ! n)) (mi_children m ! i)" by (auto simp: f_def key Let_def)
    then show ?thesis using sk False c(1) i ess(1) by (auto simp: m1_def mi_others_nth)
  qed
  moreover have "mi_Next cmp it m = FindSmallest cmp it (m1\<lparr> mi_children := (mi_children m1)[c := it_Next it (mi_children m1 ! c)] \<rparr>)"
    using c(1) unfolding mi_Next_def f_def [symmetric] by (simp add: m1_def mi_others_nth)
  ultimately show ?thesis
    using that [of ess m1 c p] ess c by (simp add: m1_def mi_others_nth)
qed

lemma turn_backward:
  assumes at: "merge_at cmp key_ok iat m es n" and n: "n < length es"
  obtains ess c p m1 where "merged cmp key_ok ess es" "length (mi_children m1) = length ess" "mi_current m1 = Some c" "c < length ess"
    "\<forall>i<length ess. i \<noteq> c \<longrightarrow> iat (mi_children m1 ! i) (ess ! i) (prev_pos (ess ! i) (p i))" "iat (mi_children m1 ! c) (ess ! c) (p c)"
    "\<forall>i<length ess. cut (ess ! i) (p i) (set (take n es))" "p c < length (ess ! c)" "mi_direction m1 = kReverse"
    "mi_Prev cmp it m = FindLargest cmp it (m1\<lparr> mi_children := (mi_children m1)[c := it_Prev it (mi_children m1 ! c)] \<rparr>)"
proof -
  obtain ess pos c p where ess: "length ess = length (mi_children m)" "merged cmp key_ok ess es"
    and pos: "\<forall>i<length ess. iat (mi_children m ! i) (ess ! i) (pos i)"
    and c: "mi_current m = Some c" "c < length ess" "\<forall>i<length ess. cut (ess ! i) (p i) (set (take n es))"
      "p c < length (ess ! c)" "ess ! c ! p c = es ! n" "pos c = p c"
    and dir: "\<forall>i<length ess. i \<noteq> c \<longrightarrow> pos i = (if mi_direction m = kForward then p i else prev_pos (ess ! i) (p i))"
    using at n unfolding merge_at_def by auto
  have key: "mi_key it m = fst (es ! n)" using c by (simp add: mi_key_def iat_key [OF pos [rule_format, OF c(2)]])
  define f where "f = (\<lambda>x. let x = it_Seek it (mi_key it m) x in
     if it_Valid it x then it_Prev it x else it_SeekToLast it x)"
  define m1 where "m1 = (if mi_direction m \<noteq> kReverse then (mi_others f m)\<lparr> mi_direction := kReverse \<rparr> else m)"
  have so: "sorted_entries cmp key_ok es" using ess(2) by (simp add: merged_def)
  have "iat (mi_children m1 ! i) (ess ! i) (prev_pos (ess ! i) (p i))" if i: "i < length ess" "i \<noteq> c" for i
  proof (cases "mi_direction m = kReverse")
    case True
    then show ?thesis using pos dir i by (auto simp: m1_def)
  next
    case False
    have at_i: "iat (mi_children m ! i) (ess ! i) (pos i)" using pos i by blast
    have sk: "iat (it_Seek it (fst (es ! n)) (mi_children m ! i)) (ess ! i) (p i)"
      using iat_Seek [OF at_i entries_ok [OF so n]] cut_seek_key [OF ess(2) i(1) iat_sorted [OF at_i] _ n] c(3) i by auto
    have "iat (f (mi_children m ! i)) (ess ! i) (prev_pos (ess ! i) (p i))"
      using iat_Prev [OF sk] iat_SeekToLast [OF sk] iat_Valid [OF sk] iat_le [OF sk]
      by (auto simp: f_def key Let_def prev_pos_def simp del: One_nat_def)
    then show ?thesis using False c(1) i ess(1) by (auto simp: m1_def mi_others_nth)
  qed
  moreover have "iat (mi_children m1 ! c) (ess ! c) (p c)"
    using pos c ess(1) by (auto simp: m1_def mi_others_nth)
  moreover have "mi_Prev cmp it m = FindLargest cmp it (m1\<lparr> mi_children := (mi_children m1)[c := it_Prev it (mi_children m1 ! c)] \<rparr>)"
    using c(1) unfolding mi_Prev_def f_def [symmetric] by (simp add: m1_def mi_others_nth)
  ultimately show ?thesis
    using that [of ess m1 c p] ess c by (simp add: m1_def mi_others_nth)
qed

lemma merge_atD:
  assumes "merge_at cmp key_ok iat m es n"
  obtains ess pos where "length ess = length (mi_children m)" "merged cmp key_ok ess es" "n \<le> length es"
    "\<And>i. i < length ess \<Longrightarrow> iat (mi_children m ! i) (ess ! i) (pos i)"
  using assms unfolding merge_at_def by blast

lemma merged_subset: "merged cmp key_ok ess es \<Longrightarrow> i < length ess \<Longrightarrow> set (ess ! i) \<subseteq> set es"
  using merged_facts(1) by blast

lemma FindSmallest_forward:
  "mi_direction x = kForward \<Longrightarrow> (FindSmallest cmp it x)\<lparr> mi_direction := kForward \<rparr> = FindSmallest cmp it x"
  by (cases x) (simp add: FindSmallest_def)

lemma FindLargest_reverse:
  "mi_direction x = kReverse \<Longrightarrow> (FindLargest cmp it x)\<lparr> mi_direction := kReverse \<rparr> = FindLargest cmp it x"
  by (cases x) (simp add: FindLargest_def)

lemma merge_at_SeekToFirst:
  assumes "merge_at cmp key_ok iat m es n" shows "merge_at cmp key_ok iat (mi_SeekToFirst cmp it m) es 0"
proof -
  obtain ess pos where e: "length ess = length (mi_children m)" "merged cmp key_ok ess es"
    "\<And>i. i < length ess \<Longrightarrow> iat (mi_children m ! i) (ess ! i) (pos i)" using merge_atD [OF assms] by metis
  then show ?thesis unfolding mi_SeekToFirst_def
    by (intro FindSmallest_at [OF e(2), where p = "\<lambda>_. 0"]) (auto simp: cut_def intro: iat_SeekToFirst)
qed

lemma merge_at_SeekToLast:
  assumes "merge_at cmp key_ok iat m es n" shows "merge_at cmp key_ok iat (mi_SeekToLast cmp it m) es (length es - 1)"
proof -
  obtain ess pos where e: "length ess = length (mi_children m)" "merged cmp key_ok ess es"
    "\<And>i. i < length ess \<Longrightarrow> iat (mi_children m ! i) (ess ! i) (pos i)" using merge_atD [OF assms] by metis
  have "iat (it_SeekToLast it (mi_children m ! i)) (ess ! i) (prev_pos (ess ! i) (length (ess ! i)))" if "i < length ess" for i
    using iat_SeekToLast [OF e(3) [OF that]] by (cases "ess ! i") (auto simp: prev_pos_def)
  moreover have "cut (ess ! i) (length (ess ! i)) (set (take (length es) es))" if "i < length ess" for i
    using merged_subset [OF e(2) that] by (auto simp: cut_def)
  ultimately have "merge_at cmp key_ok iat (mi_SeekToLast cmp it m) es (if length es = 0 then length es else length es - 1)"
    unfolding mi_SeekToLast_def
    by (intro FindLargest_at [OF e(2), where p = "\<lambda>i. length (ess ! i)"]) (auto simp: e(1))
  then show ?thesis by (cases "es = []") auto
qed

lemma merge_at_Seek:
  assumes "merge_at cmp key_ok iat m es n" "key_ok t" shows "merge_at cmp key_ok iat (mi_Seek cmp it t m) es (seek_pos cmp t es)"
proof -
  obtain ess pos where e: "length ess = length (mi_children m)" "merged cmp key_ok ess es"
    "\<And>i. i < length ess \<Longrightarrow> iat (mi_children m ! i) (ess ! i) (pos i)" using merge_atD [OF assms(1)] by metis
  then show ?thesis unfolding mi_Seek_def
    by (intro FindSmallest_at [OF e(2), where p = "\<lambda>i. seek_pos cmp t (ess ! i)"])
       (auto intro!: iat_Seek cut_seek [OF e(2)] simp: assms(2) seek_pos_le intro: iat_sorted)
qed

lemma merge_at_Next:
  assumes "merge_at cmp key_ok iat m es n" "n < length es" shows "merge_at cmp key_ok iat (mi_Next cmp it m) es (Suc n)"
proof -
  obtain ess c p m1 where t: "merged cmp key_ok ess es" "length (mi_children m1) = length ess" "mi_current m1 = Some c" "c < length ess"
    "\<forall>i<length ess. iat (mi_children m1 ! i) (ess ! i) (p i)" "\<forall>i<length ess. cut (ess ! i) (p i) (set (take n es))"
    "p c < length (ess ! c)" "ess ! c ! p c = es ! n" "mi_direction m1 = kForward"
    "mi_Next cmp it m = FindSmallest cmp it (m1\<lparr> mi_children := (mi_children m1)[c := it_Next it (mi_children m1 ! c)] \<rparr>)"
    by (rule turn_forward [OF assms])
  have mem: "es ! n \<in> set (ess ! i) \<longleftrightarrow> i = c" if "i < length ess" for i
    using merged_facts(4) [OF t(1) that t(4)] t(7,8) by (metis nth_mem)
  let ?p = "\<lambda>i. if i = c then Suc (p c) else p i"
  have "cut (ess ! i) (?p i) (set (take (Suc n) es))" if i: "i < length ess" for i
    using cut_advance [OF t(1) i iat_sorted [OF t(5) [rule_format, OF i]] t(6) [rule_format, OF i] assms(2)] mem [OF i] by auto
  moreover have "iat ((mi_children m1)[c := it_Next it (mi_children m1 ! c)] ! i) (ess ! i) (?p i)" if i: "i < length ess" for i
    using iat_Next [OF t(5) [rule_format, OF t(4)] t(7)] t(5) [rule_format, OF i] i t(2) by (auto simp: nth_list_update)
  ultimately have "merge_at cmp key_ok iat ((FindSmallest cmp it (m1\<lparr> mi_children := (mi_children m1)[c := it_Next it (mi_children m1 ! c)] \<rparr>))
      \<lparr> mi_direction := kForward \<rparr>) es (Suc n)"
    using assms(2) t(2) by (intro FindSmallest_at [OF t(1), where p = ?p]) auto
  then show ?thesis unfolding t(10) by (simp add: FindSmallest_forward t(9))
qed

lemma merge_at_Prev:
  assumes "merge_at cmp key_ok iat m es n" "n < length es"
  shows "merge_at cmp key_ok iat (mi_Prev cmp it m) es (if n = 0 then length es else n - 1)"
proof -
  obtain ess c p m1 where t: "merged cmp key_ok ess es" "length (mi_children m1) = length ess" "mi_current m1 = Some c" "c < length ess"
    "\<forall>i<length ess. i \<noteq> c \<longrightarrow> iat (mi_children m1 ! i) (ess ! i) (prev_pos (ess ! i) (p i))" "iat (mi_children m1 ! c) (ess ! c) (p c)"
    "\<forall>i<length ess. cut (ess ! i) (p i) (set (take n es))" "p c < length (ess ! c)" "mi_direction m1 = kReverse"
    "mi_Prev cmp it m = FindLargest cmp it (m1\<lparr> mi_children := (mi_children m1)[c := it_Prev it (mi_children m1 ! c)] \<rparr>)"
    by (rule turn_backward [OF assms])
  have "iat ((mi_children m1)[c := it_Prev it (mi_children m1 ! c)] ! i) (ess ! i) (prev_pos (ess ! i) (p i))" if i: "i < length ess" for i
    using iat_Prev [OF t(6,8)] t(5) i t(2) by (cases "i = c") (auto simp: prev_pos_def)
  then have "merge_at cmp key_ok iat ((FindLargest cmp it (m1\<lparr> mi_children := (mi_children m1)[c := it_Prev it (mi_children m1 ! c)] \<rparr>))
      \<lparr> mi_direction := kReverse \<rparr>) es (if n = 0 then length es else n - 1)"
    using assms(2) t(2,7) by (intro FindLargest_at [OF t(1), where p = p]) auto
  then show ?thesis unfolding t(10) by (simp add: FindLargest_reverse t(9))
qed

lemma first_error_OK: "(\<forall>s\<in>set ss. s = OK) \<Longrightarrow> first_error ss = OK"
  by (induction ss) auto

lemma merge_at_fields:
  assumes "merge_at cmp key_ok iat m es n"
  shows "mi_Valid m \<longleftrightarrow> n < length es" "n < length es \<Longrightarrow> mi_key it m = fst (es ! n) \<and> mi_value it m = snd (es ! n)"
    "mi_status it m = OK"
proof -
  obtain ess pos where e: "length ess = length (mi_children m)" "\<And>i. i < length ess \<Longrightarrow> iat (mi_children m ! i) (ess ! i) (pos i)"
    using merge_atD [OF assms] by metis
  show "mi_Valid m \<longleftrightarrow> n < length es" using assms by (auto simp: mi_Valid_def merge_at_def split: if_splits)
  show "mi_key it m = fst (es ! n) \<and> mi_value it m = snd (es ! n)" if n: "n < length es"
  proof -
    obtain ess pos c p where pos: "\<forall>i<length ess. iat (mi_children m ! i) (ess ! i) (pos i)"
      and c: "mi_current m = Some c" "c < length ess" "p c < length (ess ! c)" "ess ! c ! p c = es ! n" "pos c = p c"
      using assms unfolding merge_at_def if_P [OF n] by (elim exE conjE) (rule that; assumption)
    then have "iat (mi_children m ! c) (ess ! c) (p c)" by metis
    then show ?thesis using c by (simp add: mi_key_def mi_value_def iat_key iat_value)
  qed
  have "it_status it x = OK" if "x \<in> set (mi_children m)" for x
    using that e iat_status [OF e(2)] unfolding in_set_conv_nth by auto
  then show "mi_status it m = OK" unfolding mi_status_def by (intro first_error_OK) auto
qed

lemma merge_contract: "sorted_iterator cmp key_ok (MergingIterator cmp it) (merge_at cmp key_ok iat)"
proof (rule sorted_iterator.intro [OF comparator_contract_axioms sorted_iterator_axioms.intro], goal_cases)
  case (1 s es n) then show ?case by (auto simp: merge_at_def merged_def)
next
  case (2 s es n) then show ?case by (auto simp: merge_at_def)
qed (auto simp: MergingIterator_def merge_at_fields merge_at_SeekToFirst merge_at_SeekToLast merge_at_Seek merge_at_Next merge_at_Prev
   simp del: One_nat_def)

lemma merge_init_at:
  assumes "length ess = length children" "merged cmp key_ok ess es" "\<forall>i<length ess. \<exists>n. iat (children ! i) (ess ! i) n"
  shows "merge_at cmp key_ok (wrapper_at it iat) (MergingIter_init it children) es (length es)"
proof -
  obtain pos where "\<forall>i<length ess. iat (children ! i) (ess ! i) (pos i)" using assms(3) by metis
  then show ?thesis using assms(1,2) unfolding merge_at_def MergingIter_init_def
    by (intro exI [of _ ess] exI [of _ pos]) (auto intro: wrapper_at_Set)
qed

end

section \<open>Properties\<close>

text \<open>The block a builder makes of sorted entries.\<close>

definition block_of :: "nat \<Rightarrow> entries \<Rightarrow> bytes" where
  "block_of interval es = fst (bb_Finish (bb_AddAll es (BlockBuilder_init interval)))"

context comparator_contract
begin

lemma block_merge_iterates:
  "merge_at cmp wf (wrapper_at (BlockIterator cmp) (block_at cmp wf)) m es (length es)
    \<Longrightarrow> iterates cmp wf (MergingIterator cmp (WrapperIterator (BlockIterator cmp))) m es"
  using sorted_iterator.iat_iterates [OF sorted_iterator.merge_contract [OF block.wrapper_contract]] .

lemma block_merge_init:
  "length ess = length children \<Longrightarrow> merged cmp wf ess es \<Longrightarrow> \<forall>i<length ess. \<exists>n. block_at cmp wf (children ! i) (ess ! i) n
    \<Longrightarrow> merge_at cmp wf (wrapper_at (BlockIterator cmp) (block_at cmp wf)) (MergingIter_init (BlockIterator cmp) children) es (length es)"
  by (rule block.merge_init_at)

end

text \<open>
  C22: Merging.  A merging iterator over the iterators of two or more blocks, no key occurring twice,
  runs over the sorted merge of their entries: a scan forwards, backwards or from any key sought visits exactly these entries and
  ends, and after any sequence of calls, whichever way it was moving before, the iterator stands where a cursor
  into the merged entries stands.
\<close>

theorem merging_iterator_merges:
  assumes "comparator_contract cmp key_ok" "2 \<le> length children" "length ess = length children" "1 \<le> interval"
    and blocks: "\<forall>i<length ess. Block_NewIterator (Block_init (block_of interval (ess ! i))) = Inr (children ! i)
      \<and> sorted_entries cmp key_ok (ess ! i) \<and> length (block_of interval (ess ! i)) < 2 ^ 32
      \<and> (\<forall>e\<in>set (ess ! i). length (fst e) + length (snd e) < 2 ^ 32)"
    and "mset es = mset (concat ess)" "sorted_entries cmp key_ok es"
  shows "\<exists>m. NewMergingIterator (BlockIterator cmp) children = Inr (Inr m)
    \<and> iterates cmp key_ok (MergingIterator cmp (WrapperIterator (BlockIterator cmp))) m es"
proof -
  have "\<exists>n. block_at cmp key_ok (children ! i) (ess ! i) n" if i: "i < length ess" for i
    using blocks [rule_format, OF i] block_roundtrip_at [OF assms(4) _ block_of_def, of "ess ! i" cmp key_ok] by auto
  then have "merge_at cmp key_ok (wrapper_at (BlockIterator cmp) (block_at cmp key_ok)) (MergingIter_init (BlockIterator cmp) children) es (length es)"
    using assms(3,6,7) by (intro comparator_contract.block_merge_init [OF assms(1)]) (auto simp: merged_def)
  from comparator_contract.block_merge_iterates [OF assms(1) this]
  show ?thesis using assms(2) unfolding NewMergingIterator_def by (intro exI conjI) auto
qed

lemma example_blocks:
  "length (block_of 1 [([97], [1]), ([99], [3])]) < 2 ^ 32" "length (block_of 1 [([98], [2])]) < 2 ^ 32"
  by (simp_all add: block_of_def bb_AddAll_def bb_Add_def Let_def PutVarint64_def BlockBuilder_init_def first_byte_varint(1)
      bb_Finish_def PutFixed32_def)

theorem merging_iterator_merges_witness:
  "\<exists>a b m. Block_NewIterator (Block_init (block_of 1 [([97], [1]), ([99], [3])])) = Inr a
     \<and> Block_NewIterator (Block_init (block_of 1 [([98], [2])])) = Inr b
     \<and> NewMergingIterator (BlockIterator BytewiseComparator) [a, b] = Inr (Inr m)
     \<and> (let M = MergingIterator BytewiseComparator (WrapperIterator (BlockIterator BytewiseComparator))
        in it_walk M (it_Next M) 4 (it_SeekToFirst M m) = [([97], [1]), ([98], [2]), ([99], [3])]
         \<and> it_key M (it_run M [CSeek [98], CPrev, CNext, CNext] m) = [99]
         \<and> \<not> it_Valid M (it_run M [CSeekToLast, CPrev, CNext, CNext] m))"
proof -
  define M where "M = MergingIterator BytewiseComparator (WrapperIterator (BlockIterator BytewiseComparator))"
  let ?es = "[([97], [1]), ([98], [2]), ([99], [3])] :: entries"
  have so: "sorted_entries BytewiseComparator (\<lambda>_. True) [([97], [1]), ([99], [3])]" "sorted_entries BytewiseComparator (\<lambda>_. True) [([98], [2])]"
    "sorted_entries BytewiseComparator (\<lambda>_. True) ?es"
    by (simp_all add: sorted_entries_def BytewiseComparator_def)
  obtain a b where ab: "Block_NewIterator (Block_init (block_of 1 [([97], [1]), ([99], [3])])) = Inr a"
    "Block_NewIterator (Block_init (block_of 1 [([98], [2])])) = Inr b"
    using block_roundtrip_at [OF _ _ block_of_def example_blocks(1) so(1)] block_roundtrip_at [OF _ _ block_of_def example_blocks(2) so(2)] by auto
  obtain m where m: "NewMergingIterator (BlockIterator BytewiseComparator) [a, b] = Inr (Inr m)" "iterates BytewiseComparator (\<lambda>_. True) M m ?es"
    using merging_iterator_merges [OF bytewise.comparator_contract_axioms, of "[a, b]" "[[([97], [1]), ([99], [3])], [([98], [2])]]" 1 ?es]
      ab so example_blocks unfolding M_def
    by (auto simp: less_Suc_eq_0_disj all_conj_distrib)
  have "it_walk M (it_Next M) (Suc (length ?es)) (it_SeekToFirst M m) = ?es" using m(2) unfolding iterates_def by blast
  moreover have "Suc (length ?es) = 4" by simp
  moreover have "it_key M (it_run M [CSeek [98], CPrev, CNext, CNext] m) = [99]"
    using iterates_run(2) [OF m(2), of "[CSeek [98], CPrev, CNext, CNext]"]
    by (simp add: seek_pos_def BytewiseComparator_def del: it_run.simps)
  moreover have "\<not> it_Valid M (it_run M [CSeekToLast, CPrev, CNext, CNext] m)"
    using iterates_run(1) [OF m(2), of "[CSeekToLast, CPrev, CNext, CNext]"] by (simp del: it_run.simps)
  ultimately show ?thesis using ab m(1) unfolding Let_def M_def [symmetric] by metis
qed

end
