(* ===== verification/Two_Level.thy ===== *)
theory Two_Level
  imports Merger
begin

text \<open>
  The two-level iterator (\<^verbatim>\<open>src/table/two_level_iterator.cc\<close>).  \<open>index\<close> and \<open>data\<close> are the classes of the
  two iterators, \<open>block_function\<close> opens the data iterator of an index value.  A loop that skips empty
  blocks makes at most \<open>fuel\<close> rounds; more rounds than the index has entries always suffice.
\<close>

section \<open>TwoLevelIterator\<close>

record ('i, 'd) TwoLevelIter =
  tl_status :: status
  tl_index_iter :: "'i IteratorWrapper"
  tl_data_iter :: "'d IteratorWrapper option"
  tl_data_block_handle :: bytes

definition TwoLevelIter_init :: "'i Iterator \<Rightarrow> 'i \<Rightarrow> ('i, 'd) TwoLevelIter" where
  "TwoLevelIter_init index index_iter =
     \<lparr> tl_status = OK, tl_index_iter = w_Set index index_iter, tl_data_iter = None, tl_data_block_handle = [] \<rparr>"

definition data_valid :: "'d Iterator \<Rightarrow> 'd IteratorWrapper option \<Rightarrow> bool" where
  "data_valid data d = (case d of None \<Rightarrow> False | Some w \<Rightarrow> it_Valid (WrapperIterator data) w)"

definition SaveError :: "status \<Rightarrow> ('i, 'd) TwoLevelIter \<Rightarrow> ('i, 'd) TwoLevelIter" where
  "SaveError s t = (if ok (tl_status t) \<and> \<not> ok s then t\<lparr> tl_status := s \<rparr> else t)"

definition SetDataIterator :: "'d Iterator \<Rightarrow> 'd option \<Rightarrow> ('i, 'd) TwoLevelIter \<Rightarrow> ('i, 'd) TwoLevelIter" where
  "SetDataIterator data data_iter t =
     (let t = (case tl_data_iter t of None \<Rightarrow> t | Some w \<Rightarrow> SaveError (it_status (WrapperIterator data) w) t)
      in t\<lparr> tl_data_iter := map_option (w_Set data) data_iter \<rparr>)"

definition InitDataBlock :: "'i Iterator \<Rightarrow> 'd Iterator \<Rightarrow> (bytes \<Rightarrow> 'd) \<Rightarrow> ('i, 'd) TwoLevelIter \<Rightarrow> ('i, 'd) TwoLevelIter" where
  "InitDataBlock index data block_function t =
     (if \<not> it_Valid (WrapperIterator index) (tl_index_iter t) then SetDataIterator data None t
      else
        let handle = it_value (WrapperIterator index) (tl_index_iter t)
        in if tl_data_iter t \<noteq> None \<and> slice_compare handle (tl_data_block_handle t) = 0 then t
           else SetDataIterator data (Some (block_function handle)) (t\<lparr> tl_data_block_handle := handle \<rparr>))"

text \<open>\<open>if (data_iter_.iter() != nullptr) data_iter_.f()\<close>\<close>

definition data_do :: "('d IteratorWrapper \<Rightarrow> 'd IteratorWrapper) \<Rightarrow> ('i, 'd) TwoLevelIter \<Rightarrow> ('i, 'd) TwoLevelIter" where
  "data_do f t = t\<lparr> tl_data_iter := map_option f (tl_data_iter t) \<rparr>"

fun SkipEmptyDataBlocksForward ::
  "nat \<Rightarrow> 'i Iterator \<Rightarrow> 'd Iterator \<Rightarrow> (bytes \<Rightarrow> 'd) \<Rightarrow> ('i, 'd) TwoLevelIter \<Rightarrow> ('i, 'd) TwoLevelIter" where
  "SkipEmptyDataBlocksForward 0 index data bf t = t"
| "SkipEmptyDataBlocksForward (Suc fuel) index data bf t =
     (if data_valid data (tl_data_iter t) then t
      else if \<not> it_Valid (WrapperIterator index) (tl_index_iter t) then SetDataIterator data None t
      else
        let t = t\<lparr> tl_index_iter := it_Next (WrapperIterator index) (tl_index_iter t) \<rparr>;
            t = InitDataBlock index data bf t;
            t = data_do (it_SeekToFirst (WrapperIterator data)) t
        in SkipEmptyDataBlocksForward fuel index data bf t)"

fun SkipEmptyDataBlocksBackward ::
  "nat \<Rightarrow> 'i Iterator \<Rightarrow> 'd Iterator \<Rightarrow> (bytes \<Rightarrow> 'd) \<Rightarrow> ('i, 'd) TwoLevelIter \<Rightarrow> ('i, 'd) TwoLevelIter" where
  "SkipEmptyDataBlocksBackward 0 index data bf t = t"
| "SkipEmptyDataBlocksBackward (Suc fuel) index data bf t =
     (if data_valid data (tl_data_iter t) then t
      else if \<not> it_Valid (WrapperIterator index) (tl_index_iter t) then SetDataIterator data None t
      else
        let t = t\<lparr> tl_index_iter := it_Prev (WrapperIterator index) (tl_index_iter t) \<rparr>;
            t = InitDataBlock index data bf t;
            t = data_do (it_SeekToLast (WrapperIterator data)) t
        in SkipEmptyDataBlocksBackward fuel index data bf t)"

definition tl_Seek :: "nat \<Rightarrow> 'i Iterator \<Rightarrow> 'd Iterator \<Rightarrow> (bytes \<Rightarrow> 'd) \<Rightarrow> bytes \<Rightarrow> ('i, 'd) TwoLevelIter \<Rightarrow> ('i, 'd) TwoLevelIter" where
  "tl_Seek fuel index data bf target t =
     (let t = t\<lparr> tl_index_iter := it_Seek (WrapperIterator index) target (tl_index_iter t) \<rparr>;
          t = InitDataBlock index data bf t;
          t = data_do (it_Seek (WrapperIterator data) target) t
      in SkipEmptyDataBlocksForward fuel index data bf t)"

definition tl_SeekToFirst :: "nat \<Rightarrow> 'i Iterator \<Rightarrow> 'd Iterator \<Rightarrow> (bytes \<Rightarrow> 'd) \<Rightarrow> ('i, 'd) TwoLevelIter \<Rightarrow> ('i, 'd) TwoLevelIter" where
  "tl_SeekToFirst fuel index data bf t =
     (let t = t\<lparr> tl_index_iter := it_SeekToFirst (WrapperIterator index) (tl_index_iter t) \<rparr>;
          t = InitDataBlock index data bf t;
          t = data_do (it_SeekToFirst (WrapperIterator data)) t
      in SkipEmptyDataBlocksForward fuel index data bf t)"

definition tl_SeekToLast :: "nat \<Rightarrow> 'i Iterator \<Rightarrow> 'd Iterator \<Rightarrow> (bytes \<Rightarrow> 'd) \<Rightarrow> ('i, 'd) TwoLevelIter \<Rightarrow> ('i, 'd) TwoLevelIter" where
  "tl_SeekToLast fuel index data bf t =
     (let t = t\<lparr> tl_index_iter := it_SeekToLast (WrapperIterator index) (tl_index_iter t) \<rparr>;
          t = InitDataBlock index data bf t;
          t = data_do (it_SeekToLast (WrapperIterator data)) t
      in SkipEmptyDataBlocksBackward fuel index data bf t)"

definition tl_Next :: "nat \<Rightarrow> 'i Iterator \<Rightarrow> 'd Iterator \<Rightarrow> (bytes \<Rightarrow> 'd) \<Rightarrow> ('i, 'd) TwoLevelIter \<Rightarrow> ('i, 'd) TwoLevelIter" where
  "tl_Next fuel index data bf t =
     SkipEmptyDataBlocksForward fuel index data bf (data_do (it_Next (WrapperIterator data)) t)"

definition tl_Prev :: "nat \<Rightarrow> 'i Iterator \<Rightarrow> 'd Iterator \<Rightarrow> (bytes \<Rightarrow> 'd) \<Rightarrow> ('i, 'd) TwoLevelIter \<Rightarrow> ('i, 'd) TwoLevelIter" where
  "tl_Prev fuel index data bf t =
     SkipEmptyDataBlocksBackward fuel index data bf (data_do (it_Prev (WrapperIterator data)) t)"

definition tl_status_of :: "'i Iterator \<Rightarrow> 'd Iterator \<Rightarrow> ('i, 'd) TwoLevelIter \<Rightarrow> status" where
  "tl_status_of index data t =
     (if \<not> ok (it_status (WrapperIterator index) (tl_index_iter t)) then it_status (WrapperIterator index) (tl_index_iter t)
      else case tl_data_iter t of
        None \<Rightarrow> tl_status t
      | Some w \<Rightarrow> if \<not> ok (it_status (WrapperIterator data) w) then it_status (WrapperIterator data) w else tl_status t)"

definition TwoLevelIterator :: "nat \<Rightarrow> 'i Iterator \<Rightarrow> 'd Iterator \<Rightarrow> (bytes \<Rightarrow> 'd) \<Rightarrow> ('i, 'd) TwoLevelIter Iterator" where
  "TwoLevelIterator fuel index data bf =
     \<lparr> it_Valid = (\<lambda>t. data_valid data (tl_data_iter t)),
       it_SeekToFirst = tl_SeekToFirst fuel index data bf, it_SeekToLast = tl_SeekToLast fuel index data bf,
       it_Seek = tl_Seek fuel index data bf, it_Next = tl_Next fuel index data bf, it_Prev = tl_Prev fuel index data bf,
       it_key = (\<lambda>t. case tl_data_iter t of None \<Rightarrow> [] | Some w \<Rightarrow> it_key (WrapperIterator data) w),
       it_value = (\<lambda>t. case tl_data_iter t of None \<Rightarrow> [] | Some w \<Rightarrow> it_value (WrapperIterator data) w),
       it_status = tl_status_of index data \<rparr>"

section \<open>The contract\<close>

text \<open>
  The index \<open>ix\<close> partitions the entries: \<open>D h\<close> are those of the block behind \<open>h\<close>, and an index key is at
  least every key of its block and below every key of the later ones.
\<close>

definition partition_ok :: "comparator \<Rightarrow> (bytes \<Rightarrow> bool) \<Rightarrow> entries \<Rightarrow> (bytes \<Rightarrow> entries) \<Rightarrow> bool" where
  "partition_ok cmp key_ok ix D \<longleftrightarrow>
     sorted_entries cmp key_ok ix \<and> sorted_entries cmp key_ok (concat (map (D \<circ> snd) ix))
     \<and> (\<forall>i<length ix. \<forall>e\<in>set (D (snd (ix ! i))). Compare cmp (fst e) (fst (ix ! i)) \<le> 0)
     \<and> (\<forall>i<length ix. \<forall>j<i. \<forall>e\<in>set (D (snd (ix ! i))). Compare cmp (fst (ix ! j)) (fst e) < 0)"

text \<open>Entries before block \<open>j\<close>.\<close>

definition block_off :: "(bytes \<Rightarrow> entries) \<Rightarrow> entries \<Rightarrow> nat \<Rightarrow> nat" where
  "block_off D ix j = length (concat (map (D \<circ> snd) (take j ix)))"

lemma block_off_0 [simp]: "block_off D ix 0 = 0"
  by (simp add: block_off_def)

lemma block_off_Suc: "j < length ix \<Longrightarrow> block_off D ix (Suc j) = block_off D ix j + length (D (snd (ix ! j)))"
  by (simp add: block_off_def take_Suc_conv_app_nth)

lemma block_off_end [simp]: "block_off D ix (length ix) = length (concat (map (D \<circ> snd) ix))"
  by (simp add: block_off_def)

lemma concat_split:
  assumes "j < length ix"
  shows "concat (map (D \<circ> snd) ix) = concat (map (D \<circ> snd) (take j ix)) @ D (snd (ix ! j)) @ concat (map (D \<circ> snd) (drop (Suc j) ix))"
proof -
  have "ix = take j ix @ ix ! j # drop (Suc j) ix" using assms by (simp add: id_take_nth_drop)
  then have "concat (map (D \<circ> snd) ix) = concat (map (D \<circ> snd) (take j ix @ ix ! j # drop (Suc j) ix))" by simp
  then show ?thesis by simp
qed

lemma block_off_nth:
  "j < length ix \<Longrightarrow> k < length (D (snd (ix ! j))) \<Longrightarrow>
    concat (map (D \<circ> snd) ix) ! (block_off D ix j + k) = D (snd (ix ! j)) ! k
    \<and> block_off D ix j + k < length (concat (map (D \<circ> snd) ix))"
  unfolding concat_split [of j ix D] by (simp add: block_off_def nth_append)

definition tl_base ::
  "comparator \<Rightarrow> (bytes \<Rightarrow> bool) \<Rightarrow> 'i Iterator \<Rightarrow> ('i \<Rightarrow> entries \<Rightarrow> nat \<Rightarrow> bool) \<Rightarrow> 'd Iterator \<Rightarrow> ('d \<Rightarrow> entries \<Rightarrow> nat \<Rightarrow> bool)
   \<Rightarrow> (bytes \<Rightarrow> 'd) \<Rightarrow> entries \<Rightarrow> (bytes \<Rightarrow> entries) \<Rightarrow> nat \<Rightarrow> ('i, 'd) TwoLevelIter \<Rightarrow> bool" where
  "tl_base cmp key_ok iit iiat dit diat bf ix D j t \<longleftrightarrow>
     partition_ok cmp key_ok ix D \<and> wrapper_at iit iiat (tl_index_iter t) ix j \<and> tl_status t = OK
     \<and> (\<forall>e\<in>set ix. \<exists>n. diat (bf (snd e)) (D (snd e)) n)
     \<and> (\<forall>w. tl_data_iter t = Some w \<longrightarrow> (\<exists>k. wrapper_at dit diat w (D (tl_data_block_handle t)) k))"

definition tl_loaded ::
  "'d Iterator \<Rightarrow> ('d \<Rightarrow> entries \<Rightarrow> nat \<Rightarrow> bool) \<Rightarrow> entries \<Rightarrow> (bytes \<Rightarrow> entries) \<Rightarrow> nat \<Rightarrow> nat \<Rightarrow> ('i, 'd) TwoLevelIter \<Rightarrow> bool" where
  "tl_loaded dit diat ix D j k t \<longleftrightarrow> j < length ix \<and> tl_data_block_handle t = snd (ix ! j)
     \<and> (\<exists>w. tl_data_iter t = Some w \<and> wrapper_at dit diat w (D (snd (ix ! j))) k)"

definition tl_position ::
  "comparator \<Rightarrow> (bytes \<Rightarrow> bool) \<Rightarrow> 'i Iterator \<Rightarrow> ('i \<Rightarrow> entries \<Rightarrow> nat \<Rightarrow> bool) \<Rightarrow> 'd Iterator \<Rightarrow> ('d \<Rightarrow> entries \<Rightarrow> nat \<Rightarrow> bool)
   \<Rightarrow> (bytes \<Rightarrow> 'd) \<Rightarrow> entries \<Rightarrow> (bytes \<Rightarrow> entries) \<Rightarrow> ('i, 'd) TwoLevelIter \<Rightarrow> nat \<Rightarrow> bool" where
  "tl_position cmp key_ok iit iiat dit diat bf ix D t n \<longleftrightarrow> (\<exists>j. tl_base cmp key_ok iit iiat dit diat bf ix D j t
     \<and> (tl_data_iter t = None \<and> n = length (concat (map (D \<circ> snd) ix))
        \<or> (\<exists>k. tl_loaded dit diat ix D j k t \<and> k < length (D (snd (ix ! j))) \<and> n = block_off D ix j + k)))"

definition tl_at ::
  "comparator \<Rightarrow> (bytes \<Rightarrow> bool) \<Rightarrow> 'i Iterator \<Rightarrow> ('i \<Rightarrow> entries \<Rightarrow> nat \<Rightarrow> bool) \<Rightarrow> 'd Iterator \<Rightarrow> ('d \<Rightarrow> entries \<Rightarrow> nat \<Rightarrow> bool)
   \<Rightarrow> (bytes \<Rightarrow> 'd) \<Rightarrow> nat \<Rightarrow> ('i, 'd) TwoLevelIter \<Rightarrow> entries \<Rightarrow> nat \<Rightarrow> bool" where
  "tl_at cmp key_ok iit iiat dit diat bf fuel t es n \<longleftrightarrow>
     (\<exists>ix D. length ix < fuel \<and> es = concat (map (D \<circ> snd) ix) \<and> tl_position cmp key_ok iit iiat dit diat bf ix D t n)"

locale tl_children = index: sorted_iterator cmp key_ok iit iiat + data: sorted_iterator cmp key_ok dit diat
  for cmp key_ok and iit :: "'i Iterator" and iiat and dit :: "'d Iterator" and diat
begin

abbreviation "base \<equiv> tl_base cmp key_ok iit iiat dit diat"
abbreviation "loaded \<equiv> tl_loaded dit diat"
abbreviation "tl_pos \<equiv> tl_position cmp key_ok iit iiat dit diat"

lemmas iw = sorted_iterator.iat_Valid [OF index.wrapper_contract] sorted_iterator.iat_key [OF index.wrapper_contract]
  sorted_iterator.iat_value [OF index.wrapper_contract] sorted_iterator.iat_status [OF index.wrapper_contract]
  sorted_iterator.iat_SeekToFirst [OF index.wrapper_contract] sorted_iterator.iat_SeekToLast [OF index.wrapper_contract]
  sorted_iterator.iat_Seek [OF index.wrapper_contract] sorted_iterator.iat_Next [OF index.wrapper_contract]
  sorted_iterator.iat_Prev [OF index.wrapper_contract] sorted_iterator.iat_le [OF index.wrapper_contract]

lemmas dw = sorted_iterator.iat_Valid [OF data.wrapper_contract] sorted_iterator.iat_key [OF data.wrapper_contract]
  sorted_iterator.iat_value [OF data.wrapper_contract] sorted_iterator.iat_status [OF data.wrapper_contract]
  sorted_iterator.iat_SeekToFirst [OF data.wrapper_contract] sorted_iterator.iat_SeekToLast [OF data.wrapper_contract]
  sorted_iterator.iat_Seek [OF data.wrapper_contract] sorted_iterator.iat_Next [OF data.wrapper_contract]
  sorted_iterator.iat_Prev [OF data.wrapper_contract] sorted_iterator.iat_le [OF data.wrapper_contract]

lemma SetDataIterator_base:
  assumes b: "base bf ix D j t" and x: "\<And>d. x = Some d \<Longrightarrow> \<exists>k. diat d (D h) k"
  defines "t' \<equiv> SetDataIterator dit x (t\<lparr> tl_data_block_handle := h \<rparr>)"
  shows "base bf ix D j t'" "tl_data_iter t' = map_option (w_Set dit) x" "tl_data_block_handle t' = h"
proof -
  have t': "t' = t\<lparr> tl_data_block_handle := h, tl_data_iter := map_option (w_Set dit) x \<rparr>"
    using b dw(4) by (auto simp: t'_def SetDataIterator_def SaveError_def tl_base_def split: option.split)
  have "\<exists>k. wrapper_at dit diat (w_Set dit d) (D h) k" if "x = Some d" for d
    using x [OF that] data.wrapper_at_Set by blast
  then show "base bf ix D j t'" using b by (auto simp: tl_base_def t')
qed (auto simp: t'_def SetDataIterator_def SaveError_def Let_def split: option.split)

lemma SetDataIterator_None:
  assumes "base bf ix D j t"
  shows "base bf ix D j (SetDataIterator dit None t)" "tl_data_iter (SetDataIterator dit None t) = None"
  using SetDataIterator_base [OF assms, of None "tl_data_block_handle t"] by simp_all

lemma InitDataBlock_at:
  assumes b: "base bf ix D j t"
  shows "base bf ix D j (InitDataBlock iit dit bf t)"
    "j < length ix \<Longrightarrow> \<exists>k. loaded ix D j k (InitDataBlock iit dit bf t)"
    "j = length ix \<Longrightarrow> tl_data_iter (InitDataBlock iit dit bf t) = None"
proof -
  have at: "wrapper_at iit iiat (tl_index_iter t) ix j" using b by (simp add: tl_base_def)
  have "base bf ix D j (InitDataBlock iit dit bf t) \<and> (\<exists>k. loaded ix D j k (InitDataBlock iit dit bf t))" if j: "j < length ix"
  proof (cases "tl_data_iter t \<noteq> None \<and> snd (ix ! j) = tl_data_block_handle t")
    case True
    then show ?thesis using b j by (auto simp: InitDataBlock_def iw [OF at] tl_loaded_def tl_base_def)
  next
    case False
    have "\<exists>k. diat (bf (snd (ix ! j))) (D (snd (ix ! j))) k" using b j by (simp add: tl_base_def)
    note S = SetDataIterator_base [OF b, of "Some (bf (snd (ix ! j)))" "snd (ix ! j)"]
    have "InitDataBlock iit dit bf t = SetDataIterator dit (Some (bf (snd (ix ! j)))) (t\<lparr> tl_data_block_handle := snd (ix ! j) \<rparr>)"
      using False j by (auto simp: InitDataBlock_def iw [OF at] Let_def)
    then show ?thesis using S \<open>\<exists>k. diat _ _ k\<close> j data.wrapper_at_Set by (auto simp: tl_loaded_def)
  qed
  moreover have "base bf ix D j (InitDataBlock iit dit bf t) \<and> tl_data_iter (InitDataBlock iit dit bf t) = None" if j: "j = length ix"
    using SetDataIterator_None [OF b] j by (simp add: InitDataBlock_def iw [OF at])
  ultimately show "base bf ix D j (InitDataBlock iit dit bf t)"
    "j < length ix \<Longrightarrow> \<exists>k. loaded ix D j k (InitDataBlock iit dit bf t)"
    "j = length ix \<Longrightarrow> tl_data_iter (InitDataBlock iit dit bf t) = None"
    using iw(10) [OF at] by (auto simp: le_less)
qed

text \<open>Moving the loaded block's iterator.\<close>

lemma data_do_at:
  assumes b: "base bf ix D j t" and l: "loaded ix D j k t"
    and f: "\<forall>w. wrapper_at dit diat w (D (snd (ix ! j))) k \<longrightarrow> wrapper_at dit diat (f w) (D (snd (ix ! j))) k'"
  shows "base bf ix D j (data_do f t)" "loaded ix D j k' (data_do f t)"
proof -
  obtain w where w: "j < length ix" "tl_data_block_handle t = snd (ix ! j)" "tl_data_iter t = Some w" "wrapper_at dit diat w (D (snd (ix ! j))) k"
    using l by (auto simp: tl_loaded_def)
  show "loaded ix D j k' (data_do f t)" using w f by (simp add: tl_loaded_def data_do_def)
  show "base bf ix D j (data_do f t)" using b w f by (auto simp: tl_base_def data_do_def)
qed

lemma data_do_None: "tl_data_iter t = None \<Longrightarrow> data_do f t = t"
  by (simp add: data_do_def)

text \<open>\<open>enter f p\<close>: load the block under the index and move in it; the position there is \<open>p\<close>.\<close>

lemma enter_at:
  assumes b: "base bf ix D j t"
    and f: "\<forall>w k. wrapper_at dit diat w (D (snd (ix ! j))) k \<longrightarrow> wrapper_at dit diat (f w) (D (snd (ix ! j))) p"
  defines "t' \<equiv> data_do f (InitDataBlock iit dit bf t)"
  shows "base bf ix D j t'" "j < length ix \<Longrightarrow> loaded ix D j p t'" "j = length ix \<Longrightarrow> tl_data_iter t' = None"
proof -
  note I = InitDataBlock_at [OF b]
  show ld: "loaded ix D j p t'" if j: "j < length ix"
  proof -
    obtain k where "loaded ix D j k (InitDataBlock iit dit bf t)" using I(2) [OF j] by blast
    from data_do_at(2) [OF I(1) this, of f p] f show ?thesis by (simp add: t'_def)
  qed
  show nn: "tl_data_iter t' = None" if "j = length ix" using I(3) [OF that] by (simp add: t'_def data_do_None)
  have "j \<le> length ix" using b iw(10) by (auto simp: tl_base_def)
  moreover have "base bf ix D j t'" if j: "j < length ix"
  proof -
    obtain k where "loaded ix D j k (InitDataBlock iit dit bf t)" using I(2) [OF j] by blast
    from data_do_at(1) [OF I(1) this, of f p] f show ?thesis by (simp add: t'_def)
  qed
  ultimately show "base bf ix D j t'" using I(1,3) by (auto simp: t'_def data_do_None le_less)
qed

text \<open>The skipping loops end at the next, or previous, entry.\<close>

lemma loaded_valid: "loaded ix D j k t \<Longrightarrow> data_valid dit (tl_data_iter t) \<longleftrightarrow> k < length (D (snd (ix ! j)))"
  by (auto simp: tl_loaded_def data_valid_def dw(1))

lemma loaded_le: "loaded ix D j k t \<Longrightarrow> k \<le> length (D (snd (ix ! j)))"
  by (auto simp: tl_loaded_def dw(10))

lemma index_step:
  "base bf ix D j t \<Longrightarrow> wrapper_at iit iiat w ix j' \<Longrightarrow> base bf ix D j' (t\<lparr> tl_index_iter := w \<rparr>)"
  by (auto simp: tl_base_def)

lemma base_index: "base bf ix D j t \<Longrightarrow> wrapper_at iit iiat (tl_index_iter t) ix j"
  by (simp add: tl_base_def)

lemma skip_ended:
  assumes "base bf ix D (length ix) t" "tl_data_iter t = None" "0 < fuel"
  shows "tl_pos bf ix D (SkipEmptyDataBlocksForward fuel iit dit bf t) (length (concat (map (D \<circ> snd) ix)))"
    "tl_pos bf ix D (SkipEmptyDataBlocksBackward fuel iit dit bf t) (length (concat (map (D \<circ> snd) ix)))"
proof -
  obtain f where f: "fuel = Suc f" using assms(3) by (cases fuel) auto
  have "\<not> data_valid dit (tl_data_iter t)" using assms(2) by (simp add: data_valid_def)
  then show "tl_pos bf ix D (SkipEmptyDataBlocksForward fuel iit dit bf t) (length (concat (map (D \<circ> snd) ix)))"
    "tl_pos bf ix D (SkipEmptyDataBlocksBackward fuel iit dit bf t) (length (concat (map (D \<circ> snd) ix)))"
    using SetDataIterator_None [OF assms(1)] iw(1) [OF base_index [OF assms(1)]] unfolding tl_position_def f by auto
qed

lemma skip_forward:
  assumes "base bf ix D j t" "loaded ix D j k t" "length ix - j < fuel"
  shows "tl_pos bf ix D (SkipEmptyDataBlocksForward fuel iit dit bf t) (block_off D ix j + k)"
  using assms
proof (induction fuel arbitrary: j k t)
  case (Suc fuel)
  show ?case
  proof (cases "k < length (D (snd (ix ! j)))")
    case True
    then show ?thesis using Suc.prems loaded_valid [OF Suc.prems(2)] unfolding tl_position_def by auto
  next
    case False
    have j: "j < length ix" and k: "k = length (D (snd (ix ! j)))"
      using Suc.prems(2) loaded_le [OF Suc.prems(2)] False by (auto simp: tl_loaded_def)
    note at = base_index [OF Suc.prems(1)]
    define t1 where "t1 = t\<lparr> tl_index_iter := it_Next (WrapperIterator iit) (tl_index_iter t) \<rparr>"
    have b1: "base bf ix D (Suc j) t1" unfolding t1_def by (rule index_step [OF Suc.prems(1) iw(8) [OF at j]])
    define t2 where "t2 = data_do (it_SeekToFirst (WrapperIterator dit)) (InitDataBlock iit dit bf t1)"
    have f: "\<forall>w k. wrapper_at dit diat w (D (snd (ix ! (Suc j)))) k \<longrightarrow> wrapper_at dit diat (it_SeekToFirst (WrapperIterator dit) w) (D (snd (ix ! (Suc j)))) (0)"
      using dw(5) by blast
    note E = enter_at [OF b1, where f = "it_SeekToFirst (WrapperIterator dit)" and p = "0", OF f, folded t2_def]
    have skip: "SkipEmptyDataBlocksForward (Suc fuel) iit dit bf t = SkipEmptyDataBlocksForward fuel iit dit bf t2"
      using False j loaded_valid [OF Suc.prems(2)] iw(1) [OF at] by (simp add: t1_def t2_def)
    have off: "block_off D ix j + k = block_off D ix (Suc j) + 0" using j k by (simp add: block_off_Suc)
    show ?thesis
    proof (cases "Suc j < length ix")
      case True
      then show ?thesis unfolding skip off using Suc.IH [OF E(1) E(2)] Suc.prems(3) by auto
    next
      case False
      then have e: "Suc j = length ix" using j by simp
      then show ?thesis unfolding skip off using skip_ended(1) [of bf ix D t2 fuel] E(1) E(3) Suc.prems(3) by simp
    qed
  qed
qed simp

lemma skip_backward:
  assumes "base bf ix D j t" "loaded ix D j k t" "j + 1 < fuel"
  shows "tl_pos bf ix D (SkipEmptyDataBlocksBackward fuel iit dit bf t)
    (if k < length (D (snd (ix ! j))) then block_off D ix j + k
     else prev_pos (concat (map (D \<circ> snd) ix)) (block_off D ix j))"
  using assms
proof (induction fuel arbitrary: j k t)
  case (Suc fuel)
  show ?case
  proof (cases "k < length (D (snd (ix ! j)))")
    case True
    then show ?thesis using Suc.prems loaded_valid [OF Suc.prems(2)] unfolding tl_position_def by auto
  next
    case False
    have j: "j < length ix" using Suc.prems(2) by (auto simp: tl_loaded_def)
    note at = base_index [OF Suc.prems(1)]
    define j' where "j' = (if j = 0 then length ix else j - 1)"
    define t1 where "t1 = t\<lparr> tl_index_iter := it_Prev (WrapperIterator iit) (tl_index_iter t) \<rparr>"
    have b1: "base bf ix D j' t1" unfolding t1_def j'_def by (rule index_step [OF Suc.prems(1) iw(9) [OF at j]])
    define t2 where "t2 = data_do (it_SeekToLast (WrapperIterator dit)) (InitDataBlock iit dit bf t1)"
    have f: "\<forall>w k. wrapper_at dit diat w (D (snd (ix ! (j')))) k \<longrightarrow> wrapper_at dit diat (it_SeekToLast (WrapperIterator dit) w) (D (snd (ix ! (j')))) (length (D (snd (ix ! j'))) - 1)"
      using dw(6) by blast
    note E = enter_at [OF b1, where f = "it_SeekToLast (WrapperIterator dit)" and p = "length (D (snd (ix ! j'))) - 1", OF f, folded t2_def]
    have skip: "SkipEmptyDataBlocksBackward (Suc fuel) iit dit bf t = SkipEmptyDataBlocksBackward fuel iit dit bf t2"
      using False j loaded_valid [OF Suc.prems(2)] iw(1) [OF at] by (simp add: t1_def t2_def)
    show ?thesis
    proof (cases j)
      case 0
      then show ?thesis unfolding skip using skip_ended(2) [of bf ix D t2 fuel] E(1) E(3) Suc.prems(3) False
        by (simp add: j'_def prev_pos_def)
    next
      case (Suc i)
      then have i: "i < length ix" "j' = i" using j by (auto simp: j'_def)
      have "(if length (D (snd (ix ! i))) - 1 < length (D (snd (ix ! i))) then block_off D ix i + (length (D (snd (ix ! i))) - 1)
          else prev_pos (concat (map (D \<circ> snd) ix)) (block_off D ix i))
        = prev_pos (concat (map (D \<circ> snd) ix)) (block_off D ix j)"
        using i(1) Suc by (auto simp: block_off_Suc prev_pos_def)
      then show ?thesis unfolding skip using Suc.IH [of i t2 "length (D (snd (ix ! i))) - 1"] E(1,2) i Suc Suc.prems(3) False by simp
    qed
  qed
qed simp

lemma seek_pos_append:
  "(\<forall>e\<in>set xs. Compare cmp (fst e) t < 0) \<Longrightarrow> seek_pos cmp t (xs @ ys) = length xs + seek_pos cmp t ys"
  by (simp add: seek_pos_def takeWhile_append)

lemma seek_pos_append2:
  "(\<forall>e\<in>set ys. \<not> Compare cmp (fst e) t < 0) \<Longrightarrow> seek_pos cmp t (xs @ ys) = seek_pos cmp t xs"
  by (induction xs) (auto simp: seek_pos_def takeWhile_eq_Nil_iff)

lemma index_pos:
  assumes "j = seek_pos cmp t ix"
  shows "i < j \<Longrightarrow> Compare cmp (fst (ix ! i)) t < 0" "j < length ix \<Longrightarrow> \<not> Compare cmp (fst (ix ! j)) t < 0"
  using assms nth_length_takeWhile [of "\<lambda>e. Compare cmp (fst e) t < 0" ix] takeWhile_nth [of i "\<lambda>e. Compare cmp (fst e) t < 0" ix]
    set_takeWhileD [of "takeWhile (\<lambda>e. Compare cmp (fst e) t < 0) ix ! i" "\<lambda>e. Compare cmp (fst e) t < 0" ix]
    nth_mem [of i "takeWhile (\<lambda>e. Compare cmp (fst e) t < 0) ix"]
  by (auto simp: seek_pos_def)

lemma partition_seek:
  assumes p: "partition_ok cmp key_ok ix D" and t: "key_ok t"
  defines "j \<equiv> seek_pos cmp t ix" and "es \<equiv> concat (map (D \<circ> snd) ix)"
  shows "seek_pos cmp t es = (if j < length ix then block_off D ix j + seek_pos cmp t (D (snd (ix ! j))) else length es)"
proof -
  have ok: "key_ok (fst e)" if "i < length ix" "e \<in> set (D (snd (ix ! i)))" for e i
    using p that nth_mem [OF that(1)] by (fastforce simp: partition_ok_def sorted_entries_def)
  have okx: "key_ok (fst (ix ! i))" if "i < length ix" for i using p that by (simp add: partition_ok_def sorted_entries_def)
  have less: "Compare cmp (fst e) t < 0" if "i < j" "i < length ix" "e \<in> set (D (snd (ix ! i)))" for i e
    using p that index_pos(1) [OF meta_eq_to_obj_eq [OF j_def] that(1)] index.cmp_le_less_trans [OF ok okx t, of i e i]
    by (auto simp: partition_ok_def)
  have pre: "\<forall>e\<in>set (concat (map (D \<circ> snd) (take j ix))). Compare cmp (fst e) t < 0"
  proof -
    have "Compare cmp (fst e) t < 0" if "x \<in> set (take j ix)" "e \<in> set (D (snd x))" for x e
      using that less [of _ e] unfolding in_set_conv_nth [of x] by auto
    then show ?thesis by auto
  qed
  show ?thesis
  proof (cases "j < length ix")
    case True
    have late: "\<not> Compare cmp (fst e) t < 0" if e: "e \<in> set (D (snd (ix ! i)))" "j < i" "i < length ix" for i e
      using p e index_pos(2) [OF meta_eq_to_obj_eq [OF j_def] True] index.cmp_less_trans [OF okx [OF True] ok [OF e(3,1)] t]
      by (auto simp: partition_ok_def)
    then have post: "\<forall>e\<in>set (concat (map (D \<circ> snd) (drop (Suc j) ix))). \<not> Compare cmp (fst e) t < 0"
    proof -
      have "\<not> Compare cmp (fst e) t < 0" if x: "x \<in> set (drop (Suc j) ix)" and e: "e \<in> set (D (snd x))" for x e
      proof -
        obtain i where "i < length ix - Suc j" "x = ix ! (Suc j + i)" using x True by (auto simp: in_set_conv_nth)
        then show ?thesis using late [of e "Suc j + i"] e by simp
      qed
      then show ?thesis by auto
    qed
    show ?thesis using True unfolding es_def concat_split [OF True, of D]
      by (simp add: seek_pos_append [OF pre] seek_pos_append2 [OF post] block_off_def)
  next
    case False
    then show ?thesis using pre seek_pos_append [of es t "[]"] by (simp add: es_def seek_pos_def)
  qed
qed

lemma tl_Seek_at:
  assumes "tl_at cmp key_ok iit iiat dit diat bf fuel t es n" "key_ok x"
  shows "tl_at cmp key_ok iit iiat dit diat bf fuel (tl_Seek fuel iit dit bf x t) es (seek_pos cmp x es)"
proof -
  obtain ix D j where ix: "length ix < fuel" "es = concat (map (D \<circ> snd) ix)" and b: "base bf ix D j t"
    using assms(1) by (auto simp: tl_at_def tl_position_def)
  have p: "partition_ok cmp key_ok ix D" using b by (simp add: tl_base_def)
  define q where "q = seek_pos cmp x ix"
  define t1 where "t1 = t\<lparr> tl_index_iter := it_Seek (WrapperIterator iit) x (tl_index_iter t) \<rparr>"
  have b1: "base bf ix D q t1" unfolding t1_def q_def by (rule index_step [OF b iw(7) [OF base_index [OF b] assms(2)]])
  define t2 where "t2 = data_do (it_Seek (WrapperIterator dit) x) (InitDataBlock iit dit bf t1)"
  have f: "\<forall>w k. wrapper_at dit diat w (D (snd (ix ! (q)))) k \<longrightarrow> wrapper_at dit diat (it_Seek (WrapperIterator dit) x w) (D (snd (ix ! (q)))) (seek_pos cmp x (D (snd (ix ! q))))"
    using dw(7) [OF _ assms(2)] by blast
  note E = enter_at [OF b1, where f = "it_Seek (WrapperIterator dit) x" and p = "seek_pos cmp x (D (snd (ix ! q)))", OF f, folded t2_def]
  have "tl_pos bf ix D (SkipEmptyDataBlocksForward fuel iit dit bf t2) (seek_pos cmp x es)"
  proof (cases "q < length ix")
    case True
    then show ?thesis using skip_forward [OF E(1) E(2)] partition_seek [OF p assms(2)] ix by (simp add: q_def)
  next
    case False
    then have q: "q = length ix" using seek_pos_le [of cmp x ix] by (simp add: q_def)
    then show ?thesis using skip_ended(1) [of bf ix D t2 fuel] E(1,3) partition_seek [OF p assms(2)] ix
      by (simp add: q_def [symmetric])
  qed
  then show ?thesis using ix unfolding tl_at_def tl_Seek_def by (auto simp: t1_def t2_def)
qed

lemma tl_SeekToFirst_at:
  assumes "tl_at cmp key_ok iit iiat dit diat bf fuel t es n"
  shows "tl_at cmp key_ok iit iiat dit diat bf fuel (tl_SeekToFirst fuel iit dit bf t) es 0"
proof -
  obtain ix D j where ix: "length ix < fuel" "es = concat (map (D \<circ> snd) ix)" and b: "base bf ix D j t"
    using assms(1) by (auto simp: tl_at_def tl_position_def)
  define t1 where "t1 = t\<lparr> tl_index_iter := it_SeekToFirst (WrapperIterator iit) (tl_index_iter t) \<rparr>"
  have b1: "base bf ix D 0 t1" unfolding t1_def by (rule index_step [OF b iw(5) [OF base_index [OF b]]])
  define t2 where "t2 = data_do (it_SeekToFirst (WrapperIterator dit)) (InitDataBlock iit dit bf t1)"
  have f: "\<forall>w k. wrapper_at dit diat w (D (snd (ix ! (0)))) k \<longrightarrow> wrapper_at dit diat (it_SeekToFirst (WrapperIterator dit) w) (D (snd (ix ! (0)))) (0)"
    using dw(5) by blast
  note E = enter_at [OF b1, where f = "it_SeekToFirst (WrapperIterator dit)" and p = "0", OF f, folded t2_def]
  have "tl_pos bf ix D (SkipEmptyDataBlocksForward fuel iit dit bf t2) 0"
    using skip_forward [OF E(1) E(2)] skip_ended(1) [of bf ix D t2 fuel] E(1,3) ix by (cases "ix = []") auto
  then show ?thesis using ix unfolding tl_at_def tl_SeekToFirst_def by (auto simp: t1_def t2_def)
qed

lemma tl_SeekToLast_at:
  assumes "tl_at cmp key_ok iit iiat dit diat bf fuel t es n"
  shows "tl_at cmp key_ok iit iiat dit diat bf fuel (tl_SeekToLast fuel iit dit bf t) es (length es - 1)"
proof -
  obtain ix D j where ix: "length ix < fuel" "es = concat (map (D \<circ> snd) ix)" and b: "base bf ix D j t"
    using assms(1) by (auto simp: tl_at_def tl_position_def)
  define q where "q = length ix - 1"
  define t1 where "t1 = t\<lparr> tl_index_iter := it_SeekToLast (WrapperIterator iit) (tl_index_iter t) \<rparr>"
  have b1: "base bf ix D q t1" unfolding t1_def q_def by (rule index_step [OF b iw(6) [OF base_index [OF b]]])
  define t2 where "t2 = data_do (it_SeekToLast (WrapperIterator dit)) (InitDataBlock iit dit bf t1)"
  have f: "\<forall>w k. wrapper_at dit diat w (D (snd (ix ! (q)))) k \<longrightarrow> wrapper_at dit diat (it_SeekToLast (WrapperIterator dit) w) (D (snd (ix ! (q)))) (length (D (snd (ix ! q))) - 1)"
    using dw(6) by blast
  note E = enter_at [OF b1, where f = "it_SeekToLast (WrapperIterator dit)" and p = "length (D (snd (ix ! q))) - 1", OF f, folded t2_def]
  have "tl_pos bf ix D (SkipEmptyDataBlocksBackward fuel iit dit bf t2) (length es - 1)"
  proof (cases "ix = []")
    case True
    then show ?thesis using skip_ended(2) [of bf ix D t2 fuel] E(1,3) ix by (simp add: q_def)
  next
    case False
    then have q: "q < length ix" "Suc q = length ix" by (auto simp: q_def)
    have "length es = block_off D ix q + length (D (snd (ix ! q)))" using block_off_Suc [OF q(1), of D] ix(2) unfolding q(2) by simp
    then have "(if length (D (snd (ix ! q))) - 1 < length (D (snd (ix ! q))) then block_off D ix q + (length (D (snd (ix ! q))) - 1)
        else prev_pos es (block_off D ix q)) = length es - 1"
      by (cases "D (snd (ix ! q))") (auto simp: prev_pos_def)
    then show ?thesis using skip_backward [OF E(1) E(2) [OF q(1)], of fuel] q ix by (simp only:)
  qed
  then show ?thesis using ix unfolding tl_at_def tl_SeekToLast_def by (auto simp: t1_def t2_def)
qed

lemma tl_at_valid:
  assumes "tl_at cmp key_ok iit iiat dit diat bf fuel t es n" "n < length es"
  obtains ix D j k where "length ix < fuel" "es = concat (map (D \<circ> snd) ix)" "base bf ix D j t"
    "loaded ix D j k t" "k < length (D (snd (ix ! j)))" "n = block_off D ix j + k"
  using assms unfolding tl_at_def tl_position_def by blast

lemma tl_Next_at:
  assumes "tl_at cmp key_ok iit iiat dit diat bf fuel t es n" "n < length es"
  shows "tl_at cmp key_ok iit iiat dit diat bf fuel (tl_Next fuel iit dit bf t) es (Suc n)"
proof -
  obtain ix D j k where ix: "length ix < fuel" "es = concat (map (D \<circ> snd) ix)" and b: "base bf ix D j t"
    and k: "loaded ix D j k t" "k < length (D (snd (ix ! j)))" "n = block_off D ix j + k"
    by (rule tl_at_valid [OF assms])
  have f: "\<forall>w. wrapper_at dit diat w (D (snd (ix ! j))) k \<longrightarrow> wrapper_at dit diat (it_Next (WrapperIterator dit) w) (D (snd (ix ! j))) (Suc k)"
    using dw(8) [OF _ k(2)] by blast
  note S = data_do_at [OF b k(1), where f = "it_Next (WrapperIterator dit)" and k' = "Suc k", OF f]
  have "tl_pos bf ix D (tl_Next fuel iit dit bf t) (Suc n)"
    using skip_forward [OF S] ix(1) k(3) by (simp add: tl_Next_def)
  then show ?thesis using ix unfolding tl_at_def by blast
qed

lemma tl_Prev_at:
  assumes "tl_at cmp key_ok iit iiat dit diat bf fuel t es n" "n < length es"
  shows "tl_at cmp key_ok iit iiat dit diat bf fuel (tl_Prev fuel iit dit bf t) es (if n = 0 then length es else n - 1)"
proof -
  obtain ix D j k where ix: "length ix < fuel" "es = concat (map (D \<circ> snd) ix)" and b: "base bf ix D j t"
    and k: "loaded ix D j k t" "k < length (D (snd (ix ! j)))" "n = block_off D ix j + k"
    by (rule tl_at_valid [OF assms])
  let ?k = "if k = 0 then length (D (snd (ix ! j))) else k - 1"
  have f: "\<forall>w. wrapper_at dit diat w (D (snd (ix ! j))) k \<longrightarrow> wrapper_at dit diat (it_Prev (WrapperIterator dit) w) (D (snd (ix ! j))) (?k)"
    using dw(9) [OF _ k(2)] by blast
  note S = data_do_at [OF b k(1), where f = "it_Prev (WrapperIterator dit)" and k' = "?k", OF f]
  have "j < length ix" using k(1) by (simp add: tl_loaded_def)
  then have "tl_pos bf ix D (tl_Prev fuel iit dit bf t)
      (if ?k < length (D (snd (ix ! j))) then block_off D ix j + ?k else prev_pos es (block_off D ix j))"
    using skip_backward [OF S, of fuel] ix(1) unfolding tl_Prev_def ix(2) by linarith
  moreover have "(if ?k < length (D (snd (ix ! j))) then block_off D ix j + ?k else prev_pos es (block_off D ix j)) = (if n = 0 then length es else n - 1)"
    using k(2,3) by (auto simp: prev_pos_def)
  ultimately have "tl_pos bf ix D (tl_Prev fuel iit dit bf t) (if n = 0 then length es else n - 1)" by (simp only:)
  then show ?thesis using ix unfolding tl_at_def by blast
qed

lemma tl_at_invalid: "tl_at cmp key_ok iit iiat dit diat bf fuel t es n \<Longrightarrow> \<not> n < length es \<Longrightarrow> tl_data_iter t = None \<and> n = length es"
  unfolding tl_at_def tl_position_def using block_off_nth by (auto simp: tl_loaded_def)

lemma tl_at_fields:
  assumes at: "tl_at cmp key_ok iit iiat dit diat bf fuel t es n"
  shows "data_valid dit (tl_data_iter t) \<longleftrightarrow> n < length es" "tl_status_of iit dit t = OK" "sorted_entries cmp key_ok es" "n \<le> length es"
    "n < length es \<Longrightarrow> \<exists>w. tl_data_iter t = Some w \<and> it_key (WrapperIterator dit) w = fst (es ! n) \<and> it_value (WrapperIterator dit) w = snd (es ! n)"
proof -
  obtain ix D j where ix: "es = concat (map (D \<circ> snd) ix)" and b: "base bf ix D j t"
    using at by (auto simp: tl_at_def tl_position_def)
  show "sorted_entries cmp key_ok es" using b ix by (simp add: tl_base_def partition_ok_def)
  have "it_status (WrapperIterator dit) w = OK" if "tl_data_iter t = Some w" for w
    using b that dw(4) by (auto simp: tl_base_def)
  then show "tl_status_of iit dit t = OK"
    using b iw(4) [OF base_index [OF b]] by (auto simp: tl_status_of_def tl_base_def split: option.split)
  show key: "\<exists>w. tl_data_iter t = Some w \<and> it_key (WrapperIterator dit) w = fst (es ! n) \<and> it_value (WrapperIterator dit) w = snd (es ! n)"
    if n: "n < length es"
  proof -
    obtain ix D j k where "es = concat (map (D \<circ> snd) ix)" and k: "loaded ix D j k t" "k < length (D (snd (ix ! j)))" "n = block_off D ix j + k"
      by (rule tl_at_valid [OF at n])
    then show ?thesis using block_off_nth [of j ix k D] dw(2,3) by (fastforce simp: tl_loaded_def)
  qed
  show "data_valid dit (tl_data_iter t) \<longleftrightarrow> n < length es"
  proof (cases "n < length es")
    case True
    obtain ix D j k where "loaded ix D j k t" "k < length (D (snd (ix ! j)))" using tl_at_valid [OF at True] by metis
    then show ?thesis using loaded_valid True by blast
  next
    case False
    then show ?thesis using tl_at_invalid [OF at] by (simp add: data_valid_def)
  qed
  show "n \<le> length es" using tl_at_invalid [OF at] by linarith
qed

lemma tl_contract:
  "sorted_iterator cmp key_ok (TwoLevelIterator fuel iit dit bf) (tl_at cmp key_ok iit iiat dit diat bf fuel)"
proof (rule sorted_iterator.intro [OF index.comparator_contract_axioms sorted_iterator_axioms.intro], goal_cases)
  case (4 s es n)
  then show ?case using tl_at_fields(5) by (fastforce simp: TwoLevelIterator_def)
next
  case (5 s es n)
  then show ?case using tl_at_fields(5) by (fastforce simp: TwoLevelIterator_def)
qed (simp_all add: TwoLevelIterator_def tl_at_fields(1-4) tl_SeekToFirst_at tl_SeekToLast_at tl_Seek_at tl_Next_at tl_Prev_at del: One_nat_def)

lemma tl_init_at:
  assumes "iiat s ix j" "partition_ok cmp key_ok ix D" "\<forall>e\<in>set ix. \<exists>n. diat (bf (snd e)) (D (snd e)) n" "length ix < fuel"
  shows "tl_at cmp key_ok iit iiat dit diat bf fuel (TwoLevelIter_init iit s) (concat (map (D \<circ> snd) ix)) (length (concat (map (D \<circ> snd) ix)))"
  using assms index.wrapper_at_Set [OF assms(1)] unfolding tl_at_def tl_position_def tl_base_def TwoLevelIter_init_def
  by (intro exI [of _ ix] exI [of _ D]) auto

end

end
