(* ===== verification/Formats.thy ===== *)
theory Formats
  imports Crc32c Bloom Env_Posix Comparators
begin

text \<open>
  Options, block compression and the framing of blocks in a table file: block handles, the footer and
  \<open>ReadBlock\<close> (\<^verbatim>\<open>include/options.h\<close>, \<^verbatim>\<open>src/port/port_stdcxx.h\<close>, \<^verbatim>\<open>src/table/format.h\<close>,
  \<^verbatim>\<open>src/table/format.cc\<close>).  The compression libraries are the parameter \<open>lib\<close>.
\<close>

section \<open>Options\<close>

datatype CompressionType = kNoCompression | kSnappyCompression | kZstdCompression

fun compression_code :: "CompressionType \<Rightarrow> byte" where
  "compression_code kNoCompression = 0"
| "compression_code kSnappyCompression = 1"
| "compression_code kZstdCompression = 2"

record Options =
  opt_comparator :: comparator
  opt_create_if_missing :: bool
  opt_error_if_exists :: bool
  opt_paranoid_checks :: bool
  opt_write_buffer_size :: nat
  opt_max_open_files :: int
  opt_block_size :: nat
  opt_block_restart_interval :: nat
  opt_max_file_size :: nat
  opt_compression :: CompressionType
  opt_zstd_compression_level :: int
  opt_reuse_logs :: bool
  opt_filter_policy :: "filter_policy option"

definition Options_init :: Options where
  "Options_init =
     \<lparr> opt_comparator = BytewiseComparator, opt_create_if_missing = False, opt_error_if_exists = False,
       opt_paranoid_checks = False, opt_write_buffer_size = 4 * 1024 * 1024, opt_max_open_files = 1000,
       opt_block_size = 4 * 1024, opt_block_restart_interval = 16, opt_max_file_size = 2 * 1024 * 1024,
       opt_compression = kSnappyCompression, opt_zstd_compression_level = 1, opt_reuse_logs = False,
       opt_filter_policy = None \<rparr>"

record ReadOptions =
  ro_verify_checksums :: bool
  ro_fill_cache :: bool
  ro_snapshot :: "u64 option"
  ro_max_sequential_skip :: nat

definition ReadOptions_init :: ReadOptions where
  "ReadOptions_init = \<lparr> ro_verify_checksums = False, ro_fill_cache = True, ro_snapshot = None, ro_max_sequential_skip = 0 \<rparr>"

section \<open>Compression\<close>

text \<open>
  The functions of the snappy and zstd libraries that the wrappers call; \<open>None\<close> is an error return, and a
  library the build lacks is the whole field \<open>None\<close>.
\<close>

record snappy_lib =
  snappy_RawCompress :: "bytes \<Rightarrow> bytes"
  snappy_GetUncompressedLength :: "bytes \<Rightarrow> nat option"
  snappy_RawUncompress :: "bytes \<Rightarrow> bytes option"

record zstd_lib =
  ZSTD_compressBound :: "nat \<Rightarrow> nat option"
  ZSTD_compress2 :: "int \<Rightarrow> nat \<Rightarrow> bytes \<Rightarrow> bytes option"
  ZSTD_getFrameContentSize :: "bytes \<Rightarrow> nat"
  ZSTD_decompressDCtx :: "nat \<Rightarrow> bytes \<Rightarrow> bytes option"

record compress_lib =
  HAVE_SNAPPY :: "snappy_lib option"
  HAVE_ZSTD :: "zstd_lib option"

definition Snappy_Compress :: "compress_lib \<Rightarrow> bytes \<Rightarrow> bytes option" where
  "Snappy_Compress lib input = map_option (\<lambda>l. snappy_RawCompress l input) (HAVE_SNAPPY lib)"

definition Snappy_GetUncompressedLength :: "compress_lib \<Rightarrow> bytes \<Rightarrow> nat option" where
  "Snappy_GetUncompressedLength lib input =
     (case HAVE_SNAPPY lib of None \<Rightarrow> None | Some l \<Rightarrow> snappy_GetUncompressedLength l input)"

definition Snappy_Uncompress :: "compress_lib \<Rightarrow> bytes \<Rightarrow> bytes option" where
  "Snappy_Uncompress lib input = (case HAVE_SNAPPY lib of None \<Rightarrow> None | Some l \<Rightarrow> snappy_RawUncompress l input)"

definition Zstd_Compress :: "compress_lib \<Rightarrow> int \<Rightarrow> bytes \<Rightarrow> bytes option" where
  "Zstd_Compress lib level input =
     (case HAVE_ZSTD lib of
        None \<Rightarrow> None
      | Some l \<Rightarrow>
          (case ZSTD_compressBound l (length input) of
             None \<Rightarrow> None
           | Some outlen \<Rightarrow> ZSTD_compress2 l level outlen input))"

definition Zstd_GetUncompressedLength :: "compress_lib \<Rightarrow> bytes \<Rightarrow> nat option" where
  "Zstd_GetUncompressedLength lib input =
     (case HAVE_ZSTD lib of
        None \<Rightarrow> None
      | Some l \<Rightarrow> let sz = ZSTD_getFrameContentSize l input in if sz = 0 then None else Some sz)"

definition Zstd_Uncompress :: "compress_lib \<Rightarrow> bytes \<Rightarrow> bytes option" where
  "Zstd_Uncompress lib input =
     (case HAVE_ZSTD lib of
        None \<Rightarrow> None
      | Some l \<Rightarrow>
          (case Zstd_GetUncompressedLength lib input of
             None \<Rightarrow> None
           | Some outlen \<Rightarrow> ZSTD_decompressDCtx l outlen input))"

section \<open>BlockHandle\<close>

record BlockHandle =
  bh_offset :: u64
  bh_size :: u64

definition BlockHandle_init :: BlockHandle where
  "BlockHandle_init = \<lparr> bh_offset = NOT 0, bh_size = NOT 0 \<rparr>"

definition kMaxEncodedLength :: nat where "kMaxEncodedLength = 10 + 10"

text \<open>The code asserts that both fields were set; the assertions are not part of the model.\<close>

definition bh_EncodeTo :: "BlockHandle \<Rightarrow> bytes \<Rightarrow> bytes" where
  "bh_EncodeTo h dst = PutVarint64 (PutVarint64 dst (bh_offset h)) (bh_size h)"

text \<open>The status, what is left of the input, and the handle.\<close>

definition bh_DecodeFrom :: "bytes \<Rightarrow> BlockHandle \<Rightarrow> status \<times> bytes \<times> BlockHandle" where
  "bh_DecodeFrom input h =
     (case GetVarint64 input of
        None \<Rightarrow> (Corruption ''bad block handle'', input, h)
      | Some (offset, input) \<Rightarrow>
          (case GetVarint64 input of
             None \<Rightarrow> (Corruption ''bad block handle'', input, h\<lparr> bh_offset := offset \<rparr>)
           | Some (sz, input) \<Rightarrow> (OK, input, \<lparr> bh_offset = offset, bh_size = sz \<rparr>)))"

section \<open>Footer\<close>

record Footer =
  ft_metaindex_handle :: BlockHandle
  ft_index_handle :: BlockHandle

definition Footer_init :: Footer where
  "Footer_init = \<lparr> ft_metaindex_handle = BlockHandle_init, ft_index_handle = BlockHandle_init \<rparr>"

definition kEncodedLength :: nat where "kEncodedLength = 2 * kMaxEncodedLength + 8"

definition kTableMagicNumber :: u64 where "kTableMagicNumber = 0xdb4775248b08fb57"

definition resize :: "nat \<Rightarrow> bytes \<Rightarrow> bytes" where
  "resize n s = take n (s @ replicate (n - length s) 0)"

definition ft_EncodeTo :: "Footer \<Rightarrow> bytes \<Rightarrow> bytes" where
  "ft_EncodeTo f dst =
     (let dst = bh_EncodeTo (ft_metaindex_handle f) dst;
          dst = bh_EncodeTo (ft_index_handle f) dst;
          dst = resize (2 * kMaxEncodedLength) dst;
          dst = PutFixed32 dst (ucast (kTableMagicNumber AND 0xffffffff))
      in PutFixed32 dst (ucast (drop_bit 32 kTableMagicNumber)))"

definition ft_DecodeFrom :: "bytes \<Rightarrow> Footer \<Rightarrow> status \<times> bytes \<times> Footer" where
  "ft_DecodeFrom input f =
     (if length input < kEncodedLength then (Corruption ''not an sstable (footer too short)'', input, f)
      else
        let magic_ptr = drop (kEncodedLength - 8) input;
            magic_lo = DecodeFixed32 magic_ptr;
            magic_hi = DecodeFixed32 (drop 4 magic_ptr);
            magic = (push_bit 32 (ucast magic_hi) OR ucast magic_lo :: u64)
        in if magic \<noteq> kTableMagicNumber then (Corruption ''not an sstable (bad magic number)'', input, f)
           else
             let (result, rest, h) = bh_DecodeFrom input (ft_metaindex_handle f);
                 f = f\<lparr> ft_metaindex_handle := h \<rparr>
             in if ok result then
                  let (result, rest, h) = bh_DecodeFrom rest (ft_index_handle f);
                      f = f\<lparr> ft_index_handle := h \<rparr>
                  in if ok result then (result, drop 8 magic_ptr, f) else (result, rest, f)
                else (result, rest, f))"

section \<open>Reading a block\<close>

definition kBlockTrailerSize :: nat where "kBlockTrailerSize = 5"

record BlockContents =
  bc_data :: bytes
  bc_cachable :: bool
  bc_heap_allocated :: bool

text \<open>
  A \<open>RandomAccessFile\<close>: \<open>raf_Read\<close> of an offset and a length, and whether its result lies in the caller's
  buffer (\<open>pread\<close>) or in memory of the file object (\<open>mmap\<close>).
\<close>

record RandomAccessFile =
  raf_Read :: "nat \<Rightarrow> nat \<Rightarrow> status \<times> bytes"
  raf_in_scratch :: bool

definition posix_random :: "PosixRandomAccessFile \<Rightarrow> RandomAccessFile" where
  "posix_random f = \<lparr> raf_Read = (\<lambda>offset n. fst (praf_Read offset n f)), raf_in_scratch = True \<rparr>"

definition posix_mmap :: "string \<Rightarrow> bytes \<Rightarrow> RandomAccessFile" where
  "posix_mmap filename region = \<lparr> raf_Read = mmap_Read filename region, raf_in_scratch = False \<rparr>"

text \<open>The length of the read wraps at 64 bits, as \<open>size_t\<close> does.\<close>

definition ReadBlock :: "compress_lib \<Rightarrow> RandomAccessFile \<Rightarrow> ReadOptions \<Rightarrow> BlockHandle \<Rightarrow> status \<times> BlockContents" where
  "ReadBlock lib file options handle =
     (let n = unat (bh_size handle);
          none = \<lparr> bc_data = [], bc_cachable = False, bc_heap_allocated = False \<rparr>;
          owned = (\<lambda>u. \<lparr> bc_data = u, bc_cachable = True, bc_heap_allocated = True \<rparr>);
          (s, contents) = raf_Read file (unat (bh_offset handle)) ((n + kBlockTrailerSize) mod 2 ^ 64)
      in if \<not> ok s then (s, none)
         else if length contents \<noteq> (n + kBlockTrailerSize) mod 2 ^ 64 then (Corruption ''truncated block read'', none)
         else if ro_verify_checksums options
                 \<and> crc32c_Value (take (n + 1) contents) \<noteq> Unmask (DecodeFixed32 (drop (n + 1) contents))
         then (Corruption ''block checksum mismatch'', none)
         else if contents ! n = compression_code kNoCompression then
           (OK, \<lparr> bc_data = take n contents, bc_cachable = raf_in_scratch file, bc_heap_allocated = raf_in_scratch file \<rparr>)
         else if contents ! n = compression_code kSnappyCompression then
           (case Snappy_GetUncompressedLength lib (take n contents) of
              None \<Rightarrow> (Corruption ''corrupted snappy compressed block length'', none)
            | Some ulength \<Rightarrow>
                (case Snappy_Uncompress lib (take n contents) of
                   None \<Rightarrow> (Corruption ''corrupted snappy compressed block contents'', none)
                 | Some ubuf \<Rightarrow> (OK, owned (take ulength ubuf))))
         else if contents ! n = compression_code kZstdCompression then
           (case Zstd_GetUncompressedLength lib (take n contents) of
              None \<Rightarrow> (Corruption ''corrupted zstd compressed block length'', none)
            | Some ulength \<Rightarrow>
                (case Zstd_Uncompress lib (take n contents) of
                   None \<Rightarrow> (Corruption ''corrupted zstd compressed block contents'', none)
                 | Some ubuf \<Rightarrow> (OK, owned (take ulength ubuf))))
         else (Corruption ''bad block type'', none))"

section \<open>Lemmas\<close>

lemma bh_DecodeFrom_EncodeTo [simp]:
  "bh_DecodeFrom (bh_EncodeTo h [] @ rest) h0 = (OK, rest, \<lparr> bh_offset = bh_offset h, bh_size = bh_size h \<rparr>)"
  by (simp add: bh_DecodeFrom_def bh_EncodeTo_def PutVarint64_def)

lemma bh_EncodeTo_append: "bh_EncodeTo h dst = dst @ bh_EncodeTo h []"
  by (simp add: bh_EncodeTo_def PutVarint64_def)

lemma length_bh_EncodeTo: "length (bh_EncodeTo h []) \<le> kMaxEncodedLength"
  using varint_length_bounds(4) [of "bh_offset h"] varint_length_bounds(4) [of "bh_size h"]
  by (simp add: bh_EncodeTo_def PutVarint64_def kMaxEncodedLength_def)

lemma bh_eta [simp]: "\<lparr> bh_offset = bh_offset h, bh_size = bh_size h \<rparr> = (h :: BlockHandle)"
  by simp

lemma ft_EncodeTo_eq:
  obtains pad where "ft_EncodeTo f [] = bh_EncodeTo (ft_metaindex_handle f) [] @ bh_EncodeTo (ft_index_handle f) [] @ pad
      @ EncodeFixed32 0x8b08fb57 @ EncodeFixed32 0xdb477524"
    "length (bh_EncodeTo (ft_metaindex_handle f) [] @ bh_EncodeTo (ft_index_handle f) [] @ pad) = 40"
proof -
  let ?e = "bh_EncodeTo (ft_metaindex_handle f) [] @ bh_EncodeTo (ft_index_handle f) []"
  have "length ?e \<le> 40" using length_bh_EncodeTo [of "ft_metaindex_handle f"] length_bh_EncodeTo [of "ft_index_handle f"]
    by (simp add: kMaxEncodedLength_def)
  then have "resize 40 ?e = ?e @ replicate (40 - length ?e) 0" by (simp add: resize_def)
  moreover have "ucast (kTableMagicNumber AND 0xffffffff) = (0x8b08fb57 :: u32)" "ucast (drop_bit 32 kTableMagicNumber) = (0xdb477524 :: u32)"
    by (simp_all add: kTableMagicNumber_def)
  ultimately show thesis using that [of "replicate (40 - length ?e) 0"] \<open>length ?e \<le> 40\<close>
    by (simp add: ft_EncodeTo_def Let_def PutFixed32_def bh_EncodeTo_append [of "ft_index_handle f" "bh_EncodeTo _ _"] kMaxEncodedLength_def)
qed

lemma ft_DecodeFrom_EncodeTo:
  "ft_DecodeFrom (ft_EncodeTo f [] @ rest) f0
    = (OK, rest, \<lparr> ft_metaindex_handle = ft_metaindex_handle f, ft_index_handle = ft_index_handle f \<rparr>)"
  "length (ft_EncodeTo f []) = kEncodedLength"
proof -
  obtain pad where e: "ft_EncodeTo f [] = bh_EncodeTo (ft_metaindex_handle f) [] @ bh_EncodeTo (ft_index_handle f) [] @ pad
      @ EncodeFixed32 0x8b08fb57 @ EncodeFixed32 0xdb477524"
    and l: "length (bh_EncodeTo (ft_metaindex_handle f) [] @ bh_EncodeTo (ft_index_handle f) [] @ pad) = 40"
    by (rule ft_EncodeTo_eq)
  show len: "length (ft_EncodeTo f []) = kEncodedLength" using l by (simp add: e kEncodedLength_def kMaxEncodedLength_def)
  let ?p = "bh_EncodeTo (ft_metaindex_handle f) [] @ bh_EncodeTo (ft_index_handle f) [] @ pad"
  have "drop 40 (ft_EncodeTo f [] @ rest) = drop 40 (?p @ EncodeFixed32 0x8b08fb57 @ EncodeFixed32 0xdb477524 @ rest)" by (simp add: e)
  also have "\<dots> = EncodeFixed32 0x8b08fb57 @ EncodeFixed32 0xdb477524 @ rest" using l by (intro drop_append_exact) simp
  finally have d: "drop (kEncodedLength - 8) (ft_EncodeTo f [] @ rest) = EncodeFixed32 0x8b08fb57 @ EncodeFixed32 0xdb477524 @ rest"
    by (simp add: kEncodedLength_def kMaxEncodedLength_def)
  define R where "R = bh_EncodeTo (ft_index_handle f) [] @ pad @ EncodeFixed32 0x8b08fb57 @ EncodeFixed32 0xdb477524 @ rest"
  have dec: "bh_DecodeFrom (ft_EncodeTo f [] @ rest) h = (OK, R, ft_metaindex_handle f)" for h
    unfolding e R_def by (simp add: append.assoc)
  have dec2: "bh_DecodeFrom R h = (OK, pad @ EncodeFixed32 0x8b08fb57 @ EncodeFixed32 0xdb477524 @ rest, ft_index_handle f)" for h
    unfolding R_def by simp
  have d8: "drop 8 (EncodeFixed32 x @ EncodeFixed32 y @ rest) = rest" for x y by simp
  show "ft_DecodeFrom (ft_EncodeTo f [] @ rest) f0
      = (OK, rest, \<lparr> ft_metaindex_handle = ft_metaindex_handle f, ft_index_handle = ft_index_handle f \<rparr>)"
    using len unfolding ft_DecodeFrom_def d Let_def dec by (simp add: dec2 kTableMagicNumber_def d8)
qed

lemma ReadBlock_verified:
  assumes "ReadBlock lib file options handle = (OK, contents)" "ro_verify_checksums options" "unat (bh_size handle) + kBlockTrailerSize < 2 ^ 64"
  shows "\<exists>raw. raf_Read file (unat (bh_offset handle)) (unat (bh_size handle) + kBlockTrailerSize) = (OK, raw)
    \<and> length raw = unat (bh_size handle) + kBlockTrailerSize
    \<and> Unmask (DecodeFixed32 (drop (unat (bh_size handle) + 1) raw)) = crc32c_Value (take (unat (bh_size handle) + 1) raw)"
  using assms unfolding ReadBlock_def Let_def by (auto split: prod.splits if_splits)

section \<open>Properties\<close>

text \<open>
  C24: The footer.  Its encoding is 48 bytes whatever the handles are, and decoding it gives back both handles
  and leaves what follows in the input.
\<close>

theorem footer_roundtrip:
  "length (ft_EncodeTo f []) = 48 \<and> ft_DecodeFrom (ft_EncodeTo f [] @ rest) f0
     = (OK, rest, \<lparr> ft_metaindex_handle = ft_metaindex_handle f, ft_index_handle = ft_index_handle f \<rparr>)"
  using ft_DecodeFrom_EncodeTo by (simp add: kEncodedLength_def kMaxEncodedLength_def)

end
