(* ===== verification/Filter_Block.thy ===== *)
theory Filter_Block
  imports Bloom Coding
begin

text \<open>
  The filter block of a table (\<^verbatim>\<open>src/table/filter_block.cc\<close>): one filter per 2 KB of file offset, followed by
  the offsets of the filters.
\<close>

section \<open>FilterBlockBuilder\<close>

definition kFilterBaseLg :: nat where "kFilterBaseLg = 11"
definition kFilterBase :: nat where "kFilterBase = 2 ^ kFilterBaseLg"

record FilterBlockBuilder =
  fb_policy :: filter_policy
  fb_keys :: bytes
  fb_start :: "nat list"
  fb_result :: bytes
  fb_filter_offsets :: "u32 list"

definition FilterBlockBuilder_init :: "filter_policy \<Rightarrow> FilterBlockBuilder" where
  "FilterBlockBuilder_init policy =
     \<lparr> fb_policy = policy, fb_keys = [], fb_start = [], fb_result = [], fb_filter_offsets = [] \<rparr>"

definition GenerateFilter :: "FilterBlockBuilder \<Rightarrow> FilterBlockBuilder" where
  "GenerateFilter b =
     (let num_keys = length (fb_start b);
          offsets = fb_filter_offsets b @ [of_nat (length (fb_result b))]
      in if num_keys = 0 then b\<lparr> fb_filter_offsets := offsets \<rparr>
         else
           let start = fb_start b @ [length (fb_keys b)];
               tmp_keys = map (\<lambda>i. take (start ! (i + 1) - start ! i) (drop (start ! i) (fb_keys b))) [0..<num_keys]
           in b\<lparr> fb_filter_offsets := offsets, fb_result := CreateFilter (fb_policy b) tmp_keys (fb_result b),
                  fb_keys := [], fb_start := [] \<rparr>)"

lemma GenerateFilter_offsets [simp]: "length (fb_filter_offsets (GenerateFilter b)) = Suc (length (fb_filter_offsets b))"
  by (simp add: GenerateFilter_def Let_def)

function generate_until :: "nat \<Rightarrow> FilterBlockBuilder \<Rightarrow> FilterBlockBuilder" where
  "generate_until filter_index b =
     (if filter_index > length (fb_filter_offsets b) then generate_until filter_index (GenerateFilter b) else b)"
  by pat_completeness auto
termination by (relation "measure (\<lambda>(filter_index, b). filter_index - length (fb_filter_offsets b))") auto

declare generate_until.simps [simp del]

definition StartBlock :: "nat \<Rightarrow> FilterBlockBuilder \<Rightarrow> FilterBlockBuilder" where
  "StartBlock block_offset b = generate_until (block_offset div kFilterBase) b"

definition AddKey :: "bytes \<Rightarrow> FilterBlockBuilder \<Rightarrow> FilterBlockBuilder" where
  "AddKey key b = b\<lparr> fb_start := fb_start b @ [length (fb_keys b)], fb_keys := fb_keys b @ key \<rparr>"

definition fb_Finish :: "FilterBlockBuilder \<Rightarrow> bytes \<times> FilterBlockBuilder" where
  "fb_Finish b =
     (let b = (if fb_start b \<noteq> [] then GenerateFilter b else b);
          array_offset = of_nat (length (fb_result b)) :: u32;
          result = fold (\<lambda>v r. PutFixed32 r v) (fb_filter_offsets b) (fb_result b);
          result = PutFixed32 result array_offset;
          result = result @ [of_nat kFilterBaseLg]
      in (result, b\<lparr> fb_result := result \<rparr>))"

section \<open>FilterBlockReader\<close>

text \<open>\<open>data_\<close> is the contents, or null; \<open>offset_\<close> is an index into it.\<close>

record FilterBlockReader =
  fr_policy :: filter_policy
  fr_data :: "bytes option"
  fr_offset :: nat
  fr_num :: nat
  fr_base_lg :: u64

text \<open>The last byte is a signed \<open>char\<close> and is sign-extended to \<open>size_t\<close>.\<close>

definition FilterBlockReader_init :: "filter_policy \<Rightarrow> bytes \<Rightarrow> FilterBlockReader" where
  "FilterBlockReader_init policy contents =
     (let r = \<lparr> fr_policy = policy, fr_data = None, fr_offset = 0, fr_num = 0, fr_base_lg = 0 \<rparr>;
          n = length contents
      in if n < 5 then r
         else
           let r = r\<lparr> fr_base_lg := scast (contents ! (n - 1)) \<rparr>;
               last_word = unat (DecodeFixed32 (drop (n - 5) contents))
           in if last_word > n - 5 then r
              else r\<lparr> fr_data := Some contents, fr_offset := last_word, fr_num := (n - 5 - last_word) div 4 \<rparr>)"

definition fr_KeyMayMatch :: "FilterBlockReader \<Rightarrow> u64 \<Rightarrow> bytes \<Rightarrow> bool" where
  "fr_KeyMayMatch r block_offset key =
     (let index = unat (drop_bit (unat (fr_base_lg r)) block_offset)
      in case fr_data r of
           None \<Rightarrow> True
         | Some data \<Rightarrow>
             if index < fr_num r then
               let start = unat (DecodeFixed32 (drop (fr_offset r + index * 4) data));
                   limit = unat (DecodeFixed32 (drop (fr_offset r + index * 4 + 4) data))
               in if start \<le> limit \<and> limit \<le> fr_offset r
                  then KeyMayMatch (fr_policy r) key (take (limit - start) (drop start data))
                  else False
             else True)"

section \<open>The filters of a list of key groups\<close>

definition group_filter :: "filter_policy \<Rightarrow> bytes list \<Rightarrow> bytes" where
  "group_filter policy g = (if g = [] then [] else CreateFilter policy g [])"

definition filters_of :: "filter_policy \<Rightarrow> bytes list list \<Rightarrow> bytes" where
  "filters_of policy gs = concat (map (group_filter policy) gs)"

definition filter_starts :: "filter_policy \<Rightarrow> bytes list list \<Rightarrow> u32 list" where
  "filter_starts policy gs = map (\<lambda>i. of_nat (length (filters_of policy (take i gs)))) [0..<length gs]"

definition filter_block_of :: "filter_policy \<Rightarrow> bytes list list \<Rightarrow> bytes" where
  "filter_block_of policy gs =
     filters_of policy gs @ concat (map EncodeFixed32 (filter_starts policy gs @ [of_nat (length (filters_of policy gs))])) @ [11]"

definition key_starts :: "bytes list \<Rightarrow> nat list" where
  "key_starts ks = map (\<lambda>i. length (concat (take i ks))) [0..<length ks]"

text \<open>The builder has made the filters of the groups \<open>gs\<close> and holds the keys \<open>pend\<close> of the next one.\<close>

definition fb_rep :: "FilterBlockBuilder \<Rightarrow> bytes list list \<Rightarrow> bytes list \<Rightarrow> bool" where
  "fb_rep b gs pend \<longleftrightarrow>
     fb_keys b = concat pend \<and> fb_start b = key_starts pend
     \<and> fb_result b = filters_of (fb_policy b) gs \<and> fb_filter_offsets b = filter_starts (fb_policy b) gs"

lemma fb_rep_init: "fb_rep (FilterBlockBuilder_init policy) [] []"
  by (simp add: fb_rep_def FilterBlockBuilder_init_def key_starts_def filters_of_def filter_starts_def)

lemma fb_rep_AddKey: "fb_rep b gs pend \<Longrightarrow> fb_rep (AddKey k b) gs (pend @ [k])"
  by (auto simp: fb_rep_def AddKey_def key_starts_def)

lemma fb_policy_ops [simp]:
  "fb_policy (AddKey k b) = fb_policy b" "fb_policy (GenerateFilter b) = fb_policy b"
  "fb_policy (FilterBlockBuilder_init policy) = policy"
  by (simp_all add: AddKey_def GenerateFilter_def FilterBlockBuilder_init_def Let_def)

lemma fb_policy_generate [simp]: "fb_policy (generate_until i b) = fb_policy b"
  by (induction i b rule: generate_until.induct) (subst generate_until.simps, simp)

lemma key_starts_slices:
  assumes "i < length ks"
  defines "st \<equiv> key_starts ks @ [length (concat ks)]"
  shows "take (st ! (i + 1) - st ! i) (drop (st ! i) (concat ks)) = ks ! i"
proof -
  have st: "st ! j = length (concat (take j ks))" if "j \<le> length ks" for j
    using that by (auto simp: st_def key_starts_def nth_append)
  have "concat ks = concat (take i ks) @ ks ! i @ concat (drop (Suc i) ks)"
    using id_take_nth_drop [OF assms(1)] by (metis concat.simps(2) concat_append)
  then have "drop (st ! i) (concat ks) = ks ! i @ concat (drop (Suc i) ks)" using st [of i] assms(1) by simp
  moreover have "st ! (i + 1) - st ! i = length (ks ! i)" using st [of i] st [of "i + 1"] assms(1) by (simp add: take_Suc_conv_app_nth)
  ultimately show ?thesis by simp
qed

lemma filter_starts_snoc:
  "filter_starts policy (gs @ [g]) = filter_starts policy gs @ [of_nat (length (filters_of policy gs))]"
  by (auto simp: filter_starts_def)

context filter_policy_contract
begin

lemma fb_rep_Generate:
  assumes "fb_rep b gs pend" "fb_policy b = policy"
  shows "fb_rep (GenerateFilter b) (gs @ [pend]) []"
proof (cases "pend = []")
  case True
  then show ?thesis using assms
    by (simp add: fb_rep_def GenerateFilter_def key_starts_def Let_def filter_starts_snoc filters_of_def group_filter_def)
next
  case False
  have "map (\<lambda>i. take ((key_starts pend @ [length (concat pend)]) ! (i + 1) - (key_starts pend @ [length (concat pend)]) ! i)
      (drop ((key_starts pend @ [length (concat pend)]) ! i) (concat pend))) [0..<length pend] = pend"
    by (rule nth_equalityI) (simp_all add: key_starts_slices [simplified])
  moreover have "length (key_starts pend) = length pend" by (simp add: key_starts_def)
  ultimately show ?thesis using assms False
    by (simp add: fb_rep_def GenerateFilter_def Let_def filter_starts_snoc filters_of_def group_filter_def key_starts_def
        filter_append [of pend "concat _"])
qed

end

definition groups_at :: "nat \<Rightarrow> bytes list list \<Rightarrow> bytes list \<Rightarrow> bytes list list \<times> bytes list" where
  "groups_at i gs pend = (if length gs < i then (gs @ [pend] @ replicate (i - length gs - 1) [], []) else (gs, pend))"

lemma length_filter_starts [simp]: "length (filter_starts policy gs) = length gs"
  by (simp add: filter_starts_def)

context filter_policy_contract
begin

lemma fb_rep_generate_until:
  "fb_rep b gs pend \<Longrightarrow> fb_policy b = policy \<Longrightarrow> fb_rep (generate_until i b) (fst (groups_at i gs pend)) (snd (groups_at i gs pend))"
proof (induction i b arbitrary: gs pend rule: generate_until.induct)
  case (1 i b)
  have len: "length (fb_filter_offsets b) = length gs" using 1(2) by (simp add: fb_rep_def)
  show ?case
  proof (cases "length gs < i")
    case True
    have "groups_at i (gs @ [pend]) [] = groups_at i gs pend"
    proof -
      obtain d where "i = Suc (length gs + d)" using less_imp_Suc_add [OF True] by blast
      then show ?thesis by (cases d) (simp_all add: groups_at_def)
    qed
    moreover have "fb_rep (generate_until i (GenerateFilter b)) (fst (groups_at i (gs @ [pend]) [])) (snd (groups_at i (gs @ [pend]) []))"
      using 1(1) [OF _ fb_rep_Generate [OF 1(2,3)]] True len 1(3) by simp
    ultimately show ?thesis using True len by (simp add: generate_until.simps [of i b])
  next
    case False
    then show ?thesis using 1(2) len by (simp add: generate_until.simps [of i b] groups_at_def)
  qed
qed

lemma fb_rep_StartBlock:
  "fb_rep b gs pend \<Longrightarrow> fb_policy b = policy \<Longrightarrow>
    fb_rep (StartBlock off b) (fst (groups_at (off div 2048) gs pend)) (snd (groups_at (off div 2048) gs pend))"
  using fb_rep_generate_until by (simp add: StartBlock_def kFilterBase_def kFilterBaseLg_def)

lemma fold_PutFixed32: "fold (\<lambda>v r. PutFixed32 r v) vs r = r @ concat (map EncodeFixed32 vs)"
  by (induction vs arbitrary: r) (auto simp: PutFixed32_def)

lemma fb_Finish_rep:
  assumes "fb_rep b gs pend" "fb_policy b = policy"
  shows "fst (fb_Finish b) = filter_block_of policy (if pend = [] then gs else gs @ [pend])"
proof -
  define b' where "b' = (if fb_start b \<noteq> [] then GenerateFilter b else b)"
  define gs' where "gs' = (if pend = [] then gs else gs @ [pend])"
  have "fb_start b = [] \<longleftrightarrow> pend = []" using assms(1) by (auto simp: fb_rep_def key_starts_def)
  then have "fb_rep b' gs' []" "fb_policy b' = policy" using assms fb_rep_Generate [OF assms] by (auto simp: b'_def gs'_def)
  then show ?thesis unfolding fb_Finish_def b'_def [symmetric] gs'_def [symmetric]
    by (simp add: Let_def fold_PutFixed32 fb_rep_def filter_block_of_def kFilterBaseLg_def) (simp add: PutFixed32_def)
qed

end

text \<open>What the reader makes of a block of filters.\<close>

lemma filters_of_take:
  "i < length gs \<Longrightarrow> filters_of policy gs = filters_of policy (take i gs) @ group_filter policy (gs ! i) @ filters_of policy (drop (Suc i) gs)"
  unfolding filters_of_def using id_take_nth_drop by (metis concat.simps(2) concat_append list.simps(9) map_append)

lemma reader_fields:
  assumes "length (filter_block_of policy gs) < 2 ^ 32"
  shows "FilterBlockReader_init policy (filter_block_of policy gs)
    = \<lparr> fr_policy = policy, fr_data = Some (filter_block_of policy gs), fr_offset = length (filters_of policy gs),
        fr_num = length gs, fr_base_lg = 11 \<rparr>"
proof -
  let ?F = "filters_of policy gs" and ?C = "filter_block_of policy gs"
  have C: "?C = (?F @ concat (map EncodeFixed32 (filter_starts policy gs))) @ EncodeFixed32 (of_nat (length ?F)) @ [11]"
    by (simp add: filter_block_of_def)
  have n: "length ?C = length ?F + 4 * length gs + 5" unfolding C using length_fixed_concat [of "\<lambda>x. x" "filter_starts policy gs"] by simp
  have d: "drop (length ?C - 5) ?C = EncodeFixed32 (of_nat (length ?F)) @ [11]" unfolding C by (rule drop_append_exact) (use n C in simp)
  have l: "?C ! (length ?C - 1) = 11" unfolding C by (simp add: nth_append)
  have "scast (11 :: byte) = (11 :: u64)" by simp
  then show ?thesis using n assms d l by (simp add: FilterBlockReader_init_def Let_def unsigned_of_nat take_bit_nat_eq_self)
qed

lemma reader_words:
  assumes "length (filter_block_of policy gs) < 2 ^ 32" "i \<le> length gs"
  shows "unat (DecodeFixed32 (drop (length (filters_of policy gs) + i * 4) (filter_block_of policy gs))) = length (filters_of policy (take i gs))"
proof -
  let ?F = "filters_of policy gs" and ?W = "filter_starts policy gs @ [of_nat (length (filters_of policy gs))]"
  have "drop (length ?F + i * 4) (filter_block_of policy gs) = drop (i * 4) (concat (map EncodeFixed32 ?W) @ [11])"
    by (simp add: filter_block_of_def add.commute flip: drop_drop)
  also have "\<dots> = concat (map EncodeFixed32 (drop i ?W)) @ drop (i * 4 - length (concat (map EncodeFixed32 ?W))) [11]"
    using drop_fixed_concat [of i ?W "\<lambda>x. x"] assms(2) by simp
  also have "drop i ?W = ?W ! i # drop (Suc i) ?W" using assms(2) by (intro Cons_nth_drop_Suc [symmetric]) simp
  finally have "DecodeFixed32 (drop (length ?F + i * 4) (filter_block_of policy gs)) = ?W ! i" by simp
  moreover have "?W ! i = of_nat (length (filters_of policy (take i gs)))"
    using assms(2) by (cases "i < length gs") (auto simp: filter_starts_def nth_append)
  moreover have "length (filters_of policy (take i gs)) \<le> length ?F"
    using filters_of_take [of i gs policy] assms(2) by (cases "i < length gs") auto
  moreover have "length ?F < 2 ^ 32" using assms(1) by (simp add: filter_block_of_def)
  ultimately show ?thesis by (simp add: unsigned_of_nat take_bit_nat_eq_self)
qed

lemma fr_KeyMayMatch_eq:
  assumes "length (filter_block_of policy gs) < 2 ^ 32"
  shows "fr_KeyMayMatch (FilterBlockReader_init policy (filter_block_of policy gs)) off key \<longleftrightarrow>
    (unat off div 2048 < length gs \<longrightarrow> KeyMayMatch policy key (group_filter policy (gs ! (unat off div 2048))))"
proof -
  let ?F = "filters_of policy gs" and ?i = "unat off div 2048"
  have i: "unat (drop_bit 11 off) = ?i" by (simp add: drop_bit_eq_div unat_div_distrib)
  show ?thesis
  proof (cases "?i < length gs")
    case True
    let ?a = "length (filters_of policy (take ?i gs))" and ?g = "group_filter policy (gs ! ?i)"
    have s: "filters_of policy (take (Suc ?i) gs) = filters_of policy (take ?i gs) @ ?g"
      using True by (simp add: filters_of_def take_Suc_conv_app_nth)
    have w: "unat (DecodeFixed32 (drop (length ?F + ?i * 4) (filter_block_of policy gs))) = ?a"
      "unat (DecodeFixed32 (drop (length ?F + ?i * 4 + 4) (filter_block_of policy gs))) = ?a + length ?g"
      using reader_words [OF assms, of ?i] reader_words [OF assms, of "Suc ?i"] True s by (simp_all add: add.commute add.left_commute)
    have F: "?F = filters_of policy (take ?i gs) @ ?g @ filters_of policy (drop (Suc ?i) gs)" by (rule filters_of_take [OF True])
    then have "?a + length ?g \<le> length ?F" by (metis add.assoc le_add1 length_append)
    moreover have "take (length ?g) (drop ?a (filter_block_of policy gs)) = ?g"
      unfolding filter_block_of_def by (subst F) simp
    ultimately show ?thesis using True w by (simp add: fr_KeyMayMatch_def reader_fields [OF assms] i Let_def)
  next
    case False
    then show ?thesis by (simp add: fr_KeyMayMatch_def reader_fields [OF assms] i Let_def)
  qed
qed

section \<open>The keys of every block are covered\<close>

definition fb_covers :: "bytes list list \<Rightarrow> bytes list \<Rightarrow> (nat \<times> bytes list) list \<Rightarrow> bool" where
  "fb_covers gs pend blocks \<longleftrightarrow>
     (\<forall>(off, ks)\<in>set blocks. off div 2048 \<le> length gs \<and> set ks \<subseteq> set ((gs @ [pend]) ! (off div 2048)))"

lemma fb_covers_groups_at:
  assumes "fb_covers gs pend blocks"
  shows "fb_covers (fst (groups_at i gs pend)) (snd (groups_at i gs pend)) blocks"
proof (cases "length gs < i")
  case True
  have "(gs @ [pend] @ replicate (i - length gs - 1) [] @ [[]]) ! j = (gs @ [pend]) ! j" if "j \<le> length gs" for j
    using that by (auto simp: nth_append)
  then show ?thesis using assms True unfolding fb_covers_def groups_at_def by fastforce
qed (use assms in \<open>simp add: groups_at_def\<close>)

lemma fb_covers_AddKey:
  assumes "fb_covers gs pend blocks" shows "fb_covers gs (pend @ [k]) blocks"
proof -
  have "set ((gs @ [pend]) ! j) \<subseteq> set ((gs @ [pend @ [k]]) ! j)" if "j \<le> length gs" for j
    using that by (cases "j = length gs") (auto simp: nth_append)
  then show ?thesis using assms unfolding fb_covers_def by fast
qed

lemma fb_covers_snoc: "off div 2048 = length gs \<Longrightarrow> fb_covers gs pend blocks \<Longrightarrow> set ks \<subseteq> set pend \<Longrightarrow> fb_covers gs pend (blocks @ [(off, ks)])"
  by (auto simp: fb_covers_def)

context filter_policy_contract
begin

lemma fr_no_miss:
  assumes "fb_rep b gs pend" "fb_policy b = policy" "fb_covers gs pend blocks" "length (fst (fb_Finish b)) < 2 ^ 32"
    and "(unat off, ks) \<in> set blocks" "k \<in> set ks"
  shows "fr_KeyMayMatch (FilterBlockReader_init policy (fst (fb_Finish b))) off k"
proof -
  define gs' where "gs' = (if pend = [] then gs else gs @ [pend])"
  let ?i = "unat off div 2048"
  have i: "?i \<le> length gs" "k \<in> set ((gs @ [pend]) ! ?i)" using assms(3,5,6) by (auto simp: fb_covers_def)
  have "KeyMayMatch policy k (group_filter policy (gs' ! ?i))" if "?i < length gs'"
  proof -
    have "gs' ! ?i = (gs @ [pend]) ! ?i" using that i(1) by (auto simp: gs'_def nth_append)
    then show ?thesis using i(2) filter_no_miss [of k "gs' ! ?i"] by (auto simp: group_filter_def)
  qed
  then show ?thesis using assms(4) fr_KeyMayMatch_eq [of policy gs' off k] unfolding fb_Finish_rep [OF assms(1,2)] gs'_def [symmetric] by blast
qed

end

text \<open>Building the filters of a list of blocks, each given by its offset and its keys.\<close>

definition fb_add_blocks :: "(nat \<times> bytes list) list \<Rightarrow> FilterBlockBuilder \<Rightarrow> FilterBlockBuilder" where
  "fb_add_blocks blocks b = fold (\<lambda>(off, ks) b. fold AddKey ks (StartBlock off b)) blocks b"

lemma fold_AddKey_rep:
  "fb_rep b gs pend \<Longrightarrow> fb_rep (fold AddKey ks b) gs (pend @ ks) \<and> fb_policy (fold AddKey ks b) = fb_policy b"
proof (induction ks arbitrary: b pend)
  case (Cons k ks)
  show ?case using Cons.IH [OF fb_rep_AddKey [OF Cons.prems, of k]] by simp
qed simp

lemma fold_AddKey_covers: "fb_covers gs pend blocks \<Longrightarrow> fb_covers gs (pend @ ks) blocks"
  by (induction ks rule: rev_induct) (auto dest: fb_covers_AddKey)

context filter_policy_contract
begin

lemma fb_add_blocks_covers:
  assumes "sorted (map fst blocks)"
  shows "\<exists>gs pend. fb_rep (fb_add_blocks blocks (FilterBlockBuilder_init policy)) gs pend
    \<and> fb_policy (fb_add_blocks blocks (FilterBlockBuilder_init policy)) = policy \<and> fb_covers gs pend blocks
    \<and> (blocks \<noteq> [] \<longrightarrow> length gs = fst (last blocks) div 2048) \<and> (blocks = [] \<longrightarrow> gs = [])"
  using assms
proof (induction blocks rule: rev_induct)
  case Nil
  then show ?case using fb_rep_init by (force simp: fb_add_blocks_def fb_covers_def)
next
  case (snoc x blocks)
  obtain off ks where x: "x = (off, ks)" by (cases x)
  let ?b = "fb_add_blocks blocks (FilterBlockBuilder_init policy)"
  obtain gs pend where r: "fb_rep ?b gs pend" "fb_policy ?b = policy" "fb_covers gs pend blocks"
    and l: "blocks \<noteq> [] \<longrightarrow> length gs = fst (last blocks) div 2048" "blocks = [] \<longrightarrow> gs = []"
    using snoc by (auto simp: sorted_append)
  have "length gs \<le> off div 2048"
    using l snoc.prems x by (cases "blocks = []") (auto simp: sorted_append div_le_mono)
  then have len: "length (fst (groups_at (off div 2048) gs pend)) = off div 2048" by (auto simp: groups_at_def)
  let ?g = "fst (groups_at (off div 2048) gs pend)" and ?p = "snd (groups_at (off div 2048) gs pend)"
  have b: "fb_add_blocks (blocks @ [x]) (FilterBlockBuilder_init policy) = fold AddKey ks (StartBlock off ?b)"
    by (simp add: fb_add_blocks_def x)
  have "fb_rep (fold AddKey ks (StartBlock off ?b)) ?g (?p @ ks)" "fb_policy (fold AddKey ks (StartBlock off ?b)) = policy"
    using fold_AddKey_rep [OF fb_rep_StartBlock [OF r(1,2)]] r(2) by (simp_all add: StartBlock_def)
  moreover have "fb_covers ?g (?p @ ks) (blocks @ [x])"
    unfolding x using len fold_AddKey_covers [OF fb_covers_groups_at [OF r(3)]] by (intro fb_covers_snoc) auto
  ultimately show ?case unfolding b using len x by fastforce
qed

end

section \<open>Properties\<close>

text \<open>
  C25: No false negatives in the filter block.  For every policy without false negatives, the filter block
  built from data blocks at ascending offsets lets every key of a data block pass when it is asked with that
  block's offset.
\<close>

theorem filter_block_no_false_negative:
  assumes "filter_policy_contract policy" "sorted (map fst blocks)"
    "contents = fst (fb_Finish (fb_add_blocks blocks (FilterBlockBuilder_init policy)))" "length contents < 2 ^ 32"
    "(unat off, ks) \<in> set blocks" "key \<in> set ks"
  shows "fr_KeyMayMatch (FilterBlockReader_init policy contents) off key"
proof -
  obtain gs pend where "fb_rep (fb_add_blocks blocks (FilterBlockBuilder_init policy)) gs pend"
    "fb_policy (fb_add_blocks blocks (FilterBlockBuilder_init policy)) = policy" "fb_covers gs pend blocks"
    using filter_policy_contract.fb_add_blocks_covers [OF assms(1,2)] by blast
  from filter_policy_contract.fr_no_miss [OF assms(1) this, of off ks key] show ?thesis using assms(3-6) by blast
qed

lemma example_filter_block:
  "length (fst (fb_Finish (fb_add_blocks [(0, [[107]]), (5000, [[108]])] (FilterBlockBuilder_init (BloomFilterPolicy 10))))) < 2 ^ 32"
proof -
  have c: "length (bloom_CreateFilter 10 [k] dst) = length dst + 9" for k dst
    by (simp add: bloom_CreateFilter_def Let_def)
  show ?thesis
    by (simp add: fb_Finish_def fb_add_blocks_def StartBlock_def generate_until.simps GenerateFilter_def AddKey_def Let_def c
        FilterBlockBuilder_init_def kFilterBase_def kFilterBaseLg_def PutFixed32_def BloomFilterPolicy_def)
qed

theorem filter_block_no_false_negative_witness:
  "fr_KeyMayMatch (FilterBlockReader_init (BloomFilterPolicy 10)
     (fst (fb_Finish (fb_add_blocks [(0, [[107]]), (5000, [[108]])] (FilterBlockBuilder_init (BloomFilterPolicy 10)))))) 5000 [108]"
  by (rule filter_block_no_false_negative [OF bloom.filter_policy_contract_axioms _ refl example_filter_block, of _ "[[108]]"]) simp_all

end
