(* ===== verification/Table_Builder.thy ===== *)
theory Table_Builder
  imports Two_Level Formats Filter_Block
begin

text \<open>
  Building a table file (\<^verbatim>\<open>src/table/table_builder.cc\<close>).  The file is any class \<open>fc\<close> of writable files.
\<close>

section \<open>TableBuilder\<close>

record 'f TableBuilder =
  tb_options :: Options
  tb_file :: 'f
  tb_offset :: u64
  tb_status :: status
  tb_data_block :: BlockBuilder
  tb_index_block :: BlockBuilder
  tb_last_key :: bytes
  tb_num_entries :: nat
  tb_closed :: bool
  tb_filter_block :: "FilterBlockBuilder option"
  tb_pending_index_entry :: bool
  tb_pending_handle :: BlockHandle

definition TableBuilder_init :: "Options \<Rightarrow> 'f \<Rightarrow> 'f TableBuilder" where
  "TableBuilder_init options file =
     \<lparr> tb_options = options, tb_file = file, tb_offset = 0, tb_status = OK,
       tb_data_block = BlockBuilder_init (opt_block_restart_interval options),
       tb_index_block = BlockBuilder_init 1, tb_last_key = [], tb_num_entries = 0, tb_closed = False,
       tb_filter_block = map_option (\<lambda>p. StartBlock 0 (FilterBlockBuilder_init p)) (opt_filter_policy options),
       tb_pending_index_entry = False, tb_pending_handle = BlockHandle_init \<rparr>"

text \<open>
  The block builders point to the builder's options.  Whether the new comparator is the same object is the
  argument \<open>same_comparator\<close>.
\<close>

definition tb_ChangeOptions :: "bool \<Rightarrow> Options \<Rightarrow> 'f TableBuilder \<Rightarrow> status \<times> 'f TableBuilder" where
  "tb_ChangeOptions same_comparator options b =
     (if \<not> same_comparator then (InvalidArgument ''changing comparator while building table'' '''', b)
      else (OK, b\<lparr> tb_options := options,
                   tb_data_block := (tb_data_block b)\<lparr> bb_interval := opt_block_restart_interval options \<rparr>,
                   tb_index_block := (tb_index_block b)\<lparr> bb_interval := 1 \<rparr> \<rparr>))"

definition block_trailer :: "bytes \<Rightarrow> CompressionType \<Rightarrow> bytes" where
  "block_trailer contents type =
     (let crc = crc32c_Value contents;
          crc = crc32c_Extend crc [compression_code type]
      in compression_code type # EncodeFixed32 (Mask crc))"

definition WriteRawBlock ::
  "'f WritableFile \<Rightarrow> bytes \<Rightarrow> CompressionType \<Rightarrow> 'f TableBuilder \<Rightarrow> BlockHandle \<times> 'f TableBuilder" where
  "WriteRawBlock fc contents type b =
     (let handle = \<lparr> bh_offset = tb_offset b, bh_size = of_nat (length contents) \<rparr>;
          (s, f) = wf_Append fc contents (tb_file b);
          b = b\<lparr> tb_status := s, tb_file := f \<rparr>
      in if ok s then
           let (s, f) = wf_Append fc (block_trailer contents type) (tb_file b);
               b = b\<lparr> tb_status := s, tb_file := f \<rparr>
           in (handle, if ok s then b\<lparr> tb_offset := tb_offset b + of_nat (length contents + kBlockTrailerSize) \<rparr> else b)
         else (handle, b))"

definition compress_block :: "compress_lib \<Rightarrow> Options \<Rightarrow> bytes \<Rightarrow> bytes \<times> CompressionType" where
  "compress_block lib options raw =
     (case opt_compression options of
        kNoCompression \<Rightarrow> (raw, kNoCompression)
      | kSnappyCompression \<Rightarrow>
          (case Snappy_Compress lib raw of
             Some compressed \<Rightarrow>
               if length compressed < length raw - length raw div 8 then (compressed, kSnappyCompression)
               else (raw, kNoCompression)
           | None \<Rightarrow> (raw, kNoCompression))
      | kZstdCompression \<Rightarrow>
          (case Zstd_Compress lib (opt_zstd_compression_level options) raw of
             Some compressed \<Rightarrow>
               if length compressed < length raw - length raw div 8 then (compressed, kZstdCompression)
               else (raw, kNoCompression)
           | None \<Rightarrow> (raw, kNoCompression)))"

text \<open>\<open>WriteBlock\<close> returns the handle and the reset block builder.\<close>

definition WriteBlock ::
  "compress_lib \<Rightarrow> 'f WritableFile \<Rightarrow> BlockBuilder \<Rightarrow> 'f TableBuilder \<Rightarrow> BlockHandle \<times> BlockBuilder \<times> 'f TableBuilder" where
  "WriteBlock lib fc block b =
     (let (raw, block) = bb_Finish block;
          (contents, type) = compress_block lib (tb_options b) raw;
          (handle, b) = WriteRawBlock fc contents type b
      in (handle, bb_Reset block, b))"

definition tb_Flush :: "compress_lib \<Rightarrow> 'f WritableFile \<Rightarrow> 'f TableBuilder \<Rightarrow> 'f TableBuilder" where
  "tb_Flush lib fc b =
     (if \<not> ok (tb_status b) then b
      else if bb_empty (tb_data_block b) then b
      else
        let (handle, block, b) = WriteBlock lib fc (tb_data_block b) b;
            b = b\<lparr> tb_pending_handle := handle, tb_data_block := block \<rparr>;
            b = (if ok (tb_status b) then
                   let (s, f) = wf_Flush fc (tb_file b)
                   in b\<lparr> tb_pending_index_entry := True, tb_status := s, tb_file := f \<rparr>
                 else b)
        in b\<lparr> tb_filter_block := map_option (StartBlock (unat (tb_offset b))) (tb_filter_block b) \<rparr>)"

text \<open>\<open>Add\<close> up to the size check.\<close>

definition tb_push :: "bytes \<Rightarrow> bytes \<Rightarrow> 'f TableBuilder \<Rightarrow> 'f TableBuilder" where
  "tb_push key value b =
     (let b = (if tb_pending_index_entry b then
                 let last_key = FindShortestSeparator (opt_comparator (tb_options b)) (tb_last_key b) key
                 in b\<lparr> tb_last_key := last_key,
                       tb_index_block := bb_Add last_key (bh_EncodeTo (tb_pending_handle b) []) (tb_index_block b),
                       tb_pending_index_entry := False \<rparr>
               else b);
          b = b\<lparr> tb_filter_block := map_option (AddKey key) (tb_filter_block b) \<rparr>
      in b\<lparr> tb_last_key := key, tb_num_entries := tb_num_entries b + 1,
            tb_data_block := bb_Add key value (tb_data_block b) \<rparr>)"

definition tb_Add :: "compress_lib \<Rightarrow> 'f WritableFile \<Rightarrow> bytes \<Rightarrow> bytes \<Rightarrow> 'f TableBuilder \<Rightarrow> 'f TableBuilder" where
  "tb_Add lib fc key value b =
     (if \<not> ok (tb_status b) then b
      else
        let b = tb_push key value b
        in if bb_CurrentSizeEstimate (tb_data_block b) \<ge> opt_block_size (tb_options b) then tb_Flush lib fc b else b)"

definition finish_filter :: "'f WritableFile \<Rightarrow> 'f TableBuilder \<Rightarrow> BlockHandle \<times> 'f TableBuilder" where
  "finish_filter fc b =
     (case tb_filter_block b of
        Some fb \<Rightarrow>
          if ok (tb_status b) then
            let (contents, fb) = fb_Finish fb
            in WriteRawBlock fc contents kNoCompression (b\<lparr> tb_filter_block := Some fb \<rparr>)
          else (BlockHandle_init, b)
      | None \<Rightarrow> (BlockHandle_init, b))"

definition finish_metaindex ::
  "compress_lib \<Rightarrow> 'f WritableFile \<Rightarrow> BlockHandle \<Rightarrow> 'f TableBuilder \<Rightarrow> BlockHandle \<times> 'f TableBuilder" where
  "finish_metaindex lib fc filter_block_handle b =
     (if ok (tb_status b) then
        let meta = BlockBuilder_init (opt_block_restart_interval (tb_options b));
            meta = (case (tb_filter_block b, opt_filter_policy (tb_options b)) of
                      (Some fb, Some policy) \<Rightarrow>
                        bb_Add (str ''filter.'' @ str (fp_Name policy)) (bh_EncodeTo filter_block_handle []) meta
                    | _ \<Rightarrow> meta);
            (handle, meta, b) = WriteBlock lib fc meta b
        in (handle, b)
      else (BlockHandle_init, b))"

definition finish_index :: "compress_lib \<Rightarrow> 'f WritableFile \<Rightarrow> 'f TableBuilder \<Rightarrow> BlockHandle \<times> 'f TableBuilder" where
  "finish_index lib fc b =
     (if ok (tb_status b) then
        let b = (if tb_pending_index_entry b then
                   let last_key = FindShortSuccessor (opt_comparator (tb_options b)) (tb_last_key b)
                   in b\<lparr> tb_last_key := last_key,
                         tb_index_block := bb_Add last_key (bh_EncodeTo (tb_pending_handle b) []) (tb_index_block b),
                         tb_pending_index_entry := False \<rparr>
                 else b);
            (handle, block, b) = WriteBlock lib fc (tb_index_block b) b
        in (handle, b\<lparr> tb_index_block := block \<rparr>)
      else (BlockHandle_init, b))"

definition finish_footer :: "'f WritableFile \<Rightarrow> BlockHandle \<Rightarrow> BlockHandle \<Rightarrow> 'f TableBuilder \<Rightarrow> 'f TableBuilder" where
  "finish_footer fc metaindex_handle index_handle b =
     (if ok (tb_status b) then
        let footer = \<lparr> ft_metaindex_handle = metaindex_handle, ft_index_handle = index_handle \<rparr>;
            encoding = ft_EncodeTo footer [];
            (s, f) = wf_Append fc encoding (tb_file b);
            b = b\<lparr> tb_status := s, tb_file := f \<rparr>
        in if ok s then b\<lparr> tb_offset := tb_offset b + of_nat (length encoding) \<rparr> else b
      else b)"

definition tb_Finish :: "compress_lib \<Rightarrow> 'f WritableFile \<Rightarrow> 'f TableBuilder \<Rightarrow> status \<times> 'f TableBuilder" where
  "tb_Finish lib fc b =
     (let b = tb_Flush lib fc b;
          b = b\<lparr> tb_closed := True \<rparr>;
          (filter_handle, b) = finish_filter fc b;
          (metaindex_handle, b) = finish_metaindex lib fc filter_handle b;
          (index_handle, b) = finish_index lib fc b;
          b = finish_footer fc metaindex_handle index_handle b
      in (tb_status b, b))"

definition tb_Abandon :: "'f TableBuilder \<Rightarrow> 'f TableBuilder" where
  "tb_Abandon b = b\<lparr> tb_closed := True \<rparr>"

definition tb_NumEntries :: "'f TableBuilder \<Rightarrow> nat" where
  "tb_NumEntries b = tb_num_entries b"

definition tb_FileSize :: "'f TableBuilder \<Rightarrow> u64" where
  "tb_FileSize b = tb_offset b"

section \<open>What is promised of the compression libraries\<close>

definition decompress_block :: "compress_lib \<Rightarrow> CompressionType \<Rightarrow> bytes \<Rightarrow> bytes option" where
  "decompress_block lib type c =
     (case type of
        kNoCompression \<Rightarrow> Some c
      | kSnappyCompression \<Rightarrow>
          (case Snappy_GetUncompressedLength lib c of
             None \<Rightarrow> None | Some n \<Rightarrow> map_option (take n) (Snappy_Uncompress lib c))
      | kZstdCompression \<Rightarrow>
          (case Zstd_GetUncompressedLength lib c of
             None \<Rightarrow> None | Some n \<Rightarrow> map_option (take n) (Zstd_Uncompress lib c)))"

locale block_codec =
  fixes lib :: compress_lib
  assumes snappy_inverse: "HAVE_SNAPPY lib = Some l \<Longrightarrow>
      snappy_GetUncompressedLength l (snappy_RawCompress l x) = Some (length x)
      \<and> snappy_RawUncompress l (snappy_RawCompress l x) = Some x"
    and zstd_inverse: "HAVE_ZSTD lib = Some z \<Longrightarrow> ZSTD_compress2 z level n x = Some y \<Longrightarrow>
      ZSTD_getFrameContentSize z y = length x \<and> ZSTD_decompressDCtx z (length x) y = Some x"
begin

lemma compress_decompress:
  "raw \<noteq> [] \<Longrightarrow> compress_block lib options raw = (c, type) \<Longrightarrow> decompress_block lib type c = Some raw"
  using snappy_inverse zstd_inverse
  by (auto simp: compress_block_def decompress_block_def Snappy_Compress_def Snappy_GetUncompressedLength_def Snappy_Uncompress_def
      Zstd_Compress_def Zstd_GetUncompressedLength_def Zstd_Uncompress_def Let_def
      split: CompressionType.splits option.splits if_splits)

end

text \<open>The build without compression libraries.\<close>

definition no_lib :: compress_lib where
  "no_lib = \<lparr> HAVE_SNAPPY = None, HAVE_ZSTD = None \<rparr>"

interpretation no_codec: block_codec no_lib
  by unfold_locales (simp_all add: no_lib_def)

section \<open>Blocks in a file\<close>

text \<open>The file contents \<open>W\<close> hold, at offset \<open>off\<close>, a block of \<open>sz\<close> stored bytes that decompresses to \<open>raw\<close>.\<close>

definition block_stored :: "compress_lib \<Rightarrow> bytes \<Rightarrow> nat \<Rightarrow> nat \<Rightarrow> bytes \<Rightarrow> bool" where
  "block_stored lib W off sz raw \<longleftrightarrow>
     (\<exists>pre c type post. W = pre @ c @ block_trailer c type @ post \<and> length pre = off \<and> length c = sz
        \<and> decompress_block lib type c = Some raw)"

lemma block_stored_append: "block_stored lib W off sz raw \<Longrightarrow> block_stored lib (W @ X) off sz raw"
  unfolding block_stored_def by (metis append.assoc)

lemma length_block_trailer [simp]: "length (block_trailer c type) = kBlockTrailerSize"
  by (simp add: block_trailer_def Let_def kBlockTrailerSize_def)

lemma block_stored_bound: "block_stored lib W off sz raw \<Longrightarrow> off + sz + kBlockTrailerSize \<le> length W"
  by (auto simp: block_stored_def)

definition raf_holds :: "RandomAccessFile \<Rightarrow> bytes \<Rightarrow> bool" where
  "raf_holds file W \<longleftrightarrow> (\<forall>off n. off + n \<le> length W \<longrightarrow> raf_Read file off n = (OK, take n (drop off W)))"

lemma raf_holds_posix:
  "fd_events (praf_fd f) = [] \<Longrightarrow> raf_holds (posix_random f) (fd_data (praf_fd f))"
  "raf_holds (posix_mmap name W) W"
  by (simp_all add: raf_holds_def posix_random_def praf_Read_normal posix_mmap_def mmap_Read_def)

text \<open>Framing then reading gives the block back, whatever the checksum option says.\<close>

lemma ReadBlock_stored:
  assumes "raf_holds file W" "block_stored lib W off sz raw" "length W < 2 ^ 64"
  shows "\<exists>bc. ReadBlock lib file options \<lparr> bh_offset = of_nat off, bh_size = of_nat sz \<rparr> = (OK, bc) \<and> bc_data bc = raw"
proof -
  obtain pre c type post where W: "W = pre @ c @ block_trailer c type @ post" "length pre = off" "length c = sz"
    and d: "decompress_block lib type c = Some raw"
    using assms(2) by (auto simp: block_stored_def)
  define h where "h = \<lparr> bh_offset = of_nat off :: u64, bh_size = of_nat sz :: u64 \<rparr>"
  have n: "unat (bh_offset h) = off" "unat (bh_size h) = sz" "(sz + kBlockTrailerSize) mod 2 ^ 64 = sz + kBlockTrailerSize"
    using block_stored_bound [OF assms(2)] assms(3) by (simp_all add: h_def unat_of_nat take_bit_nat_eq_self)
  define R where "R = c @ block_trailer c type"
  have r: "raf_Read file off (sz + kBlockTrailerSize) = (OK, R)"
    using assms(1) block_stored_bound [OF assms(2)] W unfolding raf_holds_def R_def by simp
  have t: "R ! sz = compression_code type" "take sz R = c" "length R = sz + kBlockTrailerSize"
    using W(3) by (simp_all add: R_def block_trailer_def Let_def nth_append kBlockTrailerSize_def)
  have "take (sz + 1) R = c @ [compression_code type]"
    "drop (sz + 1) R = EncodeFixed32 (Mask (crc32c_Value (c @ [compression_code type]))) @ []"
    using W(3) by (simp_all add: R_def block_trailer_def Let_def crc32c_Value_append)
  then have crc: "crc32c_Value (take (sz + 1) R) = Unmask (DecodeFixed32 (drop (sz + 1) R))"
    by (simp only: DecodeFixed32_Encode Unmask_Mask)
  show ?thesis
    unfolding h_def [symmetric] ReadBlock_def Let_def n r prod.case crc t(1,2,3)
    using d by (cases type) (auto simp: decompress_block_def split: option.splits)
qed

section \<open>Block builder facts\<close>

lemma bb_Reset_Finish: "bb_Reset (snd (bb_Finish b)) = BlockBuilder_init (bb_interval b)"
  by (simp add: bb_Reset_def bb_Finish_def BlockBuilder_init_def Let_def)

lemma bb_Finish_nonempty: "fst (bb_Finish b) \<noteq> []"
  by (simp add: bb_Finish_def Let_def PutFixed32_def EncodeFixed32_def)

lemma bb_Add_fields [simp]: "bb_interval (bb_Add k v b) = bb_interval b" "bb_buffer (bb_Add k v b) \<noteq> []"
  using varint_length_bounds(3) [of "of_nat (length v)"]
  by (auto simp: bb_Add_def PutVarint64_def Let_def split: prod.splits if_splits)

lemma bb_AddAll_snoc: "bb_AddAll (es @ [(k, v)]) b = bb_Add k v (bb_AddAll es b)"
  by (simp add: bb_AddAll_def)

lemma bb_empty_init [simp]: "bb_empty (BlockBuilder_init n)"
  by (simp add: bb_empty_def BlockBuilder_init_def)

lemma bb_AddAll_simps [simp]: "bb_AddAll [] b = b" "bb_AddAll [(k, v)] b = bb_Add k v b"
  by (simp_all add: bb_AddAll_def)

lemma bb_AddAll_interval [simp]: "bb_interval (bb_AddAll es b) = bb_interval b"
  by (induction es rule: rev_induct) (auto simp: bb_AddAll_def split: prod.splits)

lemma bb_AddAll_empty: "bb_empty (bb_AddAll es (BlockBuilder_init n)) \<longleftrightarrow> es = []"
proof (cases es rule: rev_cases)
  case (snoc ys y)
  then show ?thesis by (cases y) (simp add: bb_AddAll_snoc bb_empty_def)
qed (simp add: bb_AddAll_def bb_empty_def BlockBuilder_init_def)

section \<open>The invariant\<close>

text \<open>A written block: its offset, its stored size and its entries.\<close>

type_synonym placed = "nat \<times> nat \<times> entries"

abbreviation pl_off :: "placed \<Rightarrow> nat" where "pl_off x \<equiv> fst x"
abbreviation pl_size :: "placed \<Rightarrow> nat" where "pl_size x \<equiv> fst (snd x)"
abbreviation pl_entries :: "placed \<Rightarrow> entries" where "pl_entries x \<equiv> snd (snd x)"

definition pl_handle :: "placed \<Rightarrow> BlockHandle" where
  "pl_handle x = \<lparr> bh_offset = of_nat (pl_off x), bh_size = of_nat (pl_size x) \<rparr>"

text \<open>The index entries of the first blocks: between the block and everything after it.\<close>

definition index_ok :: "comparator \<Rightarrow> (bytes \<Rightarrow> bool) \<Rightarrow> entries \<Rightarrow> placed list \<Rightarrow> entries \<Rightarrow> bool" where
  "index_ok cmp key_ok ix bs rest \<longleftrightarrow> length ix \<le> length bs \<and>
     (\<forall>i<length ix. snd (ix ! i) = bh_EncodeTo (pl_handle (bs ! i)) [] \<and> key_ok (fst (ix ! i))
        \<and> (\<forall>e\<in>set (pl_entries (bs ! i)). Compare cmp (fst e) (fst (ix ! i)) \<le> 0)
        \<and> (\<forall>e\<in>set (concat (map pl_entries (drop (Suc i) bs)) @ rest). Compare cmp (fst (ix ! i)) (fst e) < 0)
        \<and> (concat (map pl_entries (drop (Suc i) bs)) @ rest \<noteq> [] \<longrightarrow>
             fst (ix ! i) = FindShortestSeparator cmp (fst (last (pl_entries (bs ! i))))
               (fst (hd (concat (map pl_entries (drop (Suc i) bs)) @ rest)))))"

definition filter_inv :: "nat \<Rightarrow> Options \<Rightarrow> FilterBlockBuilder option \<Rightarrow> placed list \<Rightarrow> entries \<Rightarrow> bool" where
  "filter_inv len options fbo bs cur \<longleftrightarrow>
     (case opt_filter_policy options of
        None \<Rightarrow> fbo = None
      | Some p \<Rightarrow> \<exists>fb gs pend. fbo = Some fb \<and> fb_policy fb = p \<and> fb_rep fb gs pend
          \<and> fb_covers gs pend (map (\<lambda>x. (pl_off x, map fst (pl_entries x))) bs)
          \<and> length gs = len div 2048 \<and> fst ` set cur \<subseteq> set pend)"

definition tb_inv ::
  "comparator \<Rightarrow> (bytes \<Rightarrow> bool) \<Rightarrow> compress_lib \<Rightarrow> ('f \<Rightarrow> bytes) \<Rightarrow> Options \<Rightarrow> 'f TableBuilder \<Rightarrow> placed list \<Rightarrow> entries \<Rightarrow> entries \<Rightarrow> bool" where
  "tb_inv cmp key_ok lib written options b bs cur ix \<longleftrightarrow>
     tb_options b = options \<and> tb_offset b = of_nat (length (written (tb_file b)))
     \<and> (\<forall>x\<in>set bs. pl_entries x \<noteq> [] \<and> block_stored lib (written (tb_file b)) (pl_off x) (pl_size x)
           (block_of (opt_block_restart_interval options) (pl_entries x)))
     \<and> distinct (map pl_off bs)
     \<and> tb_data_block b = bb_AddAll cur (BlockBuilder_init (opt_block_restart_interval options))
     \<and> tb_index_block b = bb_AddAll ix (BlockBuilder_init 1)
     \<and> index_ok cmp key_ok ix bs cur
     \<and> (if tb_pending_index_entry b then cur = [] \<and> Suc (length ix) = length bs \<and> tb_pending_handle b = pl_handle (last bs)
        else length ix = length bs \<and> (cur = [] \<longrightarrow> bs = []))
     \<and> (concat (map pl_entries bs) @ cur \<noteq> [] \<longrightarrow> tb_last_key b = fst (last (concat (map pl_entries bs) @ cur)))
     \<and> tb_num_entries b = length (concat (map pl_entries bs) @ cur)
     \<and> sorted_entries cmp key_ok (concat (map pl_entries bs) @ cur)
     \<and> filter_inv (length (written (tb_file b))) options (tb_filter_block b) bs cur"

lemma tb_init_inv:
  assumes "written f = []"
  shows "tb_inv cmp key_ok lib written options (TableBuilder_init options f) [] [] []"
proof -
  have "fb_rep (StartBlock 0 (FilterBlockBuilder_init p)) [] []" "fb_policy (StartBlock 0 (FilterBlockBuilder_init p)) = p" for p
    using fb_rep_init [of p] by (simp_all add: StartBlock_def generate_until.simps)
  then show ?thesis using assms
    by (auto simp: tb_inv_def TableBuilder_init_def bb_AddAll_def index_ok_def sorted_entries_def filter_inv_def fb_covers_def split: option.split)
qed

text \<open>What a table build relies on: an order, lossless compression and a file.\<close>

locale table_build = comparator_contract cmp key_ok + block_codec lib + writable_file fc written stored durable clean
  for cmp key_ok lib and fc :: "'f WritableFile" and written stored durable clean
begin

lemma WriteRawBlock_ok:
  assumes "WriteRawBlock fc c ty b = (h, b')" "tb_status b' = OK"
  shows "h = \<lparr> bh_offset = tb_offset b, bh_size = of_nat (length c) \<rparr>"
    "written (tb_file b') = written (tb_file b) @ c @ block_trailer c ty"
    "b' = b\<lparr> tb_status := OK, tb_file := tb_file b', tb_offset := tb_offset b + of_nat (length c + kBlockTrailerSize) \<rparr>"
  using assms append_ok by (fastforce simp: WriteRawBlock_def Let_def split: prod.splits if_splits)+

lemma WriteBlock_ok:
  assumes "WriteBlock lib fc blk b = (h, blk', b')" "tb_status b' = OK"
  obtains c ty where "h = \<lparr> bh_offset = tb_offset b, bh_size = of_nat (length c) \<rparr>"
    "written (tb_file b') = written (tb_file b) @ c @ block_trailer c ty"
    "b' = b\<lparr> tb_status := OK, tb_file := tb_file b', tb_offset := tb_offset b + of_nat (length c + kBlockTrailerSize) \<rparr>"
    "blk' = BlockBuilder_init (bb_interval blk)"
    "block_stored lib (written (tb_file b')) (length (written (tb_file b))) (length c) (fst (bb_Finish blk))"
proof -
  obtain c ty where c: "compress_block lib (tb_options b) (fst (bb_Finish blk)) = (c, ty)" by fastforce
  have w: "WriteRawBlock fc c ty b = (h, b')" "blk' = BlockBuilder_init (bb_interval blk)"
    using assms(1) c bb_Reset_Finish [of blk] by (auto simp: WriteBlock_def split: prod.splits)
  note W = WriteRawBlock_ok [OF w(1) assms(2)]
  have "block_stored lib (written (tb_file b')) (length (written (tb_file b))) (length c) (fst (bb_Finish blk))"
    unfolding block_stored_def W(2) using compress_decompress [OF bb_Finish_nonempty c]
    by (metis append_Nil2)
  then show thesis using that W w(2) by blast
qed

lemma filter_inv_flush:
  assumes f: "filter_inv len options fbo bs cur" and p: "\<And>p. opt_filter_policy options = Some p \<Longrightarrow> filter_policy_contract p"
    and len: "len \<le> len'"
  shows "filter_inv len' options (map_option (StartBlock len') fbo) (bs @ [(len, sz, cur)]) []"
proof (cases "opt_filter_policy options")
  case None
  then show ?thesis using f by (simp add: filter_inv_def)
next
  case (Some policy)
  obtain fb gs pend where fb: "fbo = Some fb" "fb_policy fb = policy" "fb_rep fb gs pend"
    "fb_covers gs pend (map (\<lambda>x. (pl_off x, map fst (pl_entries x))) bs)" "length gs = len div 2048" "fst ` set cur \<subseteq> set pend"
    using f Some by (auto simp: filter_inv_def)
  let ?g = "groups_at (len' div 2048) gs pend"
  have "fb_covers gs pend (map (\<lambda>x. (pl_off x, map fst (pl_entries x))) (bs @ [(len, sz, cur)]))"
    using fb(4-6) fb_covers_snoc [of len gs pend _ "map fst cur"] by simp
  moreover have "fb_rep (StartBlock len' fb) (fst ?g) (snd ?g)" "fb_policy (StartBlock len' fb) = policy"
    using filter_policy_contract.fb_rep_StartBlock [OF p [OF Some] fb(3,2), of len'] fb(2) by (simp_all add: StartBlock_def)
  moreover have "length (fst ?g) = len' div 2048" using fb(5) div_le_mono [OF len, of 2048] by (auto simp: groups_at_def)
  ultimately show ?thesis using Some fb(1) unfolding filter_inv_def
    by (auto intro!: exI [of _ "fst ?g"] exI [of _ "snd ?g"] fb_covers_groups_at)
qed

lemma index_ok_flush: "index_ok cmp key_ok ix bs cur \<Longrightarrow> index_ok cmp key_ok ix (bs @ [(off, sz, cur)]) []"
  unfolding index_ok_def by (auto simp: nth_append)

lemma filter_inv_AddKey: "filter_inv len options fbo bs cur \<Longrightarrow> filter_inv len options (map_option (AddKey k) fbo) bs (cur @ [(k, v)])"
  using fb_rep_AddKey fb_covers_AddKey by (fastforce simp: filter_inv_def split: option.splits)

lemma index_ok_AddKey:
  assumes ix: "index_ok cmp key_ok ix bs cur" and so: "sorted_entries cmp key_ok (concat (map pl_entries bs) @ cur @ [(k, v)])"
    and ne: "\<forall>x\<in>set bs. pl_entries x \<noteq> []" and cur: "length ix < length bs \<or> cur \<noteq> []"
  shows "index_ok cmp key_ok ix bs (cur @ [(k, v)])"
proof -
  have *: "Compare cmp (fst (ix ! i)) k < 0 \<and> concat (map pl_entries (drop (Suc i) bs)) @ cur \<noteq> []" if i: "i < length ix" for i
  proof -
    let ?rest = "concat (map pl_entries (drop (Suc i) bs)) @ cur"
    have ne': "?rest \<noteq> []"
    proof (cases "cur = []")
      case True
      then have "drop (Suc i) bs \<noteq> []" using cur i ix by (auto simp: index_ok_def)
      then obtain x where "x \<in> set (drop (Suc i) bs)" by (cases "drop (Suc i) bs") auto
      then show ?thesis using ne in_set_dropD [of x] by fastforce
    qed simp
    then obtain e where e: "e \<in> set ?rest" by (cases ?rest) auto
    then have "e \<in> set (concat (map pl_entries bs) @ cur)" using in_set_dropD by fastforce
    then have "key_ok (fst e)" "key_ok k" "Compare cmp (fst e) k < 0" using so by (auto simp: sorted_entries_def sorted_wrt_append)
    moreover have "key_ok (fst (ix ! i))" "Compare cmp (fst (ix ! i)) (fst e) < 0" using ix i e by (auto simp: index_ok_def)
    ultimately show ?thesis using cmp_less_trans ne' by blast
  qed
  have "hd (concat (map pl_entries (drop (Suc i) bs)) @ cur @ [(k, v)]) = hd (concat (map pl_entries (drop (Suc i) bs)) @ cur)"
    if "i < length ix" for i using * [OF that] by (metis append.assoc hd_append2)
  moreover have "\<forall>e\<in>set (concat (map pl_entries (drop (Suc i) bs)) @ cur @ [(k, v)]). Compare cmp (fst (ix ! i)) (fst e) < 0"
    if "i < length ix" for i using * [OF that] ix that unfolding index_ok_def by auto
  ultimately show ?thesis using ix * unfolding index_ok_def by (metis (no_types, lifting))
qed

lemma tb_Flush_inv:
  assumes inv: "tb_inv cmp key_ok lib written options b bs cur ix" and ok: "tb_status (tb_Flush lib fc b) = OK"
    and p: "\<And>p. opt_filter_policy options = Some p \<Longrightarrow> filter_policy_contract p"
    and len: "length (written (tb_file (tb_Flush lib fc b))) < 2 ^ 64"
  shows "\<exists>bs' cur'. tb_inv cmp key_ok lib written options (tb_Flush lib fc b) bs' cur' ix
    \<and> concat (map pl_entries bs') @ cur' = concat (map pl_entries bs) @ cur \<and> cur' = []"
proof (cases "tb_status b = OK \<and> cur \<noteq> []")
  case False
  have "tb_Flush lib fc b = b" using False inv by (auto simp: tb_Flush_def tb_inv_def bb_AddAll_empty)
  then have "tb_status b = OK" using ok by simp
  then show ?thesis using False inv \<open>tb_Flush lib fc b = b\<close> by auto
next
  case True
  then have ne: "\<not> bb_empty (tb_data_block b)" and np: "\<not> tb_pending_index_entry b" using inv by (auto simp: tb_inv_def bb_AddAll_empty)
  obtain h blk b1 where w: "WriteBlock lib fc (tb_data_block b) b = (h, blk, b1)" by (metis prod_cases3)
  obtain s f where fl: "wf_Flush fc (tb_file b1) = (s, f)" by fastforce
  have eq: "tb_Flush lib fc b =
      (let b2 = (if tb_status b1 = OK then b1\<lparr> tb_pending_handle := h, tb_data_block := blk, tb_pending_index_entry := True, tb_status := s, tb_file := f \<rparr>
          else b1\<lparr> tb_pending_handle := h, tb_data_block := blk \<rparr>)
       in b2\<lparr> tb_filter_block := map_option (StartBlock (unat (tb_offset b2))) (tb_filter_block b2) \<rparr>)"
    using True ne by (simp add: tb_Flush_def w fl Let_def)
  have ok1: "tb_status b1 = OK" "s = OK" using ok unfolding eq by (auto simp: Let_def split: if_splits)
  obtain c ty where W: "h = \<lparr> bh_offset = tb_offset b, bh_size = of_nat (length c) \<rparr>"
    "written (tb_file b1) = written (tb_file b) @ c @ block_trailer c ty"
    "b1 = b\<lparr> tb_status := OK, tb_file := tb_file b1, tb_offset := tb_offset b + of_nat (length c + kBlockTrailerSize) \<rparr>"
    "blk = BlockBuilder_init (bb_interval (tb_data_block b))"
    "block_stored lib (written (tb_file b1)) (length (written (tb_file b))) (length c) (fst (bb_Finish (tb_data_block b)))"
    by (rule WriteBlock_ok [OF w ok1(1)])
  have wf: "written f = written (tb_file b1)" using flush_ok fl ok1(2) by blast
  define B where "B = tb_Flush lib fc b"
  define x where "x = (length (written (tb_file b)), length c, cur)"
  let ?len = "length (written (tb_file b1))"
  note I = inv [unfolded tb_inv_def]
  have off: "tb_offset b1 = of_nat ?len" using I W(2) by (subst W(3)) (simp add: add.assoc)
  have B: "tb_file B = f" "tb_options B = options" "tb_offset B = of_nat ?len" "tb_pending_index_entry B" "tb_pending_handle B = pl_handle x"
    "tb_data_block B = BlockBuilder_init (opt_block_restart_interval options)" "tb_index_block B = tb_index_block b" "tb_last_key B = tb_last_key b"
    "tb_num_entries B = tb_num_entries b" "tb_filter_block B = map_option (StartBlock ?len) (tb_filter_block b)"
  proof -
    have l: "?len < 2 ^ 64" using len wf ok1 unfolding eq by (simp add: Let_def)
    have u: "unat (of_nat ?len :: u64) = ?len" using l by (simp add: unat_of_nat take_bit_nat_eq_self)
    have b1: "tb_filter_block b1 = tb_filter_block b" "tb_index_block b1 = tb_index_block b" "tb_last_key b1 = tb_last_key b"
      "tb_num_entries b1 = tb_num_entries b" "tb_options b1 = tb_options b" by (subst W(3), simp)+
    show "tb_file B = f" "tb_options B = options" "tb_offset B = of_nat ?len" "tb_pending_index_entry B" "tb_pending_handle B = pl_handle x"
      "tb_data_block B = BlockBuilder_init (opt_block_restart_interval options)" "tb_index_block B = tb_index_block b" "tb_last_key B = tb_last_key b"
      "tb_num_entries B = tb_num_entries b" "tb_filter_block B = map_option (StartBlock ?len) (tb_filter_block b)"
      unfolding B_def eq using ok1 I W(1,4) off b1 u by (simp_all add: Let_def pl_handle_def x_def BlockBuilder_init_def)
  qed
  have "tb_inv cmp key_ok lib written options B (bs @ [x]) [] ix"
    unfolding tb_inv_def B wf
  proof (intro conjI)
    show "\<forall>y\<in>set (bs @ [x]). pl_entries y \<noteq> [] \<and> block_stored lib (written (tb_file b1)) (pl_off y) (pl_size y)
        (block_of (opt_block_restart_interval options) (pl_entries y))"
      using I W(5) True unfolding W(2) by (auto simp: x_def block_of_def dest: block_stored_append)
    have "pl_off y < length (written (tb_file b))" if "y \<in> set bs" for y
      using I that block_stored_bound [of lib "written (tb_file b)" "pl_off y" "pl_size y"] by (force simp: kBlockTrailerSize_def)
    then have "length (written (tb_file b)) \<notin> pl_off ` set bs" by (metis imageE less_irrefl)
    moreover have "distinct (map pl_off bs)" using I by blast
    ultimately show "distinct (map pl_off (bs @ [x]))" by (simp add: x_def)
    show "index_ok cmp key_ok ix (bs @ [x]) []" unfolding x_def using I index_ok_flush by blast
    show "filter_inv ?len options (map_option (StartBlock ?len) (tb_filter_block b)) (bs @ [x]) []"
      unfolding x_def by (rule filter_inv_flush [OF _ p]) (use I W(2) in auto)
  qed (use I np B(4) in \<open>simp_all add: x_def bb_AddAll_def\<close>)
  then show ?thesis unfolding B_def x_def by (intro exI [of _ "bs @ [(length (written (tb_file b)), length c, cur)]"] exI [of _ "[]"]) simp
qed

lemma tb_Flush_mono:
  assumes "tb_status (tb_Flush lib fc b) = OK"
  shows "tb_status b = OK" "length (written (tb_file b)) \<le> length (written (tb_file (tb_Flush lib fc b)))"
proof -
  show "tb_status b = OK" using assms by (auto simp: tb_Flush_def split: if_splits)
  obtain h blk b1 where w: "WriteBlock lib fc (tb_data_block b) b = (h, blk, b1)" by (metis prod_cases3)
  obtain s f where fl: "wf_Flush fc (tb_file b1) = (s, f)" by fastforce
  show "length (written (tb_file b)) \<le> length (written (tb_file (tb_Flush lib fc b)))"
  proof (cases "bb_empty (tb_data_block b)")
    case False
    have st: "tb_status b1 = OK" "s = OK" "tb_file (tb_Flush lib fc b) = f"
      using assms False \<open>tb_status b = OK\<close> by (auto simp: tb_Flush_def w fl Let_def split: if_splits)
    obtain c ty where "written (tb_file b1) = written (tb_file b) @ c @ block_trailer c ty" by (rule WriteBlock_ok [OF w st(1)])
    then show ?thesis using flush_ok fl st by fastforce
  qed (simp add: tb_Flush_def)
qed

lemma tb_Add_push:
  "tb_Add lib fc key v b = (if tb_status b = OK then
     (if bb_CurrentSizeEstimate (tb_data_block (tb_push key v b)) \<ge> opt_block_size (tb_options (tb_push key v b))
      then tb_Flush lib fc (tb_push key v b) else tb_push key v b) else b)"
  by (simp add: tb_Add_def Let_def)

lemma tb_push_fields: "tb_status (tb_push key v b) = tb_status b" "tb_file (tb_push key v b) = tb_file b"
  by (simp_all add: tb_push_def Let_def)

lemma tb_Add_mono:
  assumes "tb_status (tb_Add lib fc k v b) = OK"
  shows "tb_status b = OK" "length (written (tb_file b)) \<le> length (written (tb_file (tb_Add lib fc k v b)))"
  using assms tb_Flush_mono [of "tb_push k v b"] by (auto simp: tb_Add_push tb_push_fields split: if_splits)

lemma sorted_le_last:
  assumes "sorted_entries cmp key_ok es" "e \<in> set es"
  shows "key_ok (fst e)" "Compare cmp (fst e) (fst (last es)) \<le> 0"
proof -
  show ok: "key_ok (fst e)" using assms by (simp add: sorted_entries_def)
  have es: "es = butlast es @ [last es]" using assms(2) by (cases "es = []") auto
  then have "\<forall>x\<in>set (butlast es). Compare cmp (fst x) (fst (last es)) < 0"
    using assms(1) by (metis (no_types, lifting) sorted_entries_def sorted_wrt_append list.set_intros(1))
  moreover have "e \<in> set (butlast es) \<or> e = last es" using assms(2) es by (metis Un_iff empty_iff insert_iff list.set(1,2) set_append)
  ultimately show "Compare cmp (fst e) (fst (last es)) \<le> 0" using cmp_refl ok by force
qed

lemma index_ok_snoc:
  assumes ix: "index_ok cmp key_ok ix bs rest" and len: "Suc (length ix) = length bs" and ok: "key_ok sep"
    and le: "\<forall>e\<in>set (pl_entries (last bs)). Compare cmp (fst e) sep \<le> 0" and less: "\<forall>e\<in>set rest. Compare cmp sep (fst e) < 0"
    and sep: "rest \<noteq> [] \<Longrightarrow> sep = FindShortestSeparator cmp (fst (last (pl_entries (last bs)))) (fst (hd rest))"
  shows "index_ok cmp key_ok (ix @ [(sep, bh_EncodeTo (pl_handle (last bs)) [])]) bs rest"
proof -
  have "bs \<noteq> []" using len by auto
  then have l: "bs ! length ix = last bs" using len by (simp add: last_conv_nth flip: len)
  have "bs ! i = last bs" if "i < length bs" "\<not> i < length ix" for i
    using that len l by (metis not_less_less_Suc_eq)
  moreover have "drop (Suc (length ix)) bs = []" using len by simp
  ultimately show ?thesis using assms unfolding index_ok_def by (auto simp: nth_append less_Suc_eq)
qed

lemma tb_push_inv:
  assumes inv: "tb_inv cmp key_ok lib written options b bs cur ix" and cmp: "opt_comparator options = cmp"
    and so: "sorted_entries cmp key_ok (concat (map pl_entries bs) @ cur @ [(k, v)])"
  shows "\<exists>ix'. tb_inv cmp key_ok lib written options (tb_push k v b) bs (cur @ [(k, v)]) ix'"
proof -
  note I = inv [unfolded tb_inv_def]
  have fil: "filter_inv (length (written (tb_file b))) options (map_option (AddKey k) (tb_filter_block b)) bs (cur @ [(k, v)])"
    using I filter_inv_AddKey by blast
  have so': "sorted_entries cmp key_ok (concat (map pl_entries bs) @ cur @ [(k, v)])" by (rule so)
  show ?thesis
  proof (cases "tb_pending_index_entry b")
    case False
    have "index_ok cmp key_ok ix bs (cur @ [(k, v)])"
    proof (cases "cur = []")
      case True
      then have "bs = []" using I False by auto
      then show ?thesis using I by (simp add: index_ok_def)
    qed (use I so index_ok_AddKey in auto)
    then have "tb_inv cmp key_ok lib written options (tb_push k v b) bs (cur @ [(k, v)]) ix"
      using I False fil so by (simp add: tb_inv_def tb_push_def Let_def bb_AddAll_snoc)
    then show ?thesis ..
  next
    case True
    then have P: "cur = []" "Suc (length ix) = length bs" "tb_pending_handle b = pl_handle (last bs)" using I by auto
    define sep where "sep = FindShortestSeparator cmp (tb_last_key b) k"
    define es where "es = concat (map pl_entries bs)"
    have bs: "bs = take (length ix) bs @ [last bs]" using P(2) by (metis append_butlast_last_id butlast_conv_take diff_Suc_1 length_0_conv nat.distinct(1))
    have last: "pl_entries (last bs) \<noteq> []" "last bs \<in> set bs" using I P(2) by (auto intro!: last_in_set)
    then have ne: "es \<noteq> []" by (auto simp: es_def)
    have lk: "tb_last_key b = fst (last es)" using I P(1) ne by (simp add: es_def)
    have last_es: "last es = last (pl_entries (last bs))" unfolding es_def by (subst bs) (simp add: last(1))
    have le_in: "last es \<in> set es" using ne by (rule last_in_set)
    have ord: "key_ok (tb_last_key b)" "key_ok k" "Compare cmp (tb_last_key b) k < 0"
      using so lk le_in P(1) by (auto simp: sorted_entries_def sorted_wrt_append es_def [symmetric])
    have "sorted_entries cmp key_ok es" using I P(1) by (simp add: es_def)
    from sorted_le_last [OF this] have le: "Compare cmp (fst e) sep \<le> 0" if "e \<in> set es" for e
      using that lk cmp_le_trans [OF _ ord(1) sep_wf [OF ord] _ sep_ge [OF ord], of "fst e"] by (auto simp: sep_def)
    have ix1: "index_ok cmp key_ok ix bs [(k, v)]"
      using index_ok_AddKey [of ix bs "[]" k v] I P so by simp
    have "index_ok cmp key_ok (ix @ [(sep, bh_EncodeTo (pl_handle (last bs)) [])]) bs [(k, v)]"
      using last(2) le sep_wf [OF ord] sep_lt [OF ord] lk last_es
      by (intro index_ok_snoc [OF ix1 P(2)]) (auto simp: sep_def es_def)
    then have "tb_inv cmp key_ok lib written options (tb_push k v b) bs (cur @ [(k, v)]) (ix @ [(sep, bh_EncodeTo (pl_handle (last bs)) [])])"
      using I True fil so P cmp by (simp add: tb_inv_def tb_push_def Let_def bb_AddAll_snoc sep_def)
    then show ?thesis ..
  qed
qed

lemma tb_Add_inv:
  assumes inv: "tb_inv cmp key_ok lib written options b bs cur ix" and cmp: "opt_comparator options = cmp"
    and so: "sorted_entries cmp key_ok (concat (map pl_entries bs) @ cur @ [(k, v)])"
    and p: "\<And>p. opt_filter_policy options = Some p \<Longrightarrow> filter_policy_contract p"
    and ok: "tb_status (tb_Add lib fc k v b) = OK" and len: "length (written (tb_file (tb_Add lib fc k v b))) < 2 ^ 64"
  shows "\<exists>bs' cur' ix'. tb_inv cmp key_ok lib written options (tb_Add lib fc k v b) bs' cur' ix'
    \<and> concat (map pl_entries bs') @ cur' = concat (map pl_entries bs) @ cur @ [(k, v)]"
proof -
  obtain ix' where I: "tb_inv cmp key_ok lib written options (tb_push k v b) bs (cur @ [(k, v)]) ix'"
    using tb_push_inv [OF inv cmp so] by blast
  have st: "tb_status b = OK" by (rule tb_Add_mono [OF ok])
  show ?thesis
  proof (cases "bb_CurrentSizeEstimate (tb_data_block (tb_push k v b)) \<ge> opt_block_size (tb_options (tb_push k v b))")
    case True
    then have eq: "tb_Add lib fc k v b = tb_Flush lib fc (tb_push k v b)" using st by (simp add: tb_Add_push)
    show ?thesis using tb_Flush_inv [OF I] ok len p unfolding eq by force
  next
    case False
    then have eq: "tb_Add lib fc k v b = tb_push k v b" using st by (simp add: tb_Add_push)
    show ?thesis unfolding eq by (rule exI [of _ bs], rule exI [of _ "cur @ [(k, v)]"], rule exI [of _ ix']) (use I in simp)
  qed
qed

end

definition tb_AddAll :: "compress_lib \<Rightarrow> 'f WritableFile \<Rightarrow> entries \<Rightarrow> 'f TableBuilder \<Rightarrow> 'f TableBuilder" where
  "tb_AddAll lib fc es b = fold (\<lambda>(k, v). tb_Add lib fc k v) es b"

lemma tb_AddAll_snoc: "tb_AddAll lib fc (es @ [(k, v)]) b = tb_Add lib fc k v (tb_AddAll lib fc es b)"
  by (simp add: tb_AddAll_def)

context table_build
begin

lemma tb_AddAll_inv:
  assumes "written f = []" "opt_comparator options = cmp" "sorted_entries cmp key_ok es"
    and p: "\<And>p. opt_filter_policy options = Some p \<Longrightarrow> filter_policy_contract p"
    and "tb_status (tb_AddAll lib fc es (TableBuilder_init options f)) = OK"
    and "length (written (tb_file (tb_AddAll lib fc es (TableBuilder_init options f)))) < 2 ^ 64"
  shows "\<exists>bs cur ix. tb_inv cmp key_ok lib written options (tb_AddAll lib fc es (TableBuilder_init options f)) bs cur ix
    \<and> concat (map pl_entries bs) @ cur = es"
  using assms(3,5,6)
proof (induction es rule: rev_induct)
  case Nil
  then show ?case using tb_init_inv [where written = written, OF assms(1), of cmp key_ok lib options] by (force simp: tb_AddAll_def)
next
  case (snoc e es)
  obtain k v where e: "e = (k, v)" by (cases e)
  let ?b = "tb_AddAll lib fc es (TableBuilder_init options f)"
  note ok = snoc.prems(2) [unfolded e tb_AddAll_snoc] and len = snoc.prems(3) [unfolded e tb_AddAll_snoc]
  have "sorted_entries cmp key_ok es" using snoc.prems(1) by (simp add: sorted_entries_def sorted_wrt_append)
  then obtain bs cur ix where I: "tb_inv cmp key_ok lib written options ?b bs cur ix" "concat (map pl_entries bs) @ cur = es"
    using snoc.IH tb_Add_mono [OF ok] len by force
  have "sorted_entries cmp key_ok (concat (map pl_entries bs) @ cur @ [(k, v)])" using snoc.prems(1) I(2) e by (metis append.assoc)
  from tb_Add_inv [OF I(1) assms(2) this p ok len] show ?case using I(2) unfolding e tb_AddAll_snoc by (metis append.assoc)
qed

end

section \<open>Finishing\<close>

text \<open>The contents \<open>W\<close> of a finished table file over the entries \<open>es\<close>.\<close>

definition table_file :: "comparator \<Rightarrow> (bytes \<Rightarrow> bool) \<Rightarrow> compress_lib \<Rightarrow> Options \<Rightarrow> bytes \<Rightarrow> placed list \<Rightarrow> entries \<Rightarrow> bool" where
  "table_file cmp key_ok lib options W bs ix \<longleftrightarrow>
     sorted_entries cmp key_ok (concat (map pl_entries bs))
     \<and> (\<forall>x\<in>set bs. pl_entries x \<noteq> [] \<and> block_stored lib W (pl_off x) (pl_size x)
           (block_of (opt_block_restart_interval options) (pl_entries x)))
     \<and> distinct (map pl_off bs) \<and> length ix = length bs \<and> index_ok cmp key_ok ix bs []
     \<and> (\<exists>io isz mo msz fo fsz W'.
          W = W' @ ft_EncodeTo \<lparr> ft_metaindex_handle = \<lparr> bh_offset = of_nat mo, bh_size = of_nat msz \<rparr>,
                                  ft_index_handle = \<lparr> bh_offset = of_nat io, bh_size = of_nat isz \<rparr> \<rparr> []
          \<and> block_stored lib W io isz (block_of 1 ix)
          \<and> (case opt_filter_policy options of
               None \<Rightarrow> block_stored lib W mo msz (block_of (opt_block_restart_interval options) [])
             | Some p \<Rightarrow>
                 block_stored lib W mo msz (block_of (opt_block_restart_interval options)
                   [(str ''filter.'' @ str (fp_Name p), bh_EncodeTo \<lparr> bh_offset = of_nat fo, bh_size = of_nat fsz \<rparr> [])])
                 \<and> (\<exists>fb gs pend. fb_policy fb = p \<and> fb_rep fb gs pend
                      \<and> fb_covers gs pend (map (\<lambda>x. (pl_off x, map fst (pl_entries x))) bs)
                      \<and> block_stored lib W fo fsz (fst (fb_Finish fb)) \<and> fsz = length (fst (fb_Finish fb)))))"

text \<open>The entries of the metaindex block.\<close>

definition meta_entries :: "Options \<Rightarrow> BlockHandle \<Rightarrow> entries" where
  "meta_entries options h =
     (case opt_filter_policy options of None \<Rightarrow> [] | Some p \<Rightarrow> [(str ''filter.'' @ str (fp_Name p), bh_EncodeTo h [])])"

context table_build
begin

definition "tb_ext b b' \<longleftrightarrow> tb_options b' = tb_options b \<and> tb_index_block b' = tb_index_block b
  \<and> tb_pending_index_entry b' = tb_pending_index_entry b \<and> tb_pending_handle b' = tb_pending_handle b \<and> tb_last_key b' = tb_last_key b
  \<and> (tb_filter_block b' = None \<longleftrightarrow> tb_filter_block b = None) \<and> (\<exists>X. written (tb_file b') = written (tb_file b) @ X)
  \<and> (tb_offset b = of_nat (length (written (tb_file b))) \<longrightarrow> tb_offset b' = of_nat (length (written (tb_file b'))))"

lemma upd_fields:
  "b' = b\<lparr> tb_status := s, tb_file := f, tb_offset := q \<rparr> \<Longrightarrow> tb_options b' = tb_options b \<and> tb_index_block b' = tb_index_block b
    \<and> tb_pending_index_entry b' = tb_pending_index_entry b \<and> tb_pending_handle b' = tb_pending_handle b
    \<and> tb_last_key b' = tb_last_key b \<and> tb_filter_block b' = tb_filter_block b \<and> tb_offset b' = q"
  by simp

lemma finish_filter_ok:
  assumes "finish_filter fc b = (h, b')" "tb_status b' = OK"
  shows "tb_status b = OK" "tb_ext b b'"
    "tb_filter_block b = Some fb \<Longrightarrow> tb_offset b = of_nat (length (written (tb_file b))) \<Longrightarrow> \<exists>sz. h = \<lparr> bh_offset = of_nat (length (written (tb_file b))), bh_size = of_nat sz \<rparr>
       \<and> block_stored lib (written (tb_file b')) (length (written (tb_file b))) sz (fst (fb_Finish fb)) \<and> sz = length (fst (fb_Finish fb))"
proof -
  show st: "tb_status b = OK" using assms(1,2) by (auto simp: finish_filter_def split: option.splits if_splits)
  have w: "WriteRawBlock fc (fst (fb_Finish fb)) kNoCompression (b\<lparr> tb_filter_block := Some (snd (fb_Finish fb)) \<rparr>) = (h, b')"
    if "tb_filter_block b = Some fb" for fb
    using assms(1) that st by (simp add: finish_filter_def split: prod.splits)
  show "tb_ext b b'"
  proof (cases "tb_filter_block b")
    case None
    then show ?thesis using assms by (simp add: finish_filter_def tb_ext_def)
  next
    case (Some fb)
    note W = WriteRawBlock_ok [OF w [OF Some] assms(2)]
    show ?thesis unfolding tb_ext_def using W(2) Some upd_fields [OF W(3)] by simp
  qed
  show "\<exists>sz. h = \<lparr> bh_offset = of_nat (length (written (tb_file b))), bh_size = of_nat sz \<rparr>
       \<and> block_stored lib (written (tb_file b')) (length (written (tb_file b))) sz (fst (fb_Finish fb)) \<and> sz = length (fst (fb_Finish fb))" if "tb_filter_block b = Some fb" and o: "tb_offset b = of_nat (length (written (tb_file b)))"
  proof -
    note W = WriteRawBlock_ok [OF w [OF that(1)] assms(2)]
    show ?thesis using W(1,2) o unfolding block_stored_def
      by (intro exI [of _ "length (fst (fb_Finish fb))"] conjI exI [of _ "written (tb_file b)"] exI [of _ "fst (fb_Finish fb)"]
          exI [of _ kNoCompression] exI [of _ "[]"]) (simp_all add: decompress_block_def)
  qed
qed

lemma finish_metaindex_ok:
  assumes "finish_metaindex lib fc fh b = (h, b')" "tb_status b' = OK"
    and "tb_filter_block b = None \<longleftrightarrow> opt_filter_policy (tb_options b) = None"
  shows "tb_status b = OK" "tb_ext b b'" "tb_offset b = of_nat (length (written (tb_file b))) \<Longrightarrow> \<exists>sz. h = \<lparr> bh_offset = of_nat (length (written (tb_file b))), bh_size = of_nat sz \<rparr>
    \<and> block_stored lib (written (tb_file b')) (length (written (tb_file b))) sz
        (block_of (opt_block_restart_interval (tb_options b)) (meta_entries (tb_options b) fh))"
proof -
  show st: "tb_status b = OK" using assms(1,2) by (auto simp: finish_metaindex_def split: if_splits)
  define meta where "meta = bb_AddAll (meta_entries (tb_options b) fh) (BlockBuilder_init (opt_block_restart_interval (tb_options b)))"
  obtain m where w: "WriteBlock lib fc meta b = (h, m, b')"
    using assms(1,3) st unfolding meta_def
    by (auto simp: finish_metaindex_def meta_entries_def split: prod.splits option.splits)
  obtain c ty where W: "h = \<lparr> bh_offset = tb_offset b, bh_size = of_nat (length c) \<rparr>"
    "written (tb_file b') = written (tb_file b) @ c @ block_trailer c ty"
    "b' = b\<lparr> tb_status := OK, tb_file := tb_file b', tb_offset := tb_offset b + of_nat (length c + kBlockTrailerSize) \<rparr>"
    "block_stored lib (written (tb_file b')) (length (written (tb_file b))) (length c) (fst (bb_Finish meta))"
    by (rule WriteBlock_ok [OF w assms(2)])
  show "tb_ext b b'" unfolding tb_ext_def using W(2) upd_fields [OF W(3)] by simp
  show "\<exists>sz. h = \<lparr> bh_offset = of_nat (length (written (tb_file b))), bh_size = of_nat sz \<rparr>
    \<and> block_stored lib (written (tb_file b')) (length (written (tb_file b))) sz
        (block_of (opt_block_restart_interval (tb_options b)) (meta_entries (tb_options b) fh))" if "tb_offset b = of_nat (length (written (tb_file b)))"
    using W(1,4) that by (auto simp: block_of_def meta_def)
qed

lemma finish_index_ok:
  assumes "finish_index lib fc b = (h, b')" "tb_status b' = OK"
    and ix: "tb_index_block b = bb_AddAll ix (BlockBuilder_init 1)"
  defines "ix' \<equiv> (if tb_pending_index_entry b then ix @ [(FindShortSuccessor (opt_comparator (tb_options b)) (tb_last_key b), bh_EncodeTo (tb_pending_handle b) [])] else ix)"
  shows "tb_status b = OK" "tb_options b' = tb_options b" "\<exists>X. written (tb_file b') = written (tb_file b) @ X"
    "tb_offset b = of_nat (length (written (tb_file b))) \<Longrightarrow> \<exists>sz. h = \<lparr> bh_offset = of_nat (length (written (tb_file b))), bh_size = of_nat sz \<rparr>
    \<and> block_stored lib (written (tb_file b')) (length (written (tb_file b))) sz (block_of 1 ix')"
proof -
  show st: "tb_status b = OK" using assms(1,2) by (auto simp: finish_index_def split: if_splits)
  define b1 where "b1 = (if tb_pending_index_entry b then b\<lparr> tb_last_key := FindShortSuccessor (opt_comparator (tb_options b)) (tb_last_key b),
     tb_index_block := bb_AddAll ix' (BlockBuilder_init 1), tb_pending_index_entry := False \<rparr> else b)"
  obtain b2 m where w: "WriteBlock lib fc (tb_index_block b1) b1 = (h, m, b2)" "b' = b2\<lparr> tb_index_block := m \<rparr>"
    using assms(1) st ix by (auto simp: finish_index_def b1_def ix'_def Let_def bb_AddAll_snoc split: prod.splits if_splits)
  have b1: "tb_offset b1 = tb_offset b" "tb_file b1 = tb_file b" "tb_options b1 = tb_options b" "tb_index_block b1 = bb_AddAll ix' (BlockBuilder_init 1)"
    using ix by (simp_all add: b1_def ix'_def)
  have "tb_status b2 = OK" using assms(2) w(2) by simp
  from WriteBlock_ok [OF w(1) this] obtain c ty where W: "h = \<lparr> bh_offset = tb_offset b1, bh_size = of_nat (length c) \<rparr>"
    "written (tb_file b2) = written (tb_file b1) @ c @ block_trailer c ty"
    "b2 = b1\<lparr> tb_status := OK, tb_file := tb_file b2, tb_offset := tb_offset b1 + of_nat (length c + kBlockTrailerSize) \<rparr>"
    "block_stored lib (written (tb_file b2)) (length (written (tb_file b1))) (length c) (fst (bb_Finish (tb_index_block b1)))"
    by blast
  show "tb_options b' = tb_options b" using upd_fields [OF W(3)] w(2) b1 by simp
  show "\<exists>X. written (tb_file b') = written (tb_file b) @ X" using W(2) w(2) b1 by simp
  show "\<exists>sz. h = \<lparr> bh_offset = of_nat (length (written (tb_file b))), bh_size = of_nat sz \<rparr>
    \<and> block_stored lib (written (tb_file b')) (length (written (tb_file b))) sz (block_of 1 ix')" if "tb_offset b = of_nat (length (written (tb_file b)))"
    using W(1,4) w(2) b1 that by (auto simp: block_of_def)
qed

lemma finish_footer_ok:
  assumes "finish_footer fc mh ih b = b'" "tb_status b' = OK"
  shows "tb_status b = OK" "written (tb_file b') = written (tb_file b) @ ft_EncodeTo \<lparr> ft_metaindex_handle = mh, ft_index_handle = ih \<rparr> []"
  using assms append_ok by (auto simp: finish_footer_def Let_def split: prod.splits if_splits)

lemma table_file_I:
  assumes "sorted_entries cmp key_ok (concat (map pl_entries bs))"
    "\<forall>x\<in>set bs. pl_entries x \<noteq> [] \<and> block_stored lib W1 (pl_off x) (pl_size x) (block_of (opt_block_restart_interval options) (pl_entries x))"
    "distinct (map pl_off bs)" "length ix = length bs" "index_ok cmp key_ok ix bs []"
    "W = W3 @ ft_EncodeTo \<lparr> ft_metaindex_handle = \<lparr> bh_offset = of_nat mo, bh_size = of_nat msz \<rparr>,
       ft_index_handle = \<lparr> bh_offset = of_nat io, bh_size = of_nat isz \<rparr> \<rparr> []"
    "block_stored lib W3 io isz (block_of 1 ix)" "block_stored lib W2 mo msz (block_of (opt_block_restart_interval options) (meta_entries options fh))"
    "\<And>p. opt_filter_policy options = Some p \<Longrightarrow> \<exists>sz. fh = \<lparr> bh_offset = of_nat fo, bh_size = of_nat sz \<rparr> \<and> (\<exists>fb gs pend. fb_policy fb = p \<and> fb_rep fb gs pend
       \<and> fb_covers gs pend (map (\<lambda>x. (pl_off x, map fst (pl_entries x))) bs) \<and> block_stored lib W1 fo sz (fst (fb_Finish fb)) \<and> sz = length (fst (fb_Finish fb)))"
    "W2 = W1 @ X1" "W3 = W2 @ X2"
  shows "table_file cmp key_ok lib options W bs ix"
proof -
  have app: "block_stored lib W off sz raw" if "block_stored lib W1 off sz raw \<or> block_stored lib W2 off sz raw \<or> block_stored lib W3 off sz raw" for off sz raw
    using that assms(6,10,11) by (auto dest: block_stored_append)
  have "\<exists>fsz. case opt_filter_policy options of
               None \<Rightarrow> block_stored lib W mo msz (block_of (opt_block_restart_interval options) [])
             | Some p \<Rightarrow>
                 block_stored lib W mo msz (block_of (opt_block_restart_interval options)
                   [(str ''filter.'' @ str (fp_Name p), bh_EncodeTo \<lparr> bh_offset = of_nat fo, bh_size = of_nat fsz \<rparr> [])])
                 \<and> (\<exists>fb gs pend. fb_policy fb = p \<and> fb_rep fb gs pend
                      \<and> fb_covers gs pend (map (\<lambda>x. (pl_off x, map fst (pl_entries x))) bs)
                      \<and> block_stored lib W fo fsz (fst (fb_Finish fb)) \<and> fsz = length (fst (fb_Finish fb)))"
  proof (cases "opt_filter_policy options")
    case None
    then show ?thesis using app assms(8) by (simp add: meta_entries_def)
  next
    case (Some p)
    then show ?thesis using app assms(8) assms(9) [OF Some] by (fastforce simp: meta_entries_def)
  qed
  then show ?thesis unfolding table_file_def using assms(1,3-7) app assms(2) by blast
qed

lemma finish_index_entries:
  assumes inv: "tb_inv cmp key_ok lib written options b bs [] ix" and cmp: "opt_comparator options = cmp"
  defines "ix' \<equiv> (if tb_pending_index_entry b then ix @ [(FindShortSuccessor cmp (tb_last_key b), bh_EncodeTo (tb_pending_handle b) [])] else ix)"
  shows "length ix' = length bs" "index_ok cmp key_ok ix' bs []"
proof -
  note I = inv [unfolded tb_inv_def]
  define es where "es = concat (map pl_entries bs)"
  have "index_ok cmp key_ok ix' bs []" if P: "tb_pending_index_entry b"
  proof -
    have len: "Suc (length ix) = length bs" "tb_pending_handle b = pl_handle (last bs)" using I P by auto
    have last: "pl_entries (last bs) \<noteq> []" "last bs \<in> set bs" using I len(1) by (auto intro!: last_in_set)
    then have ne: "es \<noteq> []" by (auto simp: es_def)
    have so: "sorted_entries cmp key_ok es" using I by (simp add: es_def)
    have lk: "tb_last_key b = fst (last es)" using I ne by (simp add: es_def)
    note L = sorted_le_last [OF so]
    have ok: "key_ok (tb_last_key b)" using L(1) [OF last_in_set [OF ne]] lk by simp
    have "set (pl_entries (last bs)) \<subseteq> set es" using last(2) by (auto simp: es_def)
    then have "\<forall>e\<in>set (pl_entries (last bs)). Compare cmp (fst e) (FindShortSuccessor cmp (tb_last_key b)) \<le> 0"
      using L cmp_le_trans [OF _ ok succ_wf [OF ok] _ succ_ge [OF ok]] unfolding lk by blast
    then show ?thesis unfolding ix'_def len(2) using P I succ_wf [OF ok] index_ok_snoc [OF _ len(1)] by simp
  qed
  then show "length ix' = length bs" "index_ok cmp key_ok ix' bs []" using I by (auto simp: ix'_def split: if_splits)
qed

lemma tb_Finish_table:
  assumes inv: "tb_inv cmp key_ok lib written options b bs cur ix" and cmp: "opt_comparator options = cmp"
    and p: "\<And>p. opt_filter_policy options = Some p \<Longrightarrow> filter_policy_contract p"
    and fin: "tb_Finish lib fc b = (OK, b')" and len: "length (written (tb_file b')) < 2 ^ 64"
  shows "\<exists>bs' ix'. table_file cmp key_ok lib options (written (tb_file b')) bs' ix' \<and> concat (map pl_entries bs') = concat (map pl_entries bs) @ cur"
proof -
  define b0 where "b0 = tb_Flush lib fc b"
  define b1 where "b1 = b0\<lparr> tb_closed := True \<rparr>"
  obtain fh b2 where f: "finish_filter fc b1 = (fh, b2)" by fastforce
  obtain mh b3 where m: "finish_metaindex lib fc fh b2 = (mh, b3)" by fastforce
  obtain ih b4 where x: "finish_index lib fc b3 = (ih, b4)" by fastforce
  have ft: "finish_footer fc mh ih b4 = b'" "tb_status b' = OK"
    using fin by (auto simp: tb_Finish_def b0_def [symmetric] b1_def [symmetric] f m x Let_def)
  note F4 = finish_footer_ok [OF ft]
  have st3: "tb_status b3 = OK" using F4(1) x by (auto simp: finish_index_def split: if_splits)
  have st2: "tb_status b2 = OK" using st3 m by (auto simp: finish_metaindex_def split: if_splits)
  have st1: "tb_status b1 = OK" using st2 f by (auto simp: finish_filter_def split: option.splits if_splits)
  have "tb_status b0 = OK" using st1 by (simp add: b1_def)
  note F1 = finish_filter_ok [OF f st2]
  have fb: "tb_filter_block b1 = None \<longleftrightarrow> opt_filter_policy (tb_options b1) = None"
    using inv by (auto simp: b1_def b0_def tb_Flush_def tb_inv_def filter_inv_def WriteBlock_def WriteRawBlock_def Let_def split: option.splits prod.splits if_splits)
  then have fb2: "tb_filter_block b2 = None \<longleftrightarrow> opt_filter_policy (tb_options b2) = None" using F1(2) by (simp add: tb_ext_def)
  note F2 = finish_metaindex_ok [OF m st3 fb2]
  obtain X1 X2 where W: "written (tb_file b2) = written (tb_file b1) @ X1" "written (tb_file b3) = written (tb_file b2) @ X2"
    using F1(2) F2(2) by (auto simp: tb_ext_def)
  have "tb_index_block b1 = tb_index_block b"
    by (auto simp: b1_def b0_def tb_Flush_def WriteBlock_def WriteRawBlock_def Let_def split: prod.splits)
  then have ix3: "tb_index_block b3 = bb_AddAll ix (BlockBuilder_init 1)" using F1(2) F2(2) inv by (simp add: tb_ext_def tb_inv_def)
  note F3 = finish_index_ok [OF x F4(1) ix3]
  obtain X3 where W4: "written (tb_file b4) = written (tb_file b3) @ X3" using F3(3) by blast
  then have mono: "length (written (tb_file b0)) \<le> length (written (tb_file b'))" using W F4(2) by (auto simp: b1_def)
  obtain bs' where I0: "tb_inv cmp key_ok lib written options b0 bs' [] ix" "concat (map pl_entries bs') = concat (map pl_entries bs) @ cur"
    using tb_Flush_inv [OF inv _ p] \<open>tb_status b0 = OK\<close> mono len unfolding b0_def [symmetric] by force
  note I = I0(1) [unfolded tb_inv_def]
  have o1: "tb_offset b1 = of_nat (length (written (tb_file b1)))" using I by (simp add: b1_def)
  then have o2: "tb_offset b2 = of_nat (length (written (tb_file b2)))" using F1(2) by (simp add: tb_ext_def)
  then have o3: "tb_offset b3 = of_nat (length (written (tb_file b3)))" using F2(2) by (simp add: tb_ext_def)
  define ix' where "ix' = (if tb_pending_index_entry b3 then ix @ [(FindShortSuccessor (opt_comparator (tb_options b3)) (tb_last_key b3), bh_EncodeTo (tb_pending_handle b3) [])] else ix)"
  have same: "tb_options b3 = options" "tb_pending_index_entry b3 = tb_pending_index_entry b0" "tb_pending_handle b3 = tb_pending_handle b0"
    "tb_last_key b3 = tb_last_key b0" "tb_options b2 = options"
    using F1(2) F2(2) I by (simp_all add: tb_ext_def b1_def)
  have ix': "length ix' = length bs'" "index_ok cmp key_ok ix' bs' []"
    using finish_index_entries [OF I0(1) cmp] unfolding ix'_def same cmp by simp_all
  obtain isz where ih: "ih = \<lparr> bh_offset = of_nat (length (written (tb_file b3))), bh_size = of_nat isz \<rparr>"
    "block_stored lib (written (tb_file b4)) (length (written (tb_file b3))) isz (block_of 1 ix')"
    using F3(4) [OF o3] unfolding ix'_def [symmetric] by blast
  obtain msz where mh: "mh = \<lparr> bh_offset = of_nat (length (written (tb_file b2))), bh_size = of_nat msz \<rparr>"
    "block_stored lib (written (tb_file b3)) (length (written (tb_file b2))) msz (block_of (opt_block_restart_interval options) (meta_entries options fh))"
    using F2(3) [OF o2] unfolding same by blast
  have fil: "\<exists>sz. fh = \<lparr> bh_offset = of_nat (length (written (tb_file b1))), bh_size = of_nat sz \<rparr> \<and> (\<exists>fb gs pend. fb_policy fb = p \<and> fb_rep fb gs pend
       \<and> fb_covers gs pend (map (\<lambda>x. (pl_off x, map fst (pl_entries x))) bs')
       \<and> block_stored lib (written (tb_file b2)) (length (written (tb_file b1))) sz (fst (fb_Finish fb)) \<and> sz = length (fst (fb_Finish fb)))"
    if pol: "opt_filter_policy options = Some p" for p
  proof -
    have fi: "filter_inv (length (written (tb_file b0))) options (tb_filter_block b0) bs' []" using I by blast
    obtain fb gs pend where "tb_filter_block b1 = Some fb" "fb_policy fb = p" "fb_rep fb gs pend"
      "fb_covers gs pend (map (\<lambda>x. (pl_off x, map fst (pl_entries x))) bs')"
      using fi unfolding filter_inv_def pol by (auto simp: b1_def)
    then show ?thesis using F1(3) [OF _ o1] by blast
  qed
  have bl: "\<forall>y\<in>set bs'. pl_entries y \<noteq> [] \<and> block_stored lib (written (tb_file b2)) (pl_off y) (pl_size y) (block_of (opt_block_restart_interval options) (pl_entries y))"
    using I W(1) by (auto simp: b1_def dest: block_stored_append)
  have so: "sorted_entries cmp key_ok (concat (map pl_entries bs'))" and di: "distinct (map pl_off bs')" using I by simp_all
  have "table_file cmp key_ok lib options (written (tb_file b')) bs' ix'"
    by (rule table_file_I [OF so bl di ix' F4(2) [unfolded ih(1) mh(1)] ih(2) mh(2) fil W(2) W4])
  then show ?thesis using I0(2) by blast
qed

end

interpretation posix_table: table_build BytewiseComparator "\<lambda>_. True" no_lib posix_writable pwf_written pwf_stored pwf_durable pwf_clean
  by (intro table_build.intro bytewise.comparator_contract_axioms no_codec.block_codec_axioms pwf.writable_file_axioms)

end
