(* ===== verification/SSTable.thy ===== *)
theory SSTable
  imports Table_Builder
begin

text \<open>
  Reading a table file (\<^verbatim>\<open>src/table/table.cc\<close>).  The block cache is the lookup function \<open>cache\<close>, \<open>None\<close> when
  the options name no cache; what \<open>BlockReader\<close> inserts into it is part of its result.
\<close>

section \<open>Table\<close>

record Table =
  t_options :: Options
  t_file :: RandomAccessFile
  t_cache_id :: u64
  t_filter :: "FilterBlockReader option"
  t_metaindex_handle :: BlockHandle
  t_index_block :: Block

type_synonym block_cache = "(bytes \<Rightarrow> Block option) option"

text \<open>The iterator of a block: an empty iterator or one over its entries.\<close>

definition BlockClass :: "comparator \<Rightarrow> (status + BlockIter) Iterator" where
  "BlockClass cmp = IteratorSum EmptyIterator (BlockIterator cmp)"

definition meta_ReadOptions :: "Options \<Rightarrow> ReadOptions" where
  "meta_ReadOptions options =
     (if opt_paranoid_checks options then ReadOptions_init\<lparr> ro_verify_checksums := True \<rparr> else ReadOptions_init)"

definition ReadFilter :: "compress_lib \<Rightarrow> bytes \<Rightarrow> Table \<Rightarrow> Table" where
  "ReadFilter lib filter_handle_value t =
     (case bh_DecodeFrom filter_handle_value BlockHandle_init of
        (s, rest, filter_handle) \<Rightarrow>
          if \<not> ok s then t
          else
            (case ReadBlock lib (t_file t) (meta_ReadOptions (t_options t)) filter_handle of
               (s, block) \<Rightarrow>
                 if \<not> ok s then t
                 else t\<lparr> t_filter := map_option (\<lambda>p. FilterBlockReader_init p (bc_data block))
                                       (opt_filter_policy (t_options t)) \<rparr>))"

definition ReadMeta :: "compress_lib \<Rightarrow> Footer \<Rightarrow> Table \<Rightarrow> Table" where
  "ReadMeta lib footer t =
     (case opt_filter_policy (t_options t) of
        None \<Rightarrow> t
      | Some policy \<Rightarrow>
          (case ReadBlock lib (t_file t) (meta_ReadOptions (t_options t)) (ft_metaindex_handle footer) of
             (s, contents) \<Rightarrow>
               if \<not> ok s then t
               else
                 let it = BlockClass BytewiseComparator;
                     key = str ''filter.'' @ str (fp_Name policy);
                     iter = it_Seek it key (Block_NewIterator (Block_init (bc_data contents)))
                 in if it_Valid it iter \<and> slice_eq (it_key it iter) key then ReadFilter lib (it_value it iter) t else t))"

text \<open>\<open>cache_id\<close> is what the cache's \<open>NewId\<close> returns.\<close>

definition Table_Open :: "compress_lib \<Rightarrow> u64 \<Rightarrow> Options \<Rightarrow> RandomAccessFile \<Rightarrow> nat \<Rightarrow> status \<times> Table option" where
  "Table_Open lib cache_id options file sz =
     (if sz < kEncodedLength then (Corruption ''file is too short to be an sstable'', None)
      else
        (case raf_Read file (sz - kEncodedLength) kEncodedLength of
           (s, footer_input) \<Rightarrow>
             if \<not> ok s then (s, None)
             else
               (case ft_DecodeFrom footer_input Footer_init of
                  (s, rest, footer) \<Rightarrow>
                    if \<not> ok s then (s, None)
                    else
                      (case ReadBlock lib file (meta_ReadOptions options) (ft_index_handle footer) of
                         (s, contents) \<Rightarrow>
                           if ok s then
                             let t = \<lparr> t_options = options, t_file = file, t_cache_id = cache_id, t_filter = None,
                                       t_metaindex_handle = ft_metaindex_handle footer,
                                       t_index_block = Block_init (bc_data contents) \<rparr>
                             in (s, Some (ReadMeta lib footer t))
                           else (s, None)))))"

definition block_cache_key :: "u64 \<Rightarrow> u64 \<Rightarrow> bytes" where
  "block_cache_key cache_id offset = EncodeFixed64 cache_id @ EncodeFixed64 offset"

text \<open>The iterator over the block, and what is put into the cache.\<close>

definition BlockReader ::
  "compress_lib \<Rightarrow> block_cache \<Rightarrow> Table \<Rightarrow> ReadOptions \<Rightarrow> bytes \<Rightarrow> (status + BlockIter) \<times> (bytes \<times> Block) option" where
  "BlockReader lib cache t options index_value =
     (case bh_DecodeFrom index_value BlockHandle_init of
        (s, rest, handle) \<Rightarrow>
          if \<not> ok s then (Inl (NewErrorIterator s), None)
          else
            (case cache of
               Some lookup \<Rightarrow>
                 let key = block_cache_key (t_cache_id t) (bh_offset handle)
                 in (case lookup key of
                       Some block \<Rightarrow> (Block_NewIterator block, None)
                     | None \<Rightarrow>
                         (case ReadBlock lib (t_file t) options handle of
                            (s, contents) \<Rightarrow>
                              if ok s then
                                let block = Block_init (bc_data contents)
                                in (Block_NewIterator block,
                                    if bc_cachable contents \<and> ro_fill_cache options then Some (key, block) else None)
                              else (Inl (NewErrorIterator s), None)))
             | None \<Rightarrow>
                 (case ReadBlock lib (t_file t) options handle of
                    (s, contents) \<Rightarrow>
                      if ok s then (Block_NewIterator (Block_init (bc_data contents)), None)
                      else (Inl (NewErrorIterator s), None))))"

text \<open>The loops over empty blocks need no more rounds than the index block has bytes.\<close>

definition TableIterator ::
  "compress_lib \<Rightarrow> block_cache \<Rightarrow> Table \<Rightarrow> ReadOptions \<Rightarrow> (status + BlockIter, status + BlockIter) TwoLevelIter Iterator" where
  "TableIterator lib cache t options =
     TwoLevelIterator (Suc (length (bl_data (t_index_block t)))) (BlockClass (opt_comparator (t_options t)))
       (BlockClass (opt_comparator (t_options t))) (\<lambda>h. fst (BlockReader lib cache t options h))"

definition Table_NewIterator :: "Table \<Rightarrow> (status + BlockIter, status + BlockIter) TwoLevelIter" where
  "Table_NewIterator t =
     TwoLevelIter_init (BlockClass (opt_comparator (t_options t))) (Block_NewIterator (t_index_block t))"

text \<open>\<open>InternalGet\<close>: the status, and the entry it hands to \<open>handle_result\<close>.\<close>

definition InternalGet ::
  "compress_lib \<Rightarrow> block_cache \<Rightarrow> Table \<Rightarrow> ReadOptions \<Rightarrow> bytes \<Rightarrow> status \<times> (bytes \<times> bytes) option" where
  "InternalGet lib cache t options k =
     (let it = BlockClass (opt_comparator (t_options t));
          iiter = it_Seek it k (Block_NewIterator (t_index_block t));
          (s, result) =
            (if it_Valid it iiter then
               let handle_value = it_value it iiter;
                   skip = (case t_filter t of
                             None \<Rightarrow> False
                           | Some fr \<Rightarrow>
                               (case bh_DecodeFrom handle_value BlockHandle_init of
                                  (s, rest, handle) \<Rightarrow> ok s \<and> \<not> fr_KeyMayMatch fr (bh_offset handle) k))
               in if skip then (OK, None)
                  else
                    let block_iter = it_Seek it k (fst (BlockReader lib cache t options handle_value))
                    in (it_status it block_iter,
                        if it_Valid it block_iter then Some (it_key it block_iter, it_value it block_iter) else None)
             else (OK, None))
      in (if ok s then it_status it iiter else s, result))"

definition Table_ApproximateOffsetOf :: "Table \<Rightarrow> bytes \<Rightarrow> u64" where
  "Table_ApproximateOffsetOf t key =
     (let it = BlockClass (opt_comparator (t_options t));
          index_iter = it_Seek it key (Block_NewIterator (t_index_block t))
      in if it_Valid it index_iter then
           (case bh_DecodeFrom (it_value it index_iter) BlockHandle_init of
              (s, rest, handle) \<Rightarrow> if ok s then bh_offset handle else bh_offset (t_metaindex_handle t))
         else bh_offset (t_metaindex_handle t))"

section \<open>The blocks of an open table\<close>

definition empty_at :: "status \<Rightarrow> entries \<Rightarrow> nat \<Rightarrow> bool" where
  "empty_at s es n \<longleftrightarrow> s = OK \<and> es = [] \<and> n = 0"

definition block_class_at :: "comparator \<Rightarrow> (bytes \<Rightarrow> bool) \<Rightarrow> status + BlockIter \<Rightarrow> entries \<Rightarrow> nat \<Rightarrow> bool" where
  "block_class_at cmp key_ok = case_sum empty_at (block_at cmp key_ok)"

sublocale comparator_contract \<subseteq> empty: sorted_iterator cmp wf EmptyIterator empty_at
  by unfold_locales (auto simp: empty_at_def EmptyIterator_def sorted_entries_def seek_pos_def)

sublocale comparator_contract \<subseteq> blk: sorted_iterator cmp wf "BlockClass cmp" "block_class_at cmp wf"
  unfolding BlockClass_def block_class_at_def by (rule sum_contract [OF empty.sorted_iterator_axioms block.sorted_iterator_axioms])

sublocale comparator_contract \<subseteq> tab: tl_children cmp wf "BlockClass cmp" "block_class_at cmp wf" "BlockClass cmp" "block_class_at cmp wf" ..

section \<open>Sizes\<close>

lemma length_bb_Finish: "length (fst (bb_Finish b)) = bb_CurrentSizeEstimate b"
proof -
  have "length (fold (\<lambda>r buf. PutFixed32 buf r) rs buf) = length buf + length rs * 4" for rs buf
    by (induction rs arbitrary: buf) (auto simp: PutFixed32_def)
  then show ?thesis by (simp add: bb_Finish_def Let_def bb_CurrentSizeEstimate_def PutFixed32_def)
qed

lemma bb_Add_size:
  "bb_CurrentSizeEstimate b + 3 \<le> bb_CurrentSizeEstimate (bb_Add k v b)
   \<and> bb_CurrentSizeEstimate (bb_Add k v b) \<le> bb_CurrentSizeEstimate b + length k + length v + 34"
proof -
  define sh where "sh = (if bb_counter b < bb_interval b then shared_prefix (bb_last_key b) k else 0)"
  define vl where "vl n = length (EncodeVarint64 (of_nat n))" for n
  have vl: "1 \<le> vl n" "vl n \<le> 10" for n
    using varint_length_bounds(3,4) [of "of_nat n"] by (auto simp: vl_def Suc_le_eq)
  have "bb_CurrentSizeEstimate (bb_Add k v b) = bb_CurrentSizeEstimate b + vl sh + vl (length k - sh) + vl (length v) + (length k - sh) + length v
      + (if bb_counter b < bb_interval b then 0 else 4)"
    by (simp add: bb_Add_def Let_def bb_CurrentSizeEstimate_def PutVarint64_def sh_def vl_def)
  then show ?thesis using vl [of sh] vl [of "length k - sh"] vl [of "length v"]
    by (cases "bb_counter b < bb_interval b") (simp_all only: if_True if_False, linarith+)
qed

definition table_size :: "entries \<Rightarrow> nat" where
  "table_size es = (\<Sum>e\<leftarrow>es. length (fst e) + length (snd e) + 34) + 8"

lemma length_block_of:
  "length (block_of n es) \<le> table_size es" "length es \<le> length (block_of n es)"
proof -
  have "bb_CurrentSizeEstimate (bb_AddAll es (BlockBuilder_init n)) \<le> table_size es
      \<and> length es \<le> bb_CurrentSizeEstimate (bb_AddAll es (BlockBuilder_init n))"
  proof (induction es rule: rev_induct)
    case (snoc e es)
    obtain k v where e: "e = (k, v)" by (cases e)
    show ?case using snoc bb_Add_size [of "bb_AddAll es (BlockBuilder_init n)" k v] by (simp add: e bb_AddAll_snoc table_size_def)
  qed (simp add: table_size_def bb_CurrentSizeEstimate_def BlockBuilder_init_def)
  then show "length (block_of n es) \<le> table_size es" "length es \<le> length (block_of n es)"
    by (simp_all add: block_of_def length_bb_Finish)
qed

text \<open>With restart interval 1 every key is stored in full.\<close>

lemma length_block_of_1: "e \<in> set es \<Longrightarrow> length (fst e) + length (snd e) < length (block_of 1 es)"
proof -
  let ?b = "\<lambda>es. bb_AddAll es (BlockBuilder_init 1)"
  have "(if es = [] then bb_counter (?b es) = 0 \<and> bb_last_key (?b es) = [] else bb_counter (?b es) = 1)
      \<and> (\<forall>e\<in>set es. length (fst e) + length (snd e) \<le> length (bb_buffer (?b es)))"
  proof (induction es rule: rev_induct)
    case (snoc e es)
    obtain k v where e: "e = (k, v)" by (cases e)
    have "\<not> bb_counter (?b es) < bb_interval (?b es) \<or> bb_last_key (?b es) = []"
      using snoc by (auto simp: BlockBuilder_init_def split: if_splits)
    then have sh: "(if bb_counter (?b es) < bb_interval (?b es) then shared_prefix (bb_last_key (?b es)) k else 0) = 0" by auto
    have c: "bb_counter (bb_Add k v (?b es)) = 1"
      using snoc by (auto simp: bb_Add_def Let_def BlockBuilder_init_def split: if_splits)
    have "length (bb_buffer (bb_Add k v (?b es))) \<ge> length (bb_buffer (?b es)) + length k + length v"
      using sh by (auto simp: bb_Add_def Let_def PutVarint64_def split: if_splits)
    then show ?case using snoc c unfolding e bb_AddAll_snoc by (auto split: if_splits)
  qed (simp add: BlockBuilder_init_def)
  then show "e \<in> set es \<Longrightarrow> ?thesis" by (auto simp: block_of_def length_bb_Finish bb_CurrentSizeEstimate_def less_Suc_eq_le intro!: le_imp_less_Suc trans_le_add1)
qed

section \<open>Opening a finished table\<close>

text \<open>An open table whose index is \<open>ix\<close> and whose blocks are \<open>bs\<close>.\<close>

definition table_open ::
  "comparator \<Rightarrow> (bytes \<Rightarrow> bool) \<Rightarrow> compress_lib \<Rightarrow> Options \<Rightarrow> bytes \<Rightarrow> placed list \<Rightarrow> entries \<Rightarrow> Table \<Rightarrow> bool" where
  "table_open cmp key_ok lib options W bs ix t \<longleftrightarrow>
     t_options t = options \<and> raf_holds (t_file t) W \<and> t_index_block t = Block_init (block_of 1 ix)
     \<and> (case opt_filter_policy options of
          None \<Rightarrow> t_filter t = None
        | Some p \<Rightarrow> \<exists>fb gs pend. t_filter t = Some (FilterBlockReader_init p (fst (fb_Finish fb))) \<and> fb_policy fb = p
            \<and> fb_rep fb gs pend \<and> fb_covers gs pend (map (\<lambda>x. (pl_off x, map fst (pl_entries x))) bs)
            \<and> length (fst (fb_Finish fb)) \<le> length W)
     \<and> table_file cmp key_ok lib options W bs ix"

lemma meta_seek:
  assumes "1 \<le> interval" "length key + length v < 2 ^ 31"
  defines "iter \<equiv> it_Seek (BlockClass BytewiseComparator) key (Block_NewIterator (Block_init (block_of interval [(key, v)])))"
  shows "it_Valid (BlockClass BytewiseComparator) iter" "it_key (BlockClass BytewiseComparator) iter = key"
    "it_value (BlockClass BytewiseComparator) iter = v"
proof -
  have "length (block_of interval [(key, v)]) < 2 ^ 32"
    using length_block_of(1) [of interval "[(key, v)]"] assms(2) by (simp add: table_size_def)
  moreover have so: "sorted_entries BytewiseComparator (\<lambda>_. True) [(key, v)]" by (simp add: sorted_entries_def)
  ultimately obtain it where it: "Block_NewIterator (Block_init (block_of interval [(key, v)])) = Inr it"
    "block_at BytewiseComparator (\<lambda>_. True) it [(key, v)] (Suc 0)"
    using block_roundtrip_at [OF assms(1) _ block_of_def, of "[(key, v)]" BytewiseComparator "\<lambda>_. True"] assms(2) by auto
  have "block_class_at BytewiseComparator (\<lambda>_. True) iter [(key, v)] (seek_pos BytewiseComparator key [(key, v)])"
    unfolding iter_def it(1) by (rule bytewise.blk.iat_Seek [where n = "Suc 0"]) (simp_all add: block_class_at_def it(2))
  moreover have "seek_pos BytewiseComparator key [(key, v)] = 0" by (simp add: seek_pos_def slice_compare_less bytes_less_irrefl)
  ultimately have at: "block_class_at BytewiseComparator (\<lambda>_. True) iter [(key, v)] 0" by simp
  show "it_Valid (BlockClass BytewiseComparator) iter" "it_key (BlockClass BytewiseComparator) iter = key"
    "it_value (BlockClass BytewiseComparator) iter = v"
    using bytewise.blk.iat_Valid [OF at] bytewise.blk.iat_key [OF at] bytewise.blk.iat_value [OF at] by simp_all
qed

lemma Table_Open_file:
  assumes f: "table_file cmp key_ok lib options W bs ix" and raf: "raf_holds file W" and len: "length W < 2 ^ 64" and iv: "1 \<le> opt_block_restart_interval options"
    and name: "\<And>p. opt_filter_policy options = Some p \<Longrightarrow> length (fp_Name p) < 2 ^ 30"
  shows "\<exists>t. Table_Open lib cache_id options file (length W) = (OK, Some t) \<and> table_open cmp key_ok lib options W bs ix t \<and> t_cache_id t = cache_id"
proof -
  obtain io isz mo msz fo fsz W' where
    W: "W = W' @ ft_EncodeTo \<lparr> ft_metaindex_handle = \<lparr> bh_offset = of_nat mo, bh_size = of_nat msz \<rparr>,
                                  ft_index_handle = \<lparr> bh_offset = of_nat io, bh_size = of_nat isz \<rparr> \<rparr> []"
    and ix: "block_stored lib W io isz (block_of 1 ix)"
    and meta: "case opt_filter_policy options of
               None \<Rightarrow> block_stored lib W mo msz (block_of (opt_block_restart_interval options) [])
             | Some p \<Rightarrow>
                 block_stored lib W mo msz (block_of (opt_block_restart_interval options)
                   [(str ''filter.'' @ str (fp_Name p), bh_EncodeTo \<lparr> bh_offset = of_nat fo, bh_size = of_nat fsz \<rparr> [])])
                 \<and> (\<exists>fb gs pend. fb_policy fb = p \<and> fb_rep fb gs pend
                      \<and> fb_covers gs pend (map (\<lambda>x. (pl_off x, map fst (pl_entries x))) bs)
                      \<and> block_stored lib W fo fsz (fst (fb_Finish fb)) \<and> fsz = length (fst (fb_Finish fb)))"
    using f unfolding table_file_def by blast
  define footer where "footer = \<lparr> ft_metaindex_handle = \<lparr> bh_offset = of_nat mo :: u64, bh_size = of_nat msz :: u64 \<rparr>,
                                  ft_index_handle = \<lparr> bh_offset = of_nat io :: u64, bh_size = of_nat isz :: u64 \<rparr> \<rparr>"
  have lenW: "length W = length W' + kEncodedLength" unfolding W using ft_DecodeFrom_EncodeTo(2) by simp
  have rd: "raf_Read file (length W - kEncodedLength) kEncodedLength = (OK, ft_EncodeTo footer [])"
    using raf ft_DecodeFrom_EncodeTo(2) lenW unfolding raf_holds_def footer_def by (subst W) (simp add: W)
  have dec: "ft_DecodeFrom (ft_EncodeTo footer []) Footer_init = (OK, [], footer)"
    using ft_DecodeFrom_EncodeTo(1) [of footer "[]" Footer_init] by (simp add: footer_def)
  obtain bc where bc: "ReadBlock lib file (meta_ReadOptions options) (ft_index_handle footer) = (OK, bc)" "bc_data bc = block_of 1 ix"
    using ReadBlock_stored [OF raf ix len] by (auto simp: footer_def)
  define t where "t = \<lparr> t_options = options, t_file = file, t_cache_id = cache_id, t_filter = None,
     t_metaindex_handle = ft_metaindex_handle footer, t_index_block = Block_init (block_of 1 ix) \<rparr>"
  have "Table_Open lib cache_id options file (length W) = (OK, Some (ReadMeta lib footer t))"
    unfolding Table_Open_def rd using lenW by (simp add: dec bc t_def)
  moreover have "table_open cmp key_ok lib options W bs ix (ReadMeta lib footer t) \<and> t_cache_id (ReadMeta lib footer t) = cache_id"
  proof (cases "opt_filter_policy options")
    case None
    then show ?thesis using raf f by (simp add: table_open_def ReadMeta_def t_def)
  next
    case (Some p)
    let ?key = "str ''filter.'' @ str (fp_Name p)" and ?v = "bh_EncodeTo \<lparr> bh_offset = of_nat fo, bh_size = of_nat fsz \<rparr> []"
    obtain fb gs pend where ms: "block_stored lib W mo msz (block_of (opt_block_restart_interval options) [(?key, ?v)])"
      and fb: "fb_policy fb = p" "fb_rep fb gs pend" "fb_covers gs pend (map (\<lambda>x. (pl_off x, map fst (pl_entries x))) bs)"
      "block_stored lib W fo fsz (fst (fb_Finish fb))" "fsz = length (fst (fb_Finish fb))"
      using meta Some by auto
    obtain mc where mc: "ReadBlock lib file (meta_ReadOptions options) (ft_metaindex_handle footer) = (OK, mc)"
      "bc_data mc = block_of (opt_block_restart_interval options) [(?key, ?v)]"
      using ReadBlock_stored [OF raf ms len] by (auto simp: footer_def)
    obtain fcont where fcont: "ReadBlock lib file (meta_ReadOptions options) \<lparr> bh_offset = of_nat fo, bh_size = of_nat fsz \<rparr> = (OK, fcont)"
      "bc_data fcont = fst (fb_Finish fb)"
      using ReadBlock_stored [OF raf fb(4) len] by blast
    have "length ?key + length ?v < 2 ^ 31"
      using name [OF Some] length_bh_EncodeTo [of "\<lparr> bh_offset = of_nat fo, bh_size = of_nat fsz \<rparr>"] by (simp add: str_def kMaxEncodedLength_def)
    note M = meta_seek [OF iv this]
    have "bh_DecodeFrom ?v BlockHandle_init = (OK, [], \<lparr> bh_offset = of_nat fo, bh_size = of_nat fsz \<rparr>)"
      using bh_DecodeFrom_EncodeTo [of "\<lparr> bh_offset = of_nat fo, bh_size = of_nat fsz \<rparr>" "[]" BlockHandle_init] by simp
    then have "ReadMeta lib footer t = t\<lparr> t_filter := Some (FilterBlockReader_init p (fst (fb_Finish fb))) \<rparr>"
      using M fcont Some by (simp add: ReadMeta_def t_def mc ReadFilter_def Let_def slice_eq_iff)
    moreover have "length (fst (fb_Finish fb)) \<le> length W" using block_stored_bound [OF fb(4)] fb(5) by simp
    ultimately show ?thesis using raf f Some fb(1-3) by (auto simp: table_open_def t_def)
  qed
  ultimately show ?thesis by blast
qed

section \<open>The blocks behind the index\<close>

text \<open>A cache that holds, for the blocks of the table, only what is in the file.\<close>

definition cache_ok :: "Options \<Rightarrow> placed list \<Rightarrow> u64 \<Rightarrow> block_cache \<Rightarrow> bool" where
  "cache_ok options bs cache_id cache \<longleftrightarrow>
     (\<forall>lookup b. \<forall>x\<in>set bs. cache = Some lookup \<longrightarrow> lookup (block_cache_key cache_id (of_nat (pl_off x))) = Some b
        \<longrightarrow> b = Block_init (block_of (opt_block_restart_interval options) (pl_entries x)))"

definition sizes_ok :: "placed list \<Rightarrow> bool" where
  "sizes_ok bs \<longleftrightarrow> (\<forall>x\<in>set bs. table_size (pl_entries x) < 2 ^ 32)"

lemma entry_size: "e \<in> set es \<Longrightarrow> length (fst e) + length (snd e) < table_size es"
  by (induction es) (auto simp: table_size_def)

lemma pl_handle_off: "bh_offset (pl_handle x) = of_nat (pl_off x)"
  by (simp add: pl_handle_def)

lemma BlockReader_at:
  assumes t: "table_open cmp key_ok lib options W bs ix t" and c: "cache_ok options bs (t_cache_id t) cache" and x: "x \<in> set bs"
    and len: "length W < 2 ^ 64" "sizes_ok bs" and iv: "1 \<le> opt_block_restart_interval options"
  shows "\<exists>it. fst (BlockReader lib cache t ro (bh_EncodeTo (pl_handle x) [])) = Inr it \<and> block_at cmp key_ok it (pl_entries x) (length (pl_entries x))"
proof -
  have f: "table_file cmp key_ok lib options W bs ix" and raf: "raf_holds (t_file t) W" using t by (auto simp: table_open_def)
  let ?raw = "block_of (opt_block_restart_interval options) (pl_entries x)"
  have st: "block_stored lib W (pl_off x) (pl_size x) ?raw" using f x by (auto simp: table_file_def)
  obtain bc where rb: "ReadBlock lib (t_file t) ro (pl_handle x) = (OK, bc)" "bc_data bc = ?raw"
    using ReadBlock_stored [OF raf st len(1)] by (auto simp: pl_handle_def)
  have "sorted_entries cmp key_ok (pl_entries x)"
  proof -
    obtain ys zs where "bs = ys @ x # zs" using x by (meson split_list)
    then show ?thesis using f by (auto simp: table_file_def sorted_entries_def sorted_wrt_append)
  qed
  then obtain it where it: "Block_NewIterator (Block_init ?raw) = Inr it" "block_at cmp key_ok it (pl_entries x) (length (pl_entries x))"
    using block_roundtrip_at [OF iv _ block_of_def, of "pl_entries x" cmp key_ok] length_block_of(1) [of "opt_block_restart_interval options" "pl_entries x"]
      entry_size [of _ "pl_entries x"] len(2) x by (fastforce simp: sizes_ok_def)
  have dec: "bh_DecodeFrom (bh_EncodeTo (pl_handle x) []) BlockHandle_init = (OK, [], pl_handle x)"
    using bh_DecodeFrom_EncodeTo [of "pl_handle x" "[]" BlockHandle_init] by simp
  have "fst (BlockReader lib cache t ro (bh_EncodeTo (pl_handle x) [])) = Block_NewIterator (Block_init ?raw)"
  proof (cases cache)
    case None
    then show ?thesis by (simp add: BlockReader_def dec rb)
  next
    case (Some lookup)
    then show ?thesis using c x unfolding cache_ok_def
      by (cases "lookup (block_cache_key (t_cache_id t) (of_nat (pl_off x)))") (auto simp: BlockReader_def dec rb pl_handle_off Let_def)
  qed
  then show ?thesis using it by simp
qed

lemma table_off:
  assumes f: "table_file cmp key_ok lib options W bs ix" and len: "length W < 2 ^ 64" and x: "x \<in> set bs"
  shows "unat (of_nat (pl_off x) :: u64) = pl_off x" "y \<in> set bs \<Longrightarrow> (of_nat (pl_off y) :: u64) = of_nat (pl_off x) \<Longrightarrow> y = x"
proof -
  have u: "unat (of_nat (pl_off y) :: u64) = pl_off y" if "y \<in> set bs" for y
  proof -
    have "block_stored lib W (pl_off y) (pl_size y) (block_of (opt_block_restart_interval options) (pl_entries y))"
      using f that by (auto simp: table_file_def)
    from block_stored_bound [OF this] show ?thesis using len by (simp add: unat_of_nat take_bit_nat_eq_self)
  qed
  then show "unat (of_nat (pl_off x) :: u64) = pl_off x" using x .
  show "y = x" if y: "y \<in> set bs" "(of_nat (pl_off y) :: u64) = of_nat (pl_off x)"
  proof -
    have "pl_off y = pl_off x" using u [OF x] u [OF y(1)] y(2) by simp
    moreover have "inj_on pl_off (set bs)" using f by (simp add: table_file_def distinct_map)
    ultimately show ?thesis using y(1) x by (metis inj_onD)
  qed
qed

lemma BlockReader_cache_ok:
  assumes t: "table_open cmp key_ok lib options W bs ix t" and c: "cache_ok options bs (t_cache_id t) (Some lookup)" and x: "x \<in> set bs"
    and len: "length W < 2 ^ 64" and put: "snd (BlockReader lib (Some lookup) t ro (bh_EncodeTo (pl_handle x) [])) = Some (key, b)"
  shows "cache_ok options bs (t_cache_id t) (Some (lookup(key \<mapsto> b)))"
proof -
  have f: "table_file cmp key_ok lib options W bs ix" and raf: "raf_holds (t_file t) W" using t by (auto simp: table_open_def)
  let ?raw = "\<lambda>x. block_of (opt_block_restart_interval options) (pl_entries x)"
  have st: "block_stored lib W (pl_off x) (pl_size x) (?raw x)" if "x \<in> set bs" for x using f that by (auto simp: table_file_def)
  obtain bc where rb: "ReadBlock lib (t_file t) ro (pl_handle x) = (OK, bc)" "bc_data bc = ?raw x"
    using ReadBlock_stored [OF raf st [OF x] len] by (auto simp: pl_handle_def)
  have dec: "bh_DecodeFrom (bh_EncodeTo (pl_handle x) []) BlockHandle_init = (OK, [], pl_handle x)"
    using bh_DecodeFrom_EncodeTo [of "pl_handle x" "[]" BlockHandle_init] by simp
  have kb: "key = block_cache_key (t_cache_id t) (of_nat (pl_off x))" "b = Block_init (?raw x)"
    using put by (auto simp: BlockReader_def dec rb pl_handle_off Let_def split: option.splits if_splits)
  have "pl_entries y = pl_entries x" if y: "y \<in> set bs" "key = block_cache_key (t_cache_id t) (of_nat (pl_off y))" for y
  proof -
    have "DecodeFixed64 (EncodeFixed64 (of_nat (pl_off y))) = DecodeFixed64 (EncodeFixed64 (of_nat (pl_off x)))" using y(2) kb(1) by (simp add: block_cache_key_def)
    then show ?thesis using table_off(2) [OF f len x y(1)] by simp
  qed
  then show ?thesis using c kb(2) unfolding cache_ok_def by (auto split: if_splits)
qed

lemma bh_EncodeTo_inj: "bh_EncodeTo h [] = bh_EncodeTo h' [] \<longleftrightarrow> h = (h' :: BlockHandle)"
proof
  assume e: "bh_EncodeTo h [] = bh_EncodeTo h' []"
  have "bh_DecodeFrom (bh_EncodeTo h [] @ []) BlockHandle_init = bh_DecodeFrom (bh_EncodeTo h' [] @ []) BlockHandle_init" unfolding e ..
  then show "h = h'" unfolding bh_DecodeFrom_EncodeTo by simp
qed simp

text \<open>The entries behind an index value.\<close>

definition block_entries :: "placed list \<Rightarrow> bytes \<Rightarrow> entries" where
  "block_entries bs h = (case find (\<lambda>x. bh_EncodeTo (pl_handle x) [] = h) bs of Some x \<Rightarrow> pl_entries x | None \<Rightarrow> [])"

lemma find_unique: "x \<in> set xs \<Longrightarrow> P x \<Longrightarrow> \<forall>y\<in>set xs. P y \<longrightarrow> y = x \<Longrightarrow> find P xs = Some x"
proof (induction xs)
  case (Cons a xs)
  show ?case
  proof (cases "P a")
    case True
    then have "a = x" using Cons.prems(3) by (meson list.set_intros(1))
    then show ?thesis using True by simp
  next
    case False
    then have x: "x \<in> set xs" using Cons.prems(1,2) by auto
    have "\<forall>y\<in>set xs. P y \<longrightarrow> y = x" using Cons.prems(3) by (meson list.set_intros(2))
    from Cons.IH [OF x Cons.prems(2) this] show ?thesis using False by simp
  qed
qed simp

lemma block_entries_eq:
  assumes f: "table_file cmp key_ok lib options W bs ix" and len: "length W < 2 ^ 64" and x: "x \<in> set bs"
  shows "block_entries bs (bh_EncodeTo (pl_handle x) []) = pl_entries x"
proof -
  have "y = x" if y: "y \<in> set bs" "pl_handle y = pl_handle x" for y
    using table_off(2) [OF f len x y(1)] y(2) by (metis pl_handle_off)
  then have "find (\<lambda>y. bh_EncodeTo (pl_handle y) [] = bh_EncodeTo (pl_handle x) []) bs = Some x"
    unfolding bh_EncodeTo_inj using x by (intro find_unique) auto
  then show ?thesis by (simp add: block_entries_def)
qed

lemma table_partition:
  assumes "comparator_contract cmp key_ok" and f: "table_file cmp key_ok lib options W bs ix" and len: "length W < 2 ^ 64"
  shows "partition_ok cmp key_ok ix (block_entries bs)" "concat (map (block_entries bs \<circ> snd) ix) = concat (map pl_entries bs)"
    "i < length ix \<Longrightarrow> block_entries bs (snd (ix ! i)) = pl_entries (bs ! i)"
proof -
  have l: "length ix = length bs" and ix: "index_ok cmp key_ok ix bs []" using f by (auto simp: table_file_def)
  have D: "block_entries bs (snd (ix ! i)) = pl_entries (bs ! i)" if "i < length ix" for i
    using block_entries_eq [OF f len, of "bs ! i"] ix l that by (simp add: index_ok_def)
  then show "i < length ix \<Longrightarrow> block_entries bs (snd (ix ! i)) = pl_entries (bs ! i)" .
  have "map (block_entries bs \<circ> snd) ix = map pl_entries bs" by (rule nth_equalityI) (simp_all add: l D)
  then show c: "concat (map (block_entries bs \<circ> snd) ix) = concat (map pl_entries bs)" by simp
  have later: "e \<in> set (concat (map pl_entries (drop (Suc j) bs)))" if "j < i" "i < length bs" "e \<in> set (pl_entries (bs ! i))" for i j e
  proof -
    have "bs ! i \<in> set (drop (Suc j) bs)" using that(1,2) by (auto simp: in_set_conv_nth intro!: exI [of _ "i - Suc j"])
    then show ?thesis using that(3) by auto
  qed
  have less: "Compare cmp (fst (ix ! j)) (fst e) < 0" if "j < i" "i < length ix" "e \<in> set (pl_entries (bs ! i))" for i j e
  proof -
    have "\<forall>e\<in>set (concat (map pl_entries (drop (Suc j) bs))). Compare cmp (fst (ix ! j)) (fst e) < 0"
      using ix that(1,2) unfolding index_ok_def append_Nil2 by (meson less_trans)
    from bspec [OF this later [OF that(1) _ that(3)]] that(2) l show ?thesis by simp
  qed
  have "Compare cmp (fst (ix ! j)) (fst (ix ! i)) < 0" if ij: "j < i" "i < length ix" for i j
  proof -
    obtain e where e: "e \<in> set (pl_entries (bs ! i))" using f ij l by (fastforce simp: table_file_def neq_Nil_conv dest: nth_mem)
    have "key_ok (fst e)" using f e ij l by (force simp: table_file_def sorted_entries_def)
    moreover have "key_ok (fst (ix ! i))" "key_ok (fst (ix ! j))" "Compare cmp (fst e) (fst (ix ! i)) \<le> 0"
      using ix ij e by (auto simp: index_ok_def)
    ultimately show ?thesis using comparator_contract.cmp_less_le_trans [OF assms(1)] less [OF ij e] by blast
  qed
  moreover have "key_ok (fst (ix ! i))" if "i < length ix" for i using ix that by (simp add: index_ok_def)
  ultimately have "sorted_entries cmp key_ok ix"
    unfolding sorted_entries_def sorted_wrt_iff_nth_less all_set_conv_all_nth by simp
  then show "partition_ok cmp key_ok ix (block_entries bs)"
    unfolding partition_ok_def c
  proof (intro conjI allI impI ballI)
    show "sorted_entries cmp key_ok (concat (map pl_entries bs))" using f unfolding table_file_def by blast
    show "Compare cmp (fst e) (fst (ix ! i)) \<le> 0" if "i < length ix" "e \<in> set (block_entries bs (snd (ix ! i)))" for i e
      using ix that unfolding D [OF that(1)] index_ok_def by blast
    show "Compare cmp (fst (ix ! j)) (fst e) < 0" if "i < length ix" "j < i" "e \<in> set (block_entries bs (snd (ix ! i)))" for i j e
      using less [OF that(2,1)] that(3) unfolding D [OF that(1)] by blast
  qed
qed

context comparator_contract
begin

lemma index_at:
  assumes t: "table_open cmp wf lib options W bs ix t" and len: "length W < 2 ^ 64" "length (block_of 1 ix) < 2 ^ 32"
  shows "\<exists>it. Block_NewIterator (t_index_block t) = Inr it \<and> block_at cmp wf it ix (length ix)"
proof -
  have f: "table_file cmp wf lib options W bs ix" "t_index_block t = Block_init (block_of 1 ix)" using t by (auto simp: table_open_def)
  have "sorted_entries cmp wf ix" using table_partition(1) [OF comparator_contract_axioms f(1) len(1)] by (simp add: partition_ok_def)
  moreover have "\<forall>e\<in>set ix. length (fst e) + length (snd e) < 2 ^ 32" using length_block_of_1 [of _ ix] len(2) by fastforce
  ultimately show ?thesis unfolding f(2) using block_roundtrip_at [OF _ _ block_of_def, of 1 ix cmp wf] len(2) by auto
qed

lemma table_tl_at:
  assumes t: "table_open cmp wf lib options W bs ix t" and c: "cache_ok options bs (t_cache_id t) cache"
    and len: "length W < 2 ^ 64" "length (block_of 1 ix) < 2 ^ 32" "sizes_ok bs" and opt: "1 \<le> opt_block_restart_interval options" "opt_comparator options = cmp"
  shows "tl_at cmp wf (BlockClass cmp) (block_class_at cmp wf) (BlockClass cmp) (block_class_at cmp wf) (\<lambda>h. fst (BlockReader lib cache t ro h))
      (Suc (length (bl_data (t_index_block t)))) (Table_NewIterator t) (concat (map pl_entries bs)) (length (concat (map pl_entries bs)))"
proof -
  have f: "table_file cmp wf lib options W bs ix" and to: "t_options t = options" "length (bl_data (t_index_block t)) = length (block_of 1 ix)"
    using t by (auto simp: table_open_def Block_init_def Let_def)
  note P = table_partition [OF comparator_contract_axioms f len(1)]
  obtain it where it: "Block_NewIterator (t_index_block t) = Inr it" "block_at cmp wf it ix (length ix)"
    using index_at [OF t len(1,2)] by blast
  let ?bf = "\<lambda>h. fst (BlockReader lib cache t ro h)"
  have "\<exists>n. block_class_at cmp wf (?bf (snd e)) (block_entries bs (snd e)) n" if "e \<in> set ix" for e
  proof -
    obtain i where i: "i < length ix" "e = ix ! i" using \<open>e \<in> set ix\<close> by (metis in_set_conv_nth)
    have h: "snd e = bh_EncodeTo (pl_handle (bs ! i)) []" "bs ! i \<in> set bs" using f i by (auto simp: table_file_def index_ok_def)
    obtain d where "?bf (snd e) = Inr d" "block_at cmp wf d (pl_entries (bs ! i)) (length (pl_entries (bs ! i)))"
      unfolding h(1) using BlockReader_at [OF t c h(2) len(1,3) opt(1)] by blast
    then show ?thesis using P(3) i by (auto simp: block_class_at_def)
  qed
  moreover have "length ix < Suc (length (bl_data (t_index_block t)))" using length_block_of(2) [of ix 1] to by simp
  moreover have "block_class_at cmp wf (Inr it) ix (length ix)" using it(2) by (simp add: block_class_at_def)
  ultimately have "tl_at cmp wf (BlockClass cmp) (block_class_at cmp wf) (BlockClass cmp) (block_class_at cmp wf) ?bf (Suc (length (bl_data (t_index_block t))))
      (TwoLevelIter_init (BlockClass cmp) (Inr it)) (concat (map (block_entries bs \<circ> snd) ix)) (length (concat (map (block_entries bs \<circ> snd) ix)))"
    by (intro tab.tl_init_at [OF _ P(1)]) auto
  then show ?thesis by (simp add: Table_NewIterator_def it(1) to(1) opt(2) P(2))
qed

lemma table_iterates:
  assumes t: "table_open cmp wf lib options W bs ix t" and c: "cache_ok options bs (t_cache_id t) cache"
    and len: "length W < 2 ^ 64" "length (block_of 1 ix) < 2 ^ 32" "sizes_ok bs" and opt: "1 \<le> opt_block_restart_interval options" "opt_comparator options = cmp"
  shows "iterates cmp wf (TableIterator lib cache t ro) (Table_NewIterator t) (concat (map pl_entries bs))"
proof -
  have "t_options t = options" using t by (simp add: table_open_def)
  then show ?thesis
    using sorted_iterator.iat_iterates [OF tab.tl_contract table_tl_at [OF assms]] opt(2) by (simp add: TableIterator_def)
qed

text \<open>\<open>InternalGet\<close> looks at one block only, the one the index names.\<close>

lemma InternalGet_eq:
  assumes t: "table_open cmp wf lib options W bs ix t" and c: "cache_ok options bs (t_cache_id t) cache"
    and len: "length W < 2 ^ 64" "length (block_of 1 ix) < 2 ^ 32" "sizes_ok bs" and opt: "1 \<le> opt_block_restart_interval options" "opt_comparator options = cmp"
    and k: "wf k"
  defines "j \<equiv> seek_pos cmp k ix"
  defines "es \<equiv> pl_entries (bs ! j)"
  shows "InternalGet lib cache t ro k = (OK,
    if j < length bs \<and> (\<forall>fr. t_filter t = Some fr \<longrightarrow> fr_KeyMayMatch fr (of_nat (pl_off (bs ! j))) k) \<and> seek_pos cmp k es < length es
    then Some (es ! seek_pos cmp k es) else None)"
proof -
  have f: "table_file cmp wf lib options W bs ix" and to: "t_options t = options" using t by (auto simp: table_open_def)
  have l: "length ix = length bs" using f by (simp add: table_file_def)
  obtain it where it: "Block_NewIterator (t_index_block t) = Inr it" "block_at cmp wf it ix (length ix)" using index_at [OF t len(1,2)] by blast
  define i1 where "i1 = it_Seek (BlockClass cmp) k (Inr it)"
  have i1: "block_class_at cmp wf i1 ix j"
    unfolding i1_def j_def by (rule blk.iat_Seek [where n = "length ix", OF _ k]) (simp add: block_class_at_def it(2))
  have st1: "it_status (BlockClass cmp) i1 = OK" "it_Valid (BlockClass cmp) i1 \<longleftrightarrow> j < length bs" using blk.iat_status [OF i1] blk.iat_Valid [OF i1] l by simp_all
  show ?thesis
  proof (cases "j < length bs")
    case False
    then show ?thesis using st1 by (simp add: InternalGet_def Let_def to opt(2) it(1) i1_def [symmetric])
  next
    case True
    have h: "it_value (BlockClass cmp) i1 = bh_EncodeTo (pl_handle (bs ! j)) []"
      using blk.iat_value [OF i1] True l f by (simp add: table_file_def index_ok_def)
    have dec: "bh_DecodeFrom (bh_EncodeTo (pl_handle (bs ! j)) []) BlockHandle_init = (OK, [], pl_handle (bs ! j))"
      using bh_DecodeFrom_EncodeTo [of "pl_handle (bs ! j)" "[]" BlockHandle_init] by simp
    obtain d where d: "fst (BlockReader lib cache t ro (bh_EncodeTo (pl_handle (bs ! j)) [])) = Inr d" "block_at cmp wf d es (length es)"
      unfolding es_def using BlockReader_at [OF t c _ len(1,3) opt(1), of "bs ! j"] True by auto
    define d1 where "d1 = it_Seek (BlockClass cmp) k (Inr d)"
    have d1: "block_class_at cmp wf d1 es (seek_pos cmp k es)"
      unfolding d1_def by (rule blk.iat_Seek [where n = "length es", OF _ k]) (simp add: block_class_at_def d(2))
    note D = blk.iat_status [OF d1] blk.iat_Valid [OF d1] blk.iat_key [OF d1] blk.iat_value [OF d1]
    show ?thesis using st1 True D
      by (cases "t_filter t") (simp_all add: InternalGet_def Let_def to opt(2) it(1) i1_def [symmetric] h dec d(1) d1_def [symmetric] pl_handle_off)
  qed
qed

text \<open>
  The entry returned is the first one at or after \<open>k\<close>; it is returned unless the filter tells the two keys apart or
  an index key separates them.
\<close>

lemma InternalGet_first:
  assumes t: "table_open cmp wf lib options W bs ix t" and c: "cache_ok options bs (t_cache_id t) cache"
    and len: "length W < 2 ^ 32" "length (block_of 1 ix) < 2 ^ 32" "sizes_ok bs" and opt: "1 \<le> opt_block_restart_interval options" "opt_comparator options = cmp"
    and k: "wf k" and fp: "\<forall>p. opt_filter_policy options = Some p \<longrightarrow> filter_policy_contract p"
  defines "es \<equiv> concat (map pl_entries bs)"
  defines "n \<equiv> seek_pos cmp k es"
  obtains r where "InternalGet lib cache t ro k = (OK, r)" "\<And>e. r = Some e \<Longrightarrow> n < length es \<and> e = es ! n"
    "n < length es \<Longrightarrow> \<forall>p f. opt_filter_policy options = Some p \<longrightarrow> KeyMayMatch p k f = KeyMayMatch p (fst (es ! n)) f \<Longrightarrow>
     \<forall>e\<in>set es. Compare cmp (fst e) k < 0 \<longrightarrow> Compare cmp (FindShortestSeparator cmp (fst e) (fst (es ! n))) k < 0 \<Longrightarrow> r = Some (es ! n)"
proof -
  have len64: "length W < 2 ^ 64" using len(1) by simp
  have f: "table_file cmp wf lib options W bs ix" using t by (auto simp: table_open_def)
  have l: "length ix = length bs" and iok: "index_ok cmp wf ix bs []" using f by (auto simp: table_file_def)
  note P = table_partition [OF comparator_contract_axioms f len64]
  define j where "j = seek_pos cmp k ix"
  define ej where "ej = pl_entries (bs ! j)"
  define q where "q = seek_pos cmp k ej"
  note G = InternalGet_eq [OF t c len64 len(2,3) opt k, folded j_def, folded ej_def, folded q_def]
  show ?thesis
  proof (cases "j < length bs")
    case False
    then have "n = length es" using tab.partition_seek [OF P(1) k] l by (simp add: n_def es_def P(2) j_def)
    then show ?thesis using False G that [of None] by simp
  next
    case j: True
    have es: "es = concat (map pl_entries (take j bs)) @ ej @ concat (map pl_entries (drop (Suc j) bs))"
      unfolding es_def ej_def by (subst id_take_nth_drop [OF j]) simp
    have ne: "ej \<noteq> []" "bs ! j \<in> set bs" using f j by (auto simp: ej_def table_file_def)
    have n: "n = length (concat (map pl_entries (take j bs))) + q"
    proof -
      have "map (block_entries bs \<circ> snd) (take j ix) = map pl_entries (take j bs)" by (rule nth_equalityI) (use j l P(3) in auto)
      then have "block_off (block_entries bs) ix j = length (concat (map pl_entries (take j bs)))" unfolding block_off_def by simp
      then show ?thesis using tab.partition_seek [OF P(1) k] j l P(3) [of j] by (simp add: n_def es_def P(2) j_def [symmetric] ej_def q_def)
    qed
    have in_block: "es ! n = ej ! q" "n < length es" if "q < length ej" using that by (auto simp: n es nth_append)
    have fr: "fr_KeyMayMatch fr (of_nat (pl_off (bs ! j))) k"
      if fr: "t_filter t = Some fr" and q: "q < length ej"
        and same: "\<forall>p f. opt_filter_policy options = Some p \<longrightarrow> KeyMayMatch p k f = KeyMayMatch p (fst (es ! n)) f" for fr
    proof -
      obtain p fb gs pend where p: "opt_filter_policy options = Some p" "fr = FilterBlockReader_init p (fst (fb_Finish fb))" "fb_policy fb = p"
        "fb_rep fb gs pend" "fb_covers gs pend (map (\<lambda>x. (pl_off x, map fst (pl_entries x))) bs)" "length (fst (fb_Finish fb)) \<le> length W"
        using t fr by (auto simp: table_open_def split: option.splits)
      have u: "unat (of_nat (pl_off (bs ! j)) :: u64) = pl_off (bs ! j)" by (rule table_off(1) [OF f len64 ne(2)])
      have hit: "fr_KeyMayMatch fr (of_nat (pl_off (bs ! j))) (fst (ej ! q))" unfolding p(2)
        using filter_policy_contract.fr_no_miss [OF mp [OF spec [OF fp] p(1)] p(4,3,5), of "of_nat (pl_off (bs ! j))" "map fst ej" "fst (ej ! q)"]
          p(6) len(1) u ne(2) q by (auto simp: ej_def)
      have pol: "fr_policy fr = p" by (simp add: p(2) FilterBlockReader_init_def Let_def)
      have eq: "KeyMayMatch p (fst (ej ! q)) = KeyMayMatch p k" using same p(1) in_block(1) [OF q] by auto
      have "fr_KeyMayMatch fr o' (fst (ej ! q)) = fr_KeyMayMatch fr o' k" for o' unfolding fr_KeyMayMatch_def pol eq ..
      then show ?thesis using hit by simp
    qed
    have next_block: "\<exists>e\<in>set es. Compare cmp (fst e) k < 0 \<and> \<not> Compare cmp (FindShortestSeparator cmp (fst e) (fst (es ! n))) k < 0"
      if q: "\<not> q < length ej" and n2: "n < length es"
    proof -
      let ?rest = "concat (map pl_entries (drop (Suc j) bs))"
      have q': "q = length ej" using q seek_pos_le [of cmp k ej] by (simp add: q_def)
      then have "?rest \<noteq> []" "es ! n = hd ?rest" using n2 by (auto simp: n es nth_append hd_conv_nth)
      then have sep: "fst (ix ! j) = FindShortestSeparator cmp (fst (last ej)) (fst (es ! n))"
        using iok j l by (simp add: index_ok_def ej_def)
      have "\<not> Compare cmp (fst (ix ! j)) k < 0" using nth_length_takeWhile [of "\<lambda>e. Compare cmp (fst e) k < 0" ix] j l
        by (simp add: j_def seek_pos_def)
      moreover have "takeWhile (\<lambda>e. Compare cmp (fst e) k < 0) ej = ej"
        using q' by (metis q_def seek_pos_def takeWhile_eq_take take_all_iff order_refl)
      then have "Compare cmp (fst (last ej)) k < 0" using last_in_set [OF ne(1)] by (metis set_takeWhileD)
      moreover have "last ej \<in> set es" using ne(1) by (simp add: es)
      ultimately show ?thesis unfolding sep by blast
    qed
    show ?thesis
    proof (rule that [OF G], goal_cases)
      case (1 e)
      then show ?case using in_block by (auto split: if_splits)
    next
      case 2
      then have "q < length ej" using next_block by blast
      then show ?case using j in_block fr 2 by simp
    qed
  qed
qed

end

section \<open>Tables of internal keys\<close>

context internal_keys
begin

text \<open>An index key never stands between a lookup key and an entry of the same user key.\<close>

lemma ik_sep_gap:
  assumes ab: "Compare (InternalKeyComparator ucmp) a b < 0" and ak: "Compare (InternalKeyComparator ucmp) a k < 0"
    and u: "ExtractUserKey k = ExtractUserKey b"
  shows "Compare (InternalKeyComparator ucmp) (FindShortestSeparator (InternalKeyComparator ucmp) a b) k < 0"
proof -
  define t where "t = FindShortestSeparator ucmp (ExtractUserKey a) (ExtractUserKey b)"
  let ?s = "FindShortestSeparator (InternalKeyComparator ucmp) a b"
  show ?thesis
  proof (cases "length t < length (ExtractUserKey a) \<and> Compare ucmp (ExtractUserKey a) t \<noteq> 0")
    case False
    then have "?s = a" by (auto simp: t_def InternalKeyComparator_def InternalKey_FindShortestSeparator_def Let_def)
    with ak show ?thesis by simp
  next
    case True
    then have s: "?s = t @ EncodeFixed64 (PackSequenceAndType kMaxSequenceNumber kValueTypeForSeek)"
      by (simp add: t_def InternalKeyComparator_def InternalKey_FindShortestSeparator_def Let_def PutFixed64_def)
    have "ExtractUserKey a \<noteq> ExtractUserKey b" using True user.sep_same user.cmp_refl by (auto simp: t_def)
    with ab have lt: "Compare ucmp (ExtractUserKey a) (ExtractUserKey b) < 0" by (auto simp: ik_less)
    then have "Compare ucmp t (ExtractUserKey k) < 0" using user.sep_lt [OF _ _ lt] by (simp add: t_def u)
    then show ?thesis by (simp add: ik_less s)
  qed
qed

text \<open>A lookup finds the first entry of its user key at or after it, when there is one.\<close>

lemma internal_table_get:
  assumes t: "table_open (InternalKeyComparator ucmp) (\<lambda>k. 8 \<le> length k) lib options W bs ix t" and c: "cache_ok options bs (t_cache_id t) cache"
    and len: "length W < 2 ^ 32" "length (block_of 1 ix) < 2 ^ 32" "sizes_ok bs"
    and opt: "1 \<le> opt_block_restart_interval options" "opt_comparator options = InternalKeyComparator ucmp"
    and fp: "\<forall>p. opt_filter_policy options = Some p \<longrightarrow> (\<exists>up. p = InternalFilterPolicy up \<and> filter_policy_contract up)" and k: "8 \<le> length k"
  defines "es \<equiv> concat (map pl_entries bs)"
  defines "n \<equiv> seek_pos (InternalKeyComparator ucmp) k es"
  obtains r where "InternalGet lib cache t ro k = (OK, r)" "\<And>e. r = Some e \<Longrightarrow> n < length es \<and> e = es ! n"
    "n < length es \<Longrightarrow> ExtractUserKey (fst (es ! n)) = ExtractUserKey k \<Longrightarrow> r = Some (es ! n)"
proof -
  have fp': "\<forall>p. opt_filter_policy options = Some p \<longrightarrow> filter_policy_contract p" using fp internal_filter_contract by blast
  have so: "sorted_entries (InternalKeyComparator ucmp) (\<lambda>k. 8 \<le> length k) es" using t by (simp add: table_open_def table_file_def es_def)
  obtain r where r: "InternalGet lib cache t ro k = (OK, r)" "\<And>e. r = Some e \<Longrightarrow> n < length es \<and> e = es ! n"
    "n < length es \<Longrightarrow> \<forall>p f. opt_filter_policy options = Some p \<longrightarrow> KeyMayMatch p k f = KeyMayMatch p (fst (es ! n)) f \<Longrightarrow>
     \<forall>e\<in>set es. Compare (InternalKeyComparator ucmp) (fst e) k < 0 \<longrightarrow>
       Compare (InternalKeyComparator ucmp) (FindShortestSeparator (InternalKeyComparator ucmp) (fst e) (fst (es ! n))) k < 0 \<Longrightarrow> r = Some (es ! n)"
    using comparator_contract.InternalGet_first [OF ik.comparator_contract_axioms t c len opt k fp', of ro thesis] unfolding n_def es_def by blast
  show ?thesis
  proof (rule that [OF r(1)])
    assume n: "n < length es" "ExtractUserKey (fst (es ! n)) = ExtractUserKey k"
    have "\<not> Compare (InternalKeyComparator ucmp) (fst (es ! n)) k < 0"
      using n(1) nth_length_takeWhile [of "\<lambda>e. Compare (InternalKeyComparator ucmp) (fst e) k < 0" es] by (simp add: n_def seek_pos_def)
    moreover have "8 \<le> length (fst (es ! n))" and wf: "\<forall>e\<in>set es. 8 \<le> length (fst e)" using so n(1) by (auto simp: sorted_entries_def)
    ultimately have "Compare (InternalKeyComparator ucmp) (fst e) (fst (es ! n)) < 0"
      if "e \<in> set es" "Compare (InternalKeyComparator ucmp) (fst e) k < 0" for e
      using ik.cmp_less_le_trans [of "fst e" k "fst (es ! n)"] that k ik.cmp_sym by (meson linorder_not_less)
    moreover have "\<forall>p f. opt_filter_policy options = Some p \<longrightarrow> KeyMayMatch p k f = KeyMayMatch p (fst (es ! n)) f"
      using fp n(2) by (auto simp: InternalFilterPolicy_def)
    ultimately show "r = Some (es ! n)" using r(3) [OF n(1)] n(2) ik_sep_gap by simp
  qed (rule r(2))
qed

end

section \<open>Building and reading\<close>

lemma table_size_part: "concat (map pl_entries bs) = es \<Longrightarrow> x \<in> set bs \<Longrightarrow> table_size (pl_entries x) \<le> table_size es"
  by (induction bs arbitrary: es) (force simp: table_size_def)+

context table_build
begin

lemma WriteBlock_grows: "WriteBlock lib fc blk b = (h, blk', b') \<Longrightarrow> tb_status b' = OK \<Longrightarrow> length (written (tb_file b)) \<le> length (written (tb_file b'))"
  by (erule (1) WriteBlock_ok) simp

lemma tb_Finish_mono:
  assumes fin: "tb_Finish lib fc b = (OK, b')"
  shows "tb_status b = OK" "length (written (tb_file b)) \<le> length (written (tb_file b'))"
proof -
  define b1 where "b1 = (tb_Flush lib fc b)\<lparr> tb_closed := True \<rparr>"
  obtain fh b2 where f: "finish_filter fc b1 = (fh, b2)" by fastforce
  obtain mh b3 where m: "finish_metaindex lib fc fh b2 = (mh, b3)" by fastforce
  obtain ih b4 where x: "finish_index lib fc b3 = (ih, b4)" by fastforce
  have ft: "finish_footer fc mh ih b4 = b'" "tb_status b' = OK" using fin by (auto simp: tb_Finish_def b1_def [symmetric] f m x Let_def)
  note F4 = finish_footer_ok [OF ft]
  have st3: "tb_status b3 = OK" using F4(1) x by (auto simp: finish_index_def split: if_splits)
  have st2: "tb_status b2 = OK" using st3 m by (auto simp: finish_metaindex_def split: if_splits)
  have "tb_status b1 = OK" using st2 f by (auto simp: finish_filter_def split: option.splits if_splits)
  then have st0: "tb_status (tb_Flush lib fc b) = OK" by (simp add: b1_def)
  show "tb_status b = OK" using tb_Flush_mono(1) [OF st0] .
  have "length (written (tb_file b1)) \<le> length (written (tb_file b2))" using finish_filter_ok [OF f st2] by (auto simp: tb_ext_def)
  moreover have "length (written (tb_file b2)) \<le> length (written (tb_file b3))"
    using m st3 WriteBlock_grows by (fastforce simp: finish_metaindex_def Let_def split: prod.splits if_splits)
  moreover have "length (written (tb_file b3)) \<le> length (written (tb_file b4))"
    using x F4(1) WriteBlock_grows by (fastforce simp: finish_index_def Let_def split: prod.splits if_splits)
  ultimately show "length (written (tb_file b)) \<le> length (written (tb_file b'))"
    using tb_Flush_mono(2) [OF st0] F4(2) by (simp add: b1_def)
qed

lemma built_table:
  assumes "written f = []" "opt_comparator options = cmp" "sorted_entries cmp key_ok es"
    and p: "\<And>p. opt_filter_policy options = Some p \<Longrightarrow> filter_policy_contract p"
    and fin: "tb_Finish lib fc (tb_AddAll lib fc es (TableBuilder_init options f)) = (OK, b)" and len: "length (written (tb_file b)) < 2 ^ 64"
  obtains bs ix where "table_file cmp key_ok lib options (written (tb_file b)) bs ix" "concat (map pl_entries bs) = es"
proof -
  note M = tb_Finish_mono [OF fin]
  obtain bs cur ix where I: "tb_inv cmp key_ok lib written options (tb_AddAll lib fc es (TableBuilder_init options f)) bs cur ix"
    "concat (map pl_entries bs) @ cur = es"
    using tb_AddAll_inv [OF assms(1-3) p M(1)] M(2) len by force
  from tb_Finish_table [OF I(1) assms(2) p fin len] I(2) show ?thesis using that by auto
qed

end

text \<open>Everything a client gets from an open table over the entries \<open>es\<close>.\<close>

definition table_serves ::
  "comparator \<Rightarrow> (bytes \<Rightarrow> bool) \<Rightarrow> compress_lib \<Rightarrow> block_cache \<Rightarrow> Table \<Rightarrow> ReadOptions \<Rightarrow> entries \<Rightarrow> bool" where
  "table_serves cmp key_ok lib cache t ro es \<longleftrightarrow>
     iterates cmp key_ok (TableIterator lib cache t ro) (Table_NewIterator t) es
     \<and> (\<forall>(k, v)\<in>set es. InternalGet lib cache t ro k = (OK, Some (k, v)))
     \<and> (\<forall>k. key_ok k \<longrightarrow> (\<exists>r. InternalGet lib cache t ro k = (OK, r)
          \<and> (\<forall>e. r = Some e \<longrightarrow> (\<exists>rest. dropWhile (\<lambda>e. Compare cmp (fst e) k < 0) es = e # rest))))"

lemma seek_pos_nth:
  assumes "comparator_contract cmp key_ok" "sorted_entries cmp key_ok es" "i < length es"
  shows "seek_pos cmp (fst (es ! i)) es = i"
proof -
  have "Compare cmp (fst (es ! j)) (fst (es ! i)) < 0 \<longleftrightarrow> j < i" if "j < length es" for j
  proof -
    have "key_ok (fst (es ! j))" "key_ok (fst (es ! i))" using assms(2,3) that by (auto simp: sorted_entries_def)
    moreover have "a < b \<Longrightarrow> b < length es \<Longrightarrow> Compare cmp (fst (es ! a)) (fst (es ! b)) < 0" for a b
      using assms(2) by (auto simp: sorted_entries_def sorted_wrt_iff_nth_less)
    ultimately show ?thesis using comparator_contract.cmp_refl [OF assms(1)] comparator_contract.cmp_sym [OF assms(1)] assms(3) that
      by (metis less_asym less_irrefl linorder_neqE_nat)
  qed
  then have "takeWhile (\<lambda>e. Compare cmp (fst e) (fst (es ! i)) < 0) es = take i es" using assms(3) by (intro takeWhile_eq_take_P_nth) auto
  then show ?thesis using assms(3) by (simp add: seek_pos_def)
qed

lemma table_open_serves:
  assumes cmp: "comparator_contract cmp key_ok" and t: "table_open cmp key_ok lib options W bs ix t" and c: "cache_ok options bs (t_cache_id t) cache"
    and len: "length W < 2 ^ 32" "length (block_of 1 ix) < 2 ^ 32" "sizes_ok bs" and opt: "1 \<le> opt_block_restart_interval options" "opt_comparator options = cmp"
    and fp: "\<forall>p. opt_filter_policy options = Some p \<longrightarrow> filter_policy_contract p"
  shows "table_serves cmp key_ok lib cache t ro (concat (map pl_entries bs))"
proof -
  define es where "es = concat (map pl_entries bs)"
  have so: "sorted_entries cmp key_ok es" using t by (simp add: table_open_def table_file_def es_def)
  note get = comparator_contract.InternalGet_first [OF cmp t c len opt _ fp, folded es_def]
  show ?thesis unfolding table_serves_def es_def [symmetric]
  proof (intro conjI ballI allI impI; (clarify)?)
    show "iterates cmp key_ok (TableIterator lib cache t ro) (Table_NewIterator t) es"
      unfolding es_def using comparator_contract.table_iterates [OF cmp t c _ len(2,3) opt] len(1) by simp
  next
    fix k v assume e: "(k, v) \<in> set es"
    then obtain i where i: "i < length es" "es ! i = (k, v)" by (metis in_set_conv_nth)
    have k: "key_ok k" using so e by (auto simp: sorted_entries_def)
    have sk: "seek_pos cmp k es = i" using seek_pos_nth [OF cmp so i(1)] i(2) by simp
    have "\<forall>e\<in>set es. Compare cmp (fst e) k < 0 \<longrightarrow> Compare cmp (FindShortestSeparator cmp (fst e) k) k < 0"
      using so k comparator_contract.sep_lt [OF cmp] by (auto simp: sorted_entries_def)
    then show "InternalGet lib cache t ro k = (OK, Some (k, v))"
      by (rule_tac get [OF k, of ro]) (use i sk in \<open>auto\<close>)
  next
    fix k assume k: "key_ok k"
    show "\<exists>r. InternalGet lib cache t ro k = (OK, r) \<and> (\<forall>e. r = Some e \<longrightarrow> (\<exists>rest. dropWhile (\<lambda>e. Compare cmp (fst e) k < 0) es = e # rest))"
      by (rule get [OF k, of ro]) (auto simp: seek_pos_def dropWhile_eq_drop simp flip: Cons_nth_drop_Suc)
  qed
qed

section \<open>Builds on a file without faults\<close>

definition quiet_class :: "'f WritableFile \<Rightarrow> ('f \<Rightarrow> bool) \<Rightarrow> bool" where
  "quiet_class fc quiet \<longleftrightarrow>
     (\<forall>d f. quiet f \<longrightarrow> fst (wf_Append fc d f) = OK \<and> quiet (snd (wf_Append fc d f)))
     \<and> (\<forall>f. quiet f \<longrightarrow> fst (wf_Flush fc f) = OK \<and> quiet (snd (wf_Flush fc f)))"

lemma quiet_Append: "quiet_class fc quiet \<Longrightarrow> quiet f \<Longrightarrow> wf_Append fc d f = (s, f') \<Longrightarrow> s = OK \<and> quiet f'"
  unfolding quiet_class_def by (metis fst_conv snd_conv)

lemma quiet_Flush: "quiet_class fc quiet \<Longrightarrow> quiet f \<Longrightarrow> wf_Flush fc f = (s, f') \<Longrightarrow> s = OK \<and> quiet f'"
  unfolding quiet_class_def by (metis fst_conv snd_conv)

lemma WriteRawBlock_quiet:
  assumes "quiet_class fc quiet" "quiet (tb_file b)" "tb_status b = OK" "WriteRawBlock fc c ty b = (h, b')"
  shows "tb_status b' = OK \<and> quiet (tb_file b')"
proof -
  obtain s f where 1: "wf_Append fc c (tb_file b) = (s, f)" by fastforce
  obtain s' f' where 2: "wf_Append fc (block_trailer c ty) f = (s', f')" by fastforce
  have "s = OK" "quiet f" using quiet_Append [OF assms(1,2) 1] by auto
  moreover from this have "s' = OK" "quiet f'" using quiet_Append [OF assms(1) _ 2] by auto
  ultimately show ?thesis using assms(3,4) by (auto simp: WriteRawBlock_def 1 2 Let_def)
qed

lemma WriteBlock_quiet:
  assumes "quiet_class fc quiet" "quiet (tb_file b)" "tb_status b = OK" "WriteBlock lib fc blk b = (h, blk', b')"
  shows "tb_status b' = OK \<and> quiet (tb_file b')"
  using WriteRawBlock_quiet [OF assms(1-3)] assms(4) by (auto simp: WriteBlock_def Let_def split: prod.splits)

lemma tb_Flush_quiet:
  assumes q: "quiet_class fc quiet" "quiet (tb_file b)" "tb_status b = OK"
  shows "tb_status (tb_Flush lib fc b) = OK \<and> quiet (tb_file (tb_Flush lib fc b))"
proof (cases "bb_empty (tb_data_block b)")
  case False
  obtain h blk b1 where w: "WriteBlock lib fc (tb_data_block b) b = (h, blk, b1)" by (metis prod_cases3)
  obtain s f where fl: "wf_Flush fc (tb_file b1) = (s, f)" by fastforce
  have b1: "tb_status b1 = OK" "quiet (tb_file b1)" using WriteBlock_quiet [OF q w] by auto
  then have "s = OK" "quiet f" using quiet_Flush [OF q(1) _ fl] by auto
  then show ?thesis using b1 q(3) False by (simp add: tb_Flush_def w fl)
qed (simp add: tb_Flush_def q)

lemma tb_AddAll_quiet:
  assumes q: "quiet_class fc quiet" "quiet (tb_file b)" "tb_status b = OK"
  shows "tb_status (tb_AddAll lib fc es b) = OK \<and> quiet (tb_file (tb_AddAll lib fc es b))"
proof (induction es rule: rev_induct)
  case (snoc e es)
  let ?b = "tb_push (fst e) (snd e) (tb_AddAll lib fc es b)"
  have "tb_status ?b = OK" "quiet (tb_file ?b)" using snoc by (simp_all add: tb_push_def Let_def)
  then show ?case using tb_Flush_quiet [OF q(1), of ?b lib] snoc by (simp add: tb_AddAll_def case_prod_beta tb_Add_def Let_def)
qed (simp add: tb_AddAll_def q)

lemma tb_Finish_quiet:
  assumes q: "quiet_class fc quiet" "quiet (tb_file b)" "tb_status b = OK"
  shows "fst (tb_Finish lib fc b) = OK"
proof -
  define b1 where "b1 = (tb_Flush lib fc b)\<lparr> tb_closed := True \<rparr>"
  obtain fh b2 where f: "finish_filter fc b1 = (fh, b2)" by fastforce
  obtain mh b3 where m: "finish_metaindex lib fc fh b2 = (mh, b3)" by fastforce
  obtain ih b4 where x: "finish_index lib fc b3 = (ih, b4)" by fastforce
  have b1: "tb_status b1 = OK" "quiet (tb_file b1)" using tb_Flush_quiet [OF q, of lib] by (simp_all add: b1_def)
  then have b2: "tb_status b2 = OK \<and> quiet (tb_file b2)"
  proof (cases "tb_filter_block b1")
    case (Some fb)
    obtain contents fb' where "fb_Finish fb = (contents, fb')" by fastforce
    then have w: "WriteRawBlock fc contents kNoCompression (b1\<lparr> tb_filter_block := Some fb' \<rparr>) = (fh, b2)" using f Some b1(1) by (simp add: finish_filter_def)
    show ?thesis using WriteRawBlock_quiet [OF q(1) _ _ w] b1 by simp
  qed (use f b1 in \<open>simp add: finish_filter_def\<close>)
  obtain meta blk where "WriteBlock lib fc meta b2 = (mh, blk, b3)" using m b2 by (auto simp: finish_metaindex_def Let_def split: prod.splits)
  then have b3: "tb_status b3 = OK \<and> quiet (tb_file b3)" using WriteBlock_quiet [OF q(1)] b2 by blast
  define c where "c = (if tb_pending_index_entry b3 then let last_key = FindShortSuccessor (opt_comparator (tb_options b3)) (tb_last_key b3)
      in b3\<lparr> tb_last_key := last_key, tb_index_block := bb_Add last_key (bh_EncodeTo (tb_pending_handle b3) []) (tb_index_block b3),
            tb_pending_index_entry := False \<rparr> else b3)"
  obtain h blk' b5 where w: "WriteBlock lib fc (tb_index_block c) c = (h, blk', b5)" by (metis prod_cases3)
  have "b4 = b5\<lparr> tb_index_block := blk' \<rparr>" using x b3 w unfolding finish_index_def c_def [symmetric] by simp
  moreover have "tb_status c = OK" "quiet (tb_file c)" using b3 by (simp_all add: c_def Let_def)
  ultimately have b4: "tb_status b4 = OK" "quiet (tb_file b4)" using WriteBlock_quiet [OF q(1) _ _ w] by simp_all
  obtain s g where a: "wf_Append fc (ft_EncodeTo \<lparr> ft_metaindex_handle = mh, ft_index_handle = ih \<rparr> []) (tb_file b4) = (s, g)" by fastforce
  then have "tb_status (finish_footer fc mh ih b4) = OK" using quiet_Append [OF q(1) b4(2) a] b4(1) by (simp add: finish_footer_def a)
  then show ?thesis by (simp add: tb_Finish_def b1_def [symmetric] f m x Let_def)
qed

definition pwf_quiet :: "PosixWritableFile \<Rightarrow> bool" where
  "pwf_quiet f \<longleftrightarrow> fd_events (pwf_fd f) = []"

lemma WriteUnbuffered_quiet: "pwf_quiet f \<Longrightarrow> fst (WriteUnbuffered d f) = OK \<and> pwf_quiet (snd (WriteUnbuffered d f))"
proof -
  assume q: "pwf_quiet f"
  have "WriteUnbuffered d f = (OK, if d = [] then f else f\<lparr> pwf_fd := (pwf_fd f)\<lparr> fd_data := fd_data (pwf_fd f) @ d \<rparr> \<rparr>)"
    by (subst WriteUnbuffered.simps) (use q in \<open>simp add: pwf_quiet_def sys_write_def WriteUnbuffered.simps [of "[]"]\<close>)
  then show ?thesis using q by (simp add: pwf_quiet_def)
qed

lemma FlushBuffer_quiet: "pwf_quiet f \<Longrightarrow> fst (FlushBuffer f) = OK \<and> pwf_quiet (snd (FlushBuffer f))"
  using WriteUnbuffered_quiet [of f "pwf_buf f"] by (auto simp: FlushBuffer_def pwf_quiet_def split: prod.splits)

lemma posix_quiet: "quiet_class posix_writable pwf_quiet"
proof -
  have "fst (pwf_Append d f) = OK \<and> pwf_quiet (snd (pwf_Append d f))" if "pwf_quiet f" for d f
  proof -
    define c where "c = min (length d) (kWritableFileBufferSize - length (pwf_buf f))"
    define g where "g = f\<lparr> pwf_buf := pwf_buf f @ take c d \<rparr>"
    obtain s h where h: "FlushBuffer g = (s, h)" by fastforce
    have eq: "pwf_Append d f = (if drop c d = [] then (OK, g) else if \<not> ok s then (s, h)
        else if length (drop c d) < kWritableFileBufferSize then (OK, h\<lparr> pwf_buf := drop c d \<rparr>) else WriteUnbuffered (drop c d) h)"
      by (simp only: pwf_Append_def Let_def c_def [symmetric] g_def [symmetric] h prod.case)
    have g: "pwf_quiet g" using that by (simp add: g_def pwf_quiet_def)
    then have "s = OK" "pwf_quiet h" using FlushBuffer_quiet [OF g] h by auto
    then show ?thesis using g WriteUnbuffered_quiet [of h] unfolding eq by (auto simp: pwf_quiet_def)
  qed
  then show ?thesis using FlushBuffer_quiet by (simp add: quiet_class_def posix_writable_def)
qed

section \<open>The size of the file\<close>

context table_build
begin

lemma WriteBlock_len:
  assumes "WriteBlock lib fc blk b = (h, blk', b')" "tb_status b' = OK"
  shows "length (written (tb_file b')) \<le> length (written (tb_file b)) + bb_CurrentSizeEstimate blk + kBlockTrailerSize"
proof -
  obtain raw blk1 where r: "bb_Finish blk = (raw, blk1)" by fastforce
  obtain c ty where c: "compress_block lib (tb_options b) raw = (c, ty)" by fastforce
  obtain b1 where w: "WriteRawBlock fc c ty b = (h, b1)" "b1 = b'" using assms by (auto simp: WriteBlock_def r c split: prod.splits)
  have "length c \<le> length raw" using c by (auto simp: compress_block_def split: CompressionType.splits option.splits if_splits)
  moreover have "length raw = bb_CurrentSizeEstimate blk" using length_bb_Finish [of blk] r by simp
  ultimately show ?thesis using WriteRawBlock_ok(2) [OF w(1)] assms(2) w(2) by simp
qed

lemma tb_Flush_len:
  assumes "tb_status (tb_Flush lib fc b) = OK"
  shows "length (written (tb_file (tb_Flush lib fc b))) \<le> length (written (tb_file b)) + bb_CurrentSizeEstimate (tb_data_block b) + kBlockTrailerSize"
proof (cases "bb_empty (tb_data_block b)")
  case False
  obtain h blk b1 where w: "WriteBlock lib fc (tb_data_block b) b = (h, blk, b1)" by (metis prod_cases3)
  obtain s f where fl: "wf_Flush fc (tb_file b1) = (s, f)" by fastforce
  have st: "tb_status b1 = OK" "s = OK" "tb_file (tb_Flush lib fc b) = f"
    using assms False tb_Flush_mono(1) [OF assms] by (auto simp: tb_Flush_def w fl Let_def split: if_splits)
  then have "written f = written (tb_file b1)" using flush_ok fl by blast
  then show ?thesis using WriteBlock_len [OF w st(1)] st(3) by simp
qed (simp add: tb_Flush_def)

lemma finish_filter_len:
  assumes "finish_filter fc b = (h, b')" "tb_status b' = OK"
  shows "length (written (tb_file b')) \<le> length (written (tb_file b))
    + (case tb_filter_block b of None \<Rightarrow> 0 | Some fb \<Rightarrow> length (fst (fb_Finish fb)) + kBlockTrailerSize)"
proof (cases "tb_filter_block b")
  case (Some fb)
  obtain c fb' where c: "fb_Finish fb = (c, fb')" by fastforce
  then have w: "WriteRawBlock fc c kNoCompression (b\<lparr> tb_filter_block := Some fb' \<rparr>) = (h, b')"
    using assms Some finish_filter_ok(1) [OF assms] by (simp add: finish_filter_def)
  show ?thesis using WriteRawBlock_ok(2) [OF w assms(2)] Some c by simp
qed (use assms in \<open>simp add: finish_filter_def\<close>)

lemma finish_metaindex_len:
  assumes "finish_metaindex lib fc fh b = (h, b')" "tb_status b' = OK"
  shows "length (written (tb_file b')) \<le> length (written (tb_file b)) + (case opt_filter_policy (tb_options b) of None \<Rightarrow> 0 | Some p \<Rightarrow> length (fp_Name p)) + 80"
proof -
  have st: "tb_status b = OK" using assms by (auto simp: finish_metaindex_def split: if_splits)
  let ?init = "BlockBuilder_init (opt_block_restart_interval (tb_options b))"
  define meta where "meta = (case (tb_filter_block b, opt_filter_policy (tb_options b)) of
      (Some fb, Some policy) \<Rightarrow> bb_Add (str ''filter.'' @ str (fp_Name policy)) (bh_EncodeTo fh []) ?init | _ \<Rightarrow> ?init)"
  obtain m where w: "WriteBlock lib fc meta b = (h, m, b')"
    using assms(1) st unfolding finish_metaindex_def meta_def [symmetric] by (auto simp: Let_def meta_def split: prod.splits)
  have "bb_CurrentSizeEstimate ?init = 8" by (simp add: BlockBuilder_init_def bb_CurrentSizeEstimate_def)
  then have "bb_CurrentSizeEstimate meta \<le> (case opt_filter_policy (tb_options b) of None \<Rightarrow> 0 | Some p \<Rightarrow> length (fp_Name p)) + 75"
    using bb_Add_size [of ?init] length_bh_EncodeTo [of fh] unfolding meta_def
    by (auto split: option.splits simp: str_def kMaxEncodedLength_def intro!: order_trans [OF conjunct2 [OF bb_Add_size]])
  then show ?thesis using WriteBlock_len [OF w assms(2)] by (simp add: kBlockTrailerSize_def)
qed

lemma finish_index_len:
  assumes "finish_index lib fc b = (h, b')" "tb_status b' = OK"
  shows "length (written (tb_file b')) \<le> length (written (tb_file b)) + bb_CurrentSizeEstimate (tb_index_block b)
    + length (FindShortSuccessor (opt_comparator (tb_options b)) (tb_last_key b)) + 60"
proof -
  have st: "tb_status b = OK" using assms by (auto simp: finish_index_def split: if_splits)
  define c where "c = (if tb_pending_index_entry b then let last_key = FindShortSuccessor (opt_comparator (tb_options b)) (tb_last_key b)
      in b\<lparr> tb_last_key := last_key, tb_index_block := bb_Add last_key (bh_EncodeTo (tb_pending_handle b) []) (tb_index_block b),
            tb_pending_index_entry := False \<rparr> else b)"
  obtain m b1 where w: "WriteBlock lib fc (tb_index_block c) c = (h, m, b1)" "b' = b1\<lparr> tb_index_block := m \<rparr>"
    using assms(1) st unfolding finish_index_def c_def [symmetric] by (auto split: prod.splits)
  have "tb_file c = tb_file b" "bb_CurrentSizeEstimate (tb_index_block c) \<le> bb_CurrentSizeEstimate (tb_index_block b)
      + length (FindShortSuccessor (opt_comparator (tb_options b)) (tb_last_key b)) + 54"
    using bb_Add_size [of "tb_index_block b"] length_bh_EncodeTo [of "tb_pending_handle b"]
    by (auto simp: c_def Let_def kMaxEncodedLength_def intro!: order_trans [OF conjunct2 [OF bb_Add_size]])
  then show ?thesis using WriteBlock_len [OF w(1)] assms(2) w(2) by (simp add: kBlockTrailerSize_def)
qed

lemma tb_Finish_len:
  assumes fin: "tb_Finish lib fc b = (OK, b')" and b0: "b0 = tb_Flush lib fc b"
  shows "length (written (tb_file b')) \<le> length (written (tb_file b0))
    + (case tb_filter_block b0 of None \<Rightarrow> 0 | Some fb \<Rightarrow> length (fst (fb_Finish fb)) + kBlockTrailerSize)
    + (case opt_filter_policy (tb_options b0) of None \<Rightarrow> 0 | Some p \<Rightarrow> length (fp_Name p)) + bb_CurrentSizeEstimate (tb_index_block b0)
    + length (FindShortSuccessor (opt_comparator (tb_options b0)) (tb_last_key b0)) + 200"
proof -
  define b1 where "b1 = b0\<lparr> tb_closed := True \<rparr>"
  obtain fh b2 where f: "finish_filter fc b1 = (fh, b2)" by fastforce
  obtain mh b3 where m: "finish_metaindex lib fc fh b2 = (mh, b3)" by fastforce
  obtain ih b4 where x: "finish_index lib fc b3 = (ih, b4)" by fastforce
  have ft: "finish_footer fc mh ih b4 = b'" "tb_status b' = OK" using fin by (auto simp: tb_Finish_def b0 [symmetric] b1_def [symmetric] f m x Let_def)
  note F4 = finish_footer_ok [OF ft]
  have st3: "tb_status b3 = OK" using F4(1) x by (auto simp: finish_index_def split: if_splits)
  have st2: "tb_status b2 = OK" using st3 m by (auto simp: finish_metaindex_def split: if_splits)
  have "tb_options b2 = tb_options b0 \<and> tb_index_block b2 = tb_index_block b0 \<and> tb_last_key b2 = tb_last_key b0"
    using finish_filter_ok(2) [OF f st2] by (simp add: tb_ext_def b1_def)
  moreover have "tb_options b3 = tb_options b2 \<and> tb_index_block b3 = tb_index_block b2 \<and> tb_last_key b3 = tb_last_key b2"
    using m by (auto simp: finish_metaindex_def WriteBlock_def WriteRawBlock_def Let_def split: prod.splits if_splits)
  ultimately have k: "tb_options b2 = tb_options b0" "tb_options b3 = tb_options b0" "tb_index_block b3 = tb_index_block b0" "tb_last_key b3 = tb_last_key b0" by auto
  show ?thesis
    using finish_filter_len [OF f st2] finish_metaindex_len [OF m st3] finish_index_len [OF x F4(1)] F4(2) ft_DecodeFrom_EncodeTo(2)
    by (simp add: k b1_def kEncodedLength_def kMaxEncodedLength_def)
qed

end

section \<open>A sample table\<close>

text \<open>One entry in a POSIX file, with the default options.\<close>

definition sample_file :: PosixWritableFile where
  "sample_file = PosixWritableFile_init ''000005.ldb'' \<lparr> fd_data = [], fd_pos = 0, fd_synced = 0, fd_events = [] \<rparr>"

definition sample_builder :: "PosixWritableFile TableBuilder" where
  "sample_builder = tb_AddAll no_lib posix_writable [([97], [1])] (TableBuilder_init Options_init sample_file)"

lemma sample_builder_fields:
  "tb_file sample_builder = sample_file" "tb_status sample_builder = OK" "tb_options sample_builder = Options_init" "tb_last_key sample_builder = [97]"
  "bb_CurrentSizeEstimate (tb_data_block sample_builder) \<le> 50" "tb_index_block sample_builder = BlockBuilder_init 1"
  "tb_filter_block sample_builder = None"
proof -
  define b where "b = tb_push [97] [1] (TableBuilder_init Options_init sample_file)"
  have d: "tb_data_block b = bb_Add [97] [1] (BlockBuilder_init 16)"
    by (simp add: b_def tb_push_def TableBuilder_init_def Options_init_def Let_def)
  have sz: "bb_CurrentSizeEstimate (tb_data_block b) \<le> 50"
    using bb_Add_size [of "BlockBuilder_init 16" "[97]" "[1]"] unfolding d by (simp add: BlockBuilder_init_def bb_CurrentSizeEstimate_def)
  have o: "tb_options b = Options_init" by (simp add: b_def tb_push_def TableBuilder_init_def)
  have "opt_block_size Options_init = 4096" "tb_status (TableBuilder_init Options_init sample_file) = OK"
    by (simp_all add: Options_init_def TableBuilder_init_def)
  then have eq: "sample_builder = b" using sz unfolding sample_builder_def by (simp add: tb_AddAll_def posix_table.tb_Add_push b_def [symmetric] o)
  show "tb_file sample_builder = sample_file" "tb_status sample_builder = OK" "tb_options sample_builder = Options_init" "tb_last_key sample_builder = [97]"
    "bb_CurrentSizeEstimate (tb_data_block sample_builder) \<le> 50" "tb_index_block sample_builder = BlockBuilder_init 1"
    "tb_filter_block sample_builder = None"
    unfolding eq using sz o by (simp_all add: b_def tb_push_def TableBuilder_init_def Options_init_def)
qed

lemma sample_table_ok: "tb_Finish no_lib posix_writable sample_builder = (OK, snd (tb_Finish no_lib posix_writable sample_builder))"
  using tb_Finish_quiet [OF posix_quiet, of sample_builder no_lib] sample_builder_fields
  by (simp add: prod_eq_iff pwf_quiet_def sample_file_def PosixWritableFile_init_def)

lemma sample_table_length: "length (pwf_written (tb_file (snd (tb_Finish no_lib posix_writable sample_builder)))) < 2 ^ 32"
proof -
  define b0 where "b0 = tb_Flush no_lib posix_writable sample_builder"
  have q: "pwf_quiet sample_file" by (simp add: pwf_quiet_def sample_file_def PosixWritableFile_init_def)
  have "tb_options b0 = Options_init" "tb_last_key b0 = [97]" "tb_index_block b0 = BlockBuilder_init 1" "tb_filter_block b0 = None"
    using sample_builder_fields by (auto simp: b0_def tb_Flush_def WriteBlock_def WriteRawBlock_def Let_def split: prod.splits)
  moreover have "length (pwf_written (tb_file b0)) \<le> 60"
    using posix_table.tb_Flush_len [of sample_builder] tb_Flush_quiet [OF posix_quiet, of sample_builder no_lib] sample_builder_fields q
    by (simp add: b0_def sample_file_def PosixWritableFile_init_def pwf_written_def kBlockTrailerSize_def)
  ultimately show ?thesis using posix_table.tb_Finish_len [OF sample_table_ok b0_def]
    by (simp add: Options_init_def BytewiseComparator_def BlockBuilder_init_def bb_CurrentSizeEstimate_def)
qed

section \<open>Properties\<close>

text \<open>
  C3: A table written by \<open>TableBuilder\<close> is read back by \<open>Table\<close>.  Let sorted entries be added to a builder on an
  empty file and let \<open>Finish\<close> succeed, with any comparator, compression libraries, file class and filter policy that
  keep their contracts.  Then \<open>Table::Open\<close> succeeds on any file that holds the written bytes.  With any sound
  block cache the table's iterator scans exactly the entries, in both directions and from every seek target, and then
  ends; after any sequence of calls it stands where a cursor into the entries stands.
  \<open>InternalGet\<close> returns every stored entry under its key, and for any other key nothing or the first entry after
  it.  The blocks put into the cache keep it sound.
\<close>

theorem table_roundtrip:
  assumes cmp: "comparator_contract cmp key_ok" and lib: "block_codec lib" and wfile: "writable_file fc written stored durable clean"
    and opt: "opt_comparator options = cmp" "1 \<le> opt_block_restart_interval options"
    and policy: "\<forall>p. opt_filter_policy options = Some p \<longrightarrow> filter_policy_contract p \<and> length (fp_Name p) < 2 ^ 30"
    and es: "sorted_entries cmp key_ok es" "table_size es < 2 ^ 32"
    and build: "written f = []" "tb_Finish lib fc (tb_AddAll lib fc es (TableBuilder_init options f)) = (OK, b)"
    and W: "W = written (tb_file b)" "length W < 2 ^ 32" "raf_holds raf W"
  shows "\<exists>t bs. Table_Open lib cache_id options raf (length W) = (OK, Some t) \<and> cache_ok options bs cache_id (Some (\<lambda>_. None))
    \<and> (length (bl_data (t_index_block t)) < 2 ^ 32 \<longrightarrow>
        (\<forall>cache ro. cache_ok options bs cache_id cache \<longrightarrow>
           table_serves cmp key_ok lib cache t ro es
           \<and> (\<forall>lookup x key blk. cache = Some lookup \<longrightarrow> x \<in> set bs
                \<longrightarrow> snd (BlockReader lib cache t ro (bh_EncodeTo (pl_handle x) [])) = Some (key, blk)
                \<longrightarrow> cache_ok options bs cache_id (Some (lookup(key \<mapsto> blk))))))"
proof -
  have tb: "table_build cmp key_ok lib fc written stored durable clean" using cmp lib wfile by (rule table_build.intro)
  have len: "length W < 2 ^ 64" using W(2) by simp
  have fp: "filter_policy_contract p" "length (fp_Name p) < 2 ^ 30" if "opt_filter_policy options = Some p" for p using policy that by auto
  obtain bs ix where f: "table_file cmp key_ok lib options W bs ix" "concat (map pl_entries bs) = es"
    using table_build.built_table [OF tb build(1) opt(1) es(1) fp(1) build(2)] len unfolding W(1) by blast
  obtain t where t: "Table_Open lib cache_id options raf (length W) = (OK, Some t)" "table_open cmp key_ok lib options W bs ix t" "t_cache_id t = cache_id"
    using Table_Open_file [OF f(1) W(3) len opt(2) fp(2)] by blast
  have "sizes_ok bs" using table_size_part [OF f(2)] es(2) by (fastforce simp: sizes_ok_def)
  moreover have "bl_data (t_index_block t) = block_of 1 ix" using t(2) by (auto simp: table_open_def Block_init_def Let_def)
  ultimately have serves: "table_serves cmp key_ok lib cache t ro es"
    if "length (bl_data (t_index_block t)) < 2 ^ 32" "cache_ok options bs cache_id cache" for cache ro
    using table_open_serves [OF cmp t(2) _ W(2) _ _ opt(2,1), of cache ro] that policy t(3) f(2) by simp
  show ?thesis
  proof (rule exI [of _ t], rule exI [of _ bs], intro conjI impI allI, goal_cases)
    case (4 cache ro lookup x key blk)
    then show ?case using BlockReader_cache_ok [OF t(2) _ _ len, of lookup x ro key blk] t(3) by simp
  qed (use t(1) serves in \<open>simp_all add: cache_ok_def\<close>)
qed

lemma ReadBlock_mapped_length:
  "ReadBlock no_lib (posix_mmap name W) ro h = (OK, c) \<Longrightarrow> length (bc_data c) \<le> length W"
  by (auto simp: ReadBlock_def no_lib_def Snappy_GetUncompressedLength_def Zstd_GetUncompressedLength_def posix_mmap_def mmap_Read_def Let_def
      split: if_splits prod.splits)

lemma Table_Open_mapped_index:
  assumes "opt_filter_policy options = None" "Table_Open no_lib cache_id options (posix_mmap name W) sz = (OK, Some t)"
  shows "length (bl_data (t_index_block t)) \<le> length W"
  using assms(2) ReadBlock_mapped_length [of name W]
  by (fastforce simp: Table_Open_def ReadMeta_def assms(1) Block_init_def Let_def split: if_splits prod.splits)

theorem table_roundtrip_witness:
  "let W = pwf_written (tb_file (snd (tb_Finish no_lib posix_writable sample_builder)))
   in \<exists>t. Table_Open no_lib 7 Options_init (posix_mmap ''000005.ldb'' W) (length W) = (OK, Some t)
        \<and> table_serves BytewiseComparator (\<lambda>_. True) no_lib (Some (\<lambda>_. None)) t ReadOptions_init [([97], [1])]"
proof -
  define b where "b = snd (tb_Finish no_lib posix_writable sample_builder)"
  define W where "W = pwf_written (tb_file b)"
  have 1: "opt_comparator Options_init = BytewiseComparator" "1 \<le> opt_block_restart_interval Options_init"
    "\<forall>p. opt_filter_policy Options_init = Some p \<longrightarrow> filter_policy_contract p \<and> length (fp_Name p) < 2 ^ 30"
    by (simp_all add: Options_init_def)
  have 2: "sorted_entries BytewiseComparator (\<lambda>_. True) [([97], [1])]" "table_size [([97], [1])] < 2 ^ 32"
    by (simp_all add: sorted_entries_def table_size_def)
  have 3: "pwf_written sample_file = []" by (simp add: sample_file_def PosixWritableFile_init_def pwf_written_def)
  have 4: "tb_Finish no_lib posix_writable (tb_AddAll no_lib posix_writable [([97], [1])] (TableBuilder_init Options_init sample_file)) = (OK, b)"
    using sample_table_ok by (simp add: b_def sample_builder_def)
  have 5: "W = pwf_written (tb_file b)" "length W < 2 ^ 32" using sample_table_length by (simp_all add: W_def b_def)
  have 6: "raf_holds (posix_mmap ''000005.ldb'' W) W" by (rule raf_holds_posix)
  note R = table_roundtrip [OF bytewise.comparator_contract_axioms no_codec.block_codec_axioms pwf.writable_file_axioms 1 2 3 4 5 6, of 7]
  obtain t bs where t: "Table_Open no_lib 7 Options_init (posix_mmap ''000005.ldb'' W) (length W) = (OK, Some t)"
    and c: "cache_ok Options_init bs 7 (Some (\<lambda>_. None))"
    and s: "\<And>cache ro. length (bl_data (t_index_block t)) < 2 ^ 32 \<Longrightarrow> cache_ok Options_init bs 7 cache
      \<Longrightarrow> table_serves BytewiseComparator (\<lambda>_. True) no_lib cache t ro [([97], [1])]"
    using R by blast
  have "length (bl_data (t_index_block t)) \<le> length W"
    using Table_Open_mapped_index [OF _ t] by (simp add: Options_init_def)
  then have "table_serves BytewiseComparator (\<lambda>_. True) no_lib (Some (\<lambda>_. None)) t ReadOptions_init [([97], [1])]"
    using s [OF _ c, of ReadOptions_init] 5(2) by simp
  with t show ?thesis unfolding W_def b_def Let_def by blast
qed

end
