(* ===== verification/Filenames.thy ===== *)
theory Filenames
  imports RDB_Prelude
begin

text \<open>
  Printing and parsing of numbers (\<^verbatim>\<open>src/util/logging.cc\<close>) and the names of the files of a database
  (\<^verbatim>\<open>src/db/filename.cc\<close>).  \<open>digits\<close> is what \<^verbatim>\<open>printf\<close> writes for \<^verbatim>\<open>%llu\<close>, \<open>pad6\<close> for \<^verbatim>\<open>%06llu\<close>.
\<close>

section \<open>Numbers as text\<close>

definition digit :: "nat \<Rightarrow> char" where
  "digit d = char_of (48 + d)"

fun digits :: "nat \<Rightarrow> string" where
  "digits n = (if n < 10 then [digit n] else digits (n div 10) @ [digit (n mod 10)])"

declare digits.simps [simp del]

definition pad6 :: "nat \<Rightarrow> string" where
  "pad6 n = replicate (6 - length (digits n)) (CHR ''0'') @ digits n"

definition AppendNumberTo :: "string \<Rightarrow> u64 \<Rightarrow> string" where
  "AppendNumberTo s num = s @ digits (unat num)"

definition NumberToString :: "u64 \<Rightarrow> string" where
  "NumberToString num = AppendNumberTo [] num"

definition hex_digit :: "nat \<Rightarrow> char" where
  "hex_digit d = ''0123456789abcdef'' ! d"

text \<open>\<^verbatim>\<open>char\<close> is signed, so that bytes above 127 are negative and are escaped.\<close>

definition escape_byte :: "byte \<Rightarrow> string" where
  "escape_byte b =
     (if sint b \<ge> 32 \<and> sint b \<le> 126 then [char_of (unat b)]
      else [char_of (92::nat), CHR ''x'', hex_digit (unat b div 16), hex_digit (unat b mod 16)])"

definition AppendEscapedStringTo :: "string \<Rightarrow> bytes \<Rightarrow> string" where
  "AppendEscapedStringTo s value = foldl (\<lambda>s b. s @ escape_byte b) s value"

definition EscapeString :: "bytes \<Rightarrow> string" where
  "EscapeString value = AppendEscapedStringTo [] value"

definition kMaxUint64 :: u64 where "kMaxUint64 = - 1"

definition kLastDigitOfMaxUint64 :: byte where
  "kLastDigitOfMaxUint64 = 48 + ucast (kMaxUint64 mod 10)"

text \<open>\<open>None\<close> is the early return on overflow; otherwise the value, the digits consumed and the rest.\<close>

fun consume_digits :: "u64 \<Rightarrow> nat \<Rightarrow> string \<Rightarrow> (u64 \<times> nat \<times> string) option" where
  "consume_digits value n [] = Some (value, n, [])"
| "consume_digits value n (c # cs) =
     (let ch = of_char c :: byte
      in if ch < 48 \<or> ch > 57 then Some (value, n, c # cs)
         else if value > kMaxUint64 div 10 \<or> (value = kMaxUint64 div 10 \<and> ch > kLastDigitOfMaxUint64) then None
         else consume_digits (value * 10 + ucast (ch - 48)) (n + 1) cs)"

definition ConsumeDecimalNumber :: "string \<Rightarrow> u64 \<Rightarrow> bool \<times> string \<times> u64" where
  "ConsumeDecimalNumber inp val =
     (case consume_digits 0 0 inp of
        None \<Rightarrow> (False, inp, val)
      | Some (value, digits_consumed, rest) \<Rightarrow> (digits_consumed \<noteq> 0, rest, value))"

section \<open>File names\<close>

datatype FileType =
  kLogFile | kDBLockFile | kTableFile | kDescriptorFile | kCurrentFile | kTempFile | kInfoLogFile

definition MakeFileName :: "string \<Rightarrow> u64 \<Rightarrow> string \<Rightarrow> string" where
  "MakeFileName dbname number suffix' = dbname @ ''/'' @ pad6 (unat number) @ ''.'' @ suffix'"

text \<open>
  The functions below that take a number assert that it is positive; the assertions are not part of the model, which is that of a
  release build, and the names of file number 0 are defined.
\<close>

definition LogFileName :: "string \<Rightarrow> u64 \<Rightarrow> string" where
  "LogFileName dbname number = MakeFileName dbname number ''log''"

definition TableFileName :: "string \<Rightarrow> u64 \<Rightarrow> string" where
  "TableFileName dbname number = MakeFileName dbname number ''ldb''"

definition SSTTableFileName :: "string \<Rightarrow> u64 \<Rightarrow> string" where
  "SSTTableFileName dbname number = MakeFileName dbname number ''sst''"

definition DescriptorFileName :: "string \<Rightarrow> u64 \<Rightarrow> string" where
  "DescriptorFileName dbname number = dbname @ ''/MANIFEST-'' @ pad6 (unat number)"

definition CurrentFileName :: "string \<Rightarrow> string" where
  "CurrentFileName dbname = dbname @ ''/CURRENT''"

definition LockFileName :: "string \<Rightarrow> string" where
  "LockFileName dbname = dbname @ ''/LOCK''"

definition TempFileName :: "string \<Rightarrow> u64 \<Rightarrow> string" where
  "TempFileName dbname number = MakeFileName dbname number ''dbtmp''"

definition InfoLogFileName :: "string \<Rightarrow> string" where
  "InfoLogFileName dbname = dbname @ ''/LOG''"

definition OldInfoLogFileName :: "string \<Rightarrow> string" where
  "OldInfoLogFileName dbname = dbname @ ''/LOG.old''"

definition ParseFileName :: "string \<Rightarrow> (u64 \<times> FileType) option" where
  "ParseFileName filename =
     (if filename = ''CURRENT'' then Some (0, kCurrentFile)
      else if filename = ''LOCK'' then Some (0, kDBLockFile)
      else if filename = ''LOG'' \<or> filename = ''LOG.old'' then Some (0, kInfoLogFile)
      else if prefix ''MANIFEST-'' filename then
        (case ConsumeDecimalNumber (drop (length ''MANIFEST-'') filename) 0 of
           (found, rest, num) \<Rightarrow>
             if \<not> found then None else if rest \<noteq> [] then None else Some (num, kDescriptorFile))
      else
        (case ConsumeDecimalNumber filename 0 of
           (found, rest, num) \<Rightarrow>
             if \<not> found then None
             else if rest = ''.log'' then Some (num, kLogFile)
             else if rest = ''.sst'' \<or> rest = ''.ldb'' then Some (num, kTableFile)
             else if rest = ''.dbtmp'' then Some (num, kTempFile)
             else None))"

section \<open>Decimal numbers\<close>

definition is_digit :: "char \<Rightarrow> bool" where
  "is_digit c \<longleftrightarrow> 48 \<le> (of_char c :: nat) \<and> (of_char c :: nat) \<le> 57"

definition decimal :: "nat \<Rightarrow> string \<Rightarrow> nat" where
  "decimal = foldl (\<lambda>a c. a * 10 + (of_char c - 48))"

lemma decimal_simps [simp]: "decimal a [] = a" "decimal a (c # cs) = decimal (a * 10 + (of_char c - 48)) cs"
  "decimal a (xs @ ys) = decimal (decimal a xs) ys"
  by (simp_all add: decimal_def)

lemma decimal_ge: "a \<le> decimal a cs"
proof (induction cs arbitrary: a)
  case (Cons c cs)
  have "a \<le> a * 10 + (of_char c - 48)" by simp
  also have "\<dots> \<le> decimal a (c # cs)" using Cons by simp
  finally show ?case .
qed simp

lemma of_char_digit: "d < 10 \<Longrightarrow> of_char (digit d) = 48 + d"
  by (simp add: digit_def)

lemma is_digit_digit: "d < 10 \<Longrightarrow> is_digit (digit d)"
  by (simp add: is_digit_def of_char_digit)

lemma digits_digits: "list_all is_digit (digits n)" "digits n \<noteq> []"
proof (induction n rule: digits.induct)
  case (1 n)
  { case 1 then show ?case using "1.IH" by (cases "n < 10") (simp_all add: digits.simps [of n] is_digit_digit) }
  { case 2 then show ?case by (simp add: digits.simps [of n]) }
qed

lemma decimal_digits: "decimal 0 (digits n) = n"
proof (induction n rule: digits.induct)
  case (1 n)
  then show ?case by (cases "n < 10") (simp_all add: digits.simps [of n] of_char_digit)
qed

lemma decimal_zeros: "decimal 0 (replicate k (CHR ''0'') @ cs) = decimal 0 cs"
  by (induction k) simp_all

lemma pad6_digits: "list_all is_digit (pad6 n)" "pad6 n \<noteq> []" "decimal 0 (pad6 n) = n"
  using digits_digits [of n] decimal_zeros by (auto simp: pad6_def list_all_iff decimal_digits is_digit_def)

lemma digit_byte:
  "unat (of_char c :: byte) = of_char c" "is_digit c \<longleftrightarrow> \<not> ((of_char c :: byte) < 48 \<or> (of_char c :: byte) > 57)"
proof -
  have "(of_char c :: byte) = of_nat (of_char c)" by (simp add: of_nat_of_char)
  moreover have "(of_char c :: nat) < 256" by simp
  ultimately show u: "unat (of_char c :: byte) = of_char c" by (simp only: unat_of_nat) (simp add: take_bit_nat_eq_self)
  show "is_digit c \<longleftrightarrow> \<not> ((of_char c :: byte) < 48 \<or> (of_char c :: byte) > 57)"
    unfolding word_less_nat_alt u is_digit_def by auto
qed

text \<open>\<open>ConsumeDecimalNumber\<close> reads the longest decimal prefix, and fails exactly when it does not fit 64 bits.\<close>

lemma consume_digits_eq:
  assumes "list_all is_digit ds" "rest = [] \<or> \<not> is_digit (hd rest)"
  shows "consume_digits v n (ds @ rest) =
    (if decimal (unat v) ds < 2 ^ 64 then Some (of_nat (decimal (unat v) ds), n + length ds, rest) else None)"
  using assms(1)
proof (induction ds arbitrary: v n)
  case Nil
  then show ?case using assms(2) unsigned_less [of v] by (cases rest) (auto simp: digit_byte(2) Let_def)
next
  case (Cons c ds)
  define ch where "ch = (of_char c :: byte)"
  define d where "d = (of_char c :: nat) - 48"
  have c: "is_digit c" "d \<le> 9" using Cons.prems by (auto simp: is_digit_def d_def)
  have ch: "unat ch = 48 + d" using c(1) digit_byte(1) [of c] by (simp add: ch_def d_def is_digit_def)
  have over: "(v > kMaxUint64 div 10 \<or> (v = kMaxUint64 div 10 \<and> ch > kLastDigitOfMaxUint64)) \<longleftrightarrow> \<not> unat v * 10 + d < 2 ^ 64"
  proof -
    have k: "unat (kMaxUint64 div 10) = 1844674407370955161" "unat kLastDigitOfMaxUint64 = 53"
      by (simp_all add: kMaxUint64_def kLastDigitOfMaxUint64_def unat_div_distrib)
    show ?thesis unfolding word_less_nat_alt word_unat_eq_iff k ch using c(2) by auto
  qed
  show ?case
  proof (cases "unat v * 10 + d < 2 ^ 64")
    case True
    have "unat (v * 10 + ucast (ch - 48) :: u64) = unat v * 10 + d"
    proof -
      have "unat (ch - 48) = d" using ch by (simp add: unat_sub word_le_nat_alt)
      then have "unat (ucast (ch - 48) :: u64) = d" using c(2) by (simp add: unsigned_ucast_eq take_bit_nat_eq_self)
      then show ?thesis using True by (simp add: unat_word_ariths)
    qed
    then show ?thesis using Cons True over c(1) digit_byte(2) [of c] by (auto simp: ch_def [symmetric] d_def [symmetric] Let_def)
  next
    case False
    then have "\<not> decimal (unat v * 10 + d) ds < 2 ^ 64" using decimal_ge [of "unat v * 10 + d" ds] by linarith
    then show ?thesis using False over c(1) digit_byte(2) [of c] by (simp add: ch_def [symmetric] d_def [symmetric] Let_def)
  qed
qed

lemma ConsumeDecimalNumber_eq:
  assumes "list_all is_digit ds" "rest = [] \<or> \<not> is_digit (hd rest)"
  shows "ConsumeDecimalNumber (ds @ rest) val =
    (if decimal 0 ds < 2 ^ 64 then (ds \<noteq> [], rest, of_nat (decimal 0 ds)) else (False, ds @ rest, val))"
  using consume_digits_eq [OF assms, of 0 0] by (simp add: ConsumeDecimalNumber_def)

lemma consume_pad6:
  "rest = [] \<or> \<not> is_digit (hd rest) \<Longrightarrow> ConsumeDecimalNumber (pad6 (unat number) @ rest) val = (True, rest, number)"
  using ConsumeDecimalNumber_eq [OF pad6_digits(1) [of "unat number"]] pad6_digits(2,3) [of "unat number"] unsigned_less [of number]
  by simp

lemma pad6_name: "c \<in> {CHR ''C'', CHR ''L'', CHR ''M''} \<Longrightarrow> pad6 n @ xs \<noteq> c # ys" "\<not> prefix ''MANIFEST-'' (pad6 n @ xs)"
proof -
  obtain d ds where d: "pad6 n = d # ds" "is_digit d" using pad6_digits(1,2) [of n] by (cases "pad6 n") auto
  then show "c \<in> {CHR ''C'', CHR ''L'', CHR ''M''} \<Longrightarrow> pad6 n @ xs \<noteq> c # ys" "\<not> prefix ''MANIFEST-'' (pad6 n @ xs)"
    by (auto simp: is_digit_def)
qed

lemma parse_numbered:
  "\<not> is_digit (hd suf) \<Longrightarrow> suf \<noteq> [] \<Longrightarrow> ParseFileName (pad6 (unat number) @ suf) =
     (if suf = ''.log'' then Some (number, kLogFile) else if suf = ''.sst'' \<or> suf = ''.ldb'' then Some (number, kTableFile)
      else if suf = ''.dbtmp'' then Some (number, kTempFile) else None)"
  using pad6_name(1) [of _ "unat number" suf] pad6_name(2) [of "unat number" suf] consume_pad6 [of suf number 0] by (simp add: ParseFileName_def)

section \<open>Properties\<close>

text \<open>
  C27: Every file name the database generates parses back to its type and number, for every directory and every
  64-bit number, including numbers of more than six digits.
\<close>

theorem file_names_parse:
  "ParseFileName (drop (length dbname + 1) (LogFileName dbname n)) = Some (n, kLogFile)
   \<and> ParseFileName (drop (length dbname + 1) (TableFileName dbname n)) = Some (n, kTableFile)
   \<and> ParseFileName (drop (length dbname + 1) (SSTTableFileName dbname n)) = Some (n, kTableFile)
   \<and> ParseFileName (drop (length dbname + 1) (TempFileName dbname n)) = Some (n, kTempFile)
   \<and> ParseFileName (drop (length dbname + 1) (DescriptorFileName dbname n)) = Some (n, kDescriptorFile)
   \<and> ParseFileName (drop (length dbname + 1) (CurrentFileName dbname)) = Some (0, kCurrentFile)
   \<and> ParseFileName (drop (length dbname + 1) (LockFileName dbname)) = Some (0, kDBLockFile)
   \<and> ParseFileName (drop (length dbname + 1) (InfoLogFileName dbname)) = Some (0, kInfoLogFile)
   \<and> ParseFileName (drop (length dbname + 1) (OldInfoLogFileName dbname)) = Some (0, kInfoLogFile)"
proof -
  have "ParseFileName (''MANIFEST-'' @ pad6 (unat n)) = Some (n, kDescriptorFile)"
    using consume_pad6 [of "[]" n 0] by (simp add: ParseFileName_def)
  moreover have "\<not> is_digit (CHR ''.'')" by (simp add: is_digit_def)
  ultimately show ?thesis
    using parse_numbered [of "''.log''" n] parse_numbered [of "''.ldb''" n] parse_numbered [of "''.sst''" n] parse_numbered [of "''.dbtmp''" n]
    by (simp add: LogFileName_def TableFileName_def SSTTableFileName_def TempFileName_def MakeFileName_def DescriptorFileName_def)
       (simp add: ParseFileName_def CurrentFileName_def LockFileName_def InfoLogFileName_def OldInfoLogFileName_def)
qed

text \<open>
  C28: \<open>ConsumeDecimalNumber\<close> reads the longest run of digits, and reports an error without touching its arguments
  exactly when the number does not fit 64 bits; no digit is an error too.
\<close>

theorem ConsumeDecimalNumber_overflow:
  assumes "list_all is_digit ds" "rest = [] \<or> \<not> is_digit (hd rest)"
  shows "ConsumeDecimalNumber (ds @ rest) val =
    (if ds = [] then (False, rest, 0)
     else if decimal 0 ds < 2 ^ 64 then (True, rest, of_nat (decimal 0 ds))
     else (False, ds @ rest, val))"
  using ConsumeDecimalNumber_eq [OF assms] by simp

theorem ConsumeDecimalNumber_overflow_witness:
  "ConsumeDecimalNumber (''18446744073709551616'' @ ''.log'') 7 = (False, ''18446744073709551616.log'', 7)
   \<and> ConsumeDecimalNumber (''18446744073709551615'' @ ''.log'') 7 = (True, ''.log'', 18446744073709551615)"
  using ConsumeDecimalNumber_overflow [of "''18446744073709551616''" "''.log''" 7] ConsumeDecimalNumber_overflow [of "''18446744073709551615''" "''.log''" 7]
  by (simp add: is_digit_def)

end
