(* ===== verification/Version_Edit.thy ===== *)
theory Version_Edit
  imports Dbformat Filenames "HOL-Library.Product_Lexorder"
begin

text \<open>
  Version edits (\<^verbatim>\<open>src/db/version_edit.cc\<close>), the records of the manifest.  An internal key is its encoding;
  \<open>std::set\<close> of deleted files is its sorted list of elements.  \<open>Clear\<close> does not reset the flag of the next
  file number, and the constructor only calls \<open>Clear\<close>: the model starts from any value of the flag.
\<close>

record FileMetaData =
  fm_refs :: int
  fm_allowed_seeks :: int
  fm_number :: u64
  fm_file_size :: u64
  fm_smallest :: bytes
  fm_largest :: bytes

definition FileMetaData_init :: FileMetaData where
  "FileMetaData_init =
     \<lparr> fm_refs = 0, fm_allowed_seeks = 1073741824, fm_number = 0, fm_file_size = 0, fm_smallest = [], fm_largest = [] \<rparr>"

record VersionEdit =
  ve_comparator :: bytes
  ve_log_number :: u64
  ve_prev_log_number :: u64
  ve_next_file_number :: u64
  ve_last_sequence :: u64
  ve_has_comparator :: bool
  ve_has_log_number :: bool
  ve_has_prev_log_number :: bool
  ve_has_next_file_number :: bool
  ve_has_last_sequence :: bool
  ve_compact_pointers :: "(nat \<times> bytes) list"
  ve_deleted_files :: "(nat \<times> u64) list"
  ve_new_files :: "(nat \<times> FileMetaData) list"

definition ve_Clear :: "VersionEdit \<Rightarrow> VersionEdit" where
  "ve_Clear e =
     e\<lparr> ve_comparator := [], ve_log_number := 0, ve_prev_log_number := 0, ve_last_sequence := 0,
        ve_next_file_number := 0, ve_has_comparator := False, ve_has_log_number := False,
        ve_has_prev_log_number := False, ve_has_last_sequence := False,
        ve_compact_pointers := [], ve_deleted_files := [], ve_new_files := [] \<rparr>"

definition VersionEdit_init :: "bool \<Rightarrow> VersionEdit" where
  "VersionEdit_init garbage =
     \<lparr> ve_comparator = [], ve_log_number = 0, ve_prev_log_number = 0, ve_next_file_number = 0, ve_last_sequence = 0,
       ve_has_comparator = False, ve_has_log_number = False, ve_has_prev_log_number = False,
       ve_has_next_file_number = garbage, ve_has_last_sequence = False,
       ve_compact_pointers = [], ve_deleted_files = [], ve_new_files = [] \<rparr>"

definition SetComparatorName :: "bytes \<Rightarrow> VersionEdit \<Rightarrow> VersionEdit" where
  "SetComparatorName name e = e\<lparr> ve_has_comparator := True, ve_comparator := name \<rparr>"

definition SetLogNumber :: "u64 \<Rightarrow> VersionEdit \<Rightarrow> VersionEdit" where
  "SetLogNumber num e = e\<lparr> ve_has_log_number := True, ve_log_number := num \<rparr>"

definition SetPrevLogNumber :: "u64 \<Rightarrow> VersionEdit \<Rightarrow> VersionEdit" where
  "SetPrevLogNumber num e = e\<lparr> ve_has_prev_log_number := True, ve_prev_log_number := num \<rparr>"

definition SetNextFile :: "u64 \<Rightarrow> VersionEdit \<Rightarrow> VersionEdit" where
  "SetNextFile num e = e\<lparr> ve_has_next_file_number := True, ve_next_file_number := num \<rparr>"

definition SetLastSequence :: "u64 \<Rightarrow> VersionEdit \<Rightarrow> VersionEdit" where
  "SetLastSequence seq e = e\<lparr> ve_has_last_sequence := True, ve_last_sequence := seq \<rparr>"

definition SetCompectorPointer :: "nat \<Rightarrow> bytes \<Rightarrow> VersionEdit \<Rightarrow> VersionEdit" where
  "SetCompectorPointer level key e = e\<lparr> ve_compact_pointers := ve_compact_pointers e @ [(level, key)] \<rparr>"

definition ve_AddFile :: "nat \<Rightarrow> u64 \<Rightarrow> u64 \<Rightarrow> bytes \<Rightarrow> bytes \<Rightarrow> VersionEdit \<Rightarrow> VersionEdit" where
  "ve_AddFile level file file_size smallest largest e =
     e\<lparr> ve_new_files := ve_new_files e @
          [(level, FileMetaData_init\<lparr> fm_number := file, fm_file_size := file_size,
                                      fm_smallest := smallest, fm_largest := largest \<rparr>)] \<rparr>"

definition ve_RemoveFile :: "nat \<Rightarrow> u64 \<Rightarrow> VersionEdit \<Rightarrow> VersionEdit" where
  "ve_RemoveFile level file e = e\<lparr> ve_deleted_files := insort_insert (level, file) (ve_deleted_files e) \<rparr>"

section \<open>Encoding\<close>

definition kComparator :: u32 where "kComparator = 1"
definition kLogNumber :: u32 where "kLogNumber = 2"
definition kNextFileNumber :: u32 where "kNextFileNumber = 3"
definition kLastSequence :: u32 where "kLastSequence = 4"
definition kCompactPointer :: u32 where "kCompactPointer = 5"
definition kDeleteFile :: u32 where "kDeleteFile = 6"
definition kNewFile :: u32 where "kNewFile = 7"
definition kPrevLogNumber :: u32 where "kPrevLogNumber = 9"

lemmas tag_defs = kComparator_def kLogNumber_def kNextFileNumber_def kLastSequence_def kCompactPointer_def
  kDeleteFile_def kNewFile_def kPrevLogNumber_def

definition encode_compact_pointer :: "nat \<times> bytes \<Rightarrow> bytes \<Rightarrow> bytes" where
  "encode_compact_pointer p dst =
     PutLengthPrefixedSlice (PutVarint32 (PutVarint32 dst kCompactPointer) (of_nat (fst p))) (snd p)"

definition encode_deleted_file :: "nat \<times> u64 \<Rightarrow> bytes \<Rightarrow> bytes" where
  "encode_deleted_file p dst = PutVarint64 (PutVarint32 (PutVarint32 dst kDeleteFile) (of_nat (fst p))) (snd p)"

definition encode_new_file :: "nat \<times> FileMetaData \<Rightarrow> bytes \<Rightarrow> bytes" where
  "encode_new_file p dst =
     (let f = snd p;
          dst = PutVarint32 dst kNewFile;
          dst = PutVarint32 dst (of_nat (fst p));
          dst = PutVarint64 dst (fm_number f);
          dst = PutVarint64 dst (fm_file_size f);
          dst = PutLengthPrefixedSlice dst (fm_smallest f)
      in PutLengthPrefixedSlice dst (fm_largest f))"

definition ve_EncodeTo :: "VersionEdit \<Rightarrow> bytes \<Rightarrow> bytes" where
  "ve_EncodeTo e dst =
     (let dst = (if ve_has_comparator e then PutLengthPrefixedSlice (PutVarint32 dst kComparator) (ve_comparator e) else dst);
          dst = (if ve_has_log_number e then PutVarint64 (PutVarint32 dst kLogNumber) (ve_log_number e) else dst);
          dst = (if ve_has_prev_log_number e then PutVarint64 (PutVarint32 dst kPrevLogNumber) (ve_prev_log_number e) else dst);
          dst = (if ve_has_next_file_number e then PutVarint64 (PutVarint32 dst kNextFileNumber) (ve_next_file_number e) else dst);
          dst = (if ve_has_last_sequence e then PutVarint64 (PutVarint32 dst kLastSequence) (ve_last_sequence e) else dst);
          dst = fold encode_compact_pointer (ve_compact_pointers e) dst;
          dst = fold encode_deleted_file (ve_deleted_files e) dst
      in fold encode_new_file (ve_new_files e) dst)"

section \<open>Decoding\<close>

definition GetLevel :: "bytes \<Rightarrow> (nat \<times> bytes) option" where
  "GetLevel input =
     (case GetVarint32 input of
        Some (v, input) \<Rightarrow> if unat v < kNumLevels then Some (unat v, input) else None
      | None \<Rightarrow> None)"

text \<open>\<open>InternalKey::DecodeFrom\<close> refuses the empty key.\<close>

definition GetInternalKey :: "bytes \<Rightarrow> (bytes \<times> bytes) option" where
  "GetInternalKey input =
     (case GetLengthPrefixedSlice input of
        Some (s, input) \<Rightarrow> if s \<noteq> [] then Some (s, input) else None
      | None \<Rightarrow> None)"

text \<open>One field: the message on an error, otherwise the rest of the input and the edit.\<close>

definition decode_field :: "u32 \<Rightarrow> bytes \<Rightarrow> VersionEdit \<Rightarrow> string + bytes \<times> VersionEdit" where
  "decode_field tag input e =
     (if tag = kComparator then
        (case GetLengthPrefixedSlice input of
           Some (s, input) \<Rightarrow> Inr (input, e\<lparr> ve_comparator := s, ve_has_comparator := True \<rparr>)
         | None \<Rightarrow> Inl ''comparator name'')
      else if tag = kLogNumber then
        (case GetVarint64 input of
           Some (number, input) \<Rightarrow> Inr (input, e\<lparr> ve_log_number := number, ve_has_log_number := True \<rparr>)
         | None \<Rightarrow> Inl ''log number'')
      else if tag = kPrevLogNumber then
        (case GetVarint64 input of
           Some (number, input) \<Rightarrow> Inr (input, e\<lparr> ve_prev_log_number := number, ve_has_prev_log_number := True \<rparr>)
         | None \<Rightarrow> Inl ''prev log number'')
      else if tag = kNextFileNumber then
        (case GetVarint64 input of
           Some (number, input) \<Rightarrow> Inr (input, e\<lparr> ve_next_file_number := number, ve_has_next_file_number := True \<rparr>)
         | None \<Rightarrow> Inl ''next file number'')
      else if tag = kLastSequence then
        (case GetVarint64 input of
           Some (number, input) \<Rightarrow> Inr (input, e\<lparr> ve_last_sequence := number, ve_has_last_sequence := True \<rparr>)
         | None \<Rightarrow> Inl ''last sequence'')
      else if tag = kCompactPointer then
        (case GetLevel input of
           Some (level, input) \<Rightarrow>
             (case GetInternalKey input of
                Some (key, input) \<Rightarrow> Inr (input, e\<lparr> ve_compact_pointers := ve_compact_pointers e @ [(level, key)] \<rparr>)
              | None \<Rightarrow> Inl ''compaction pointer'')
         | None \<Rightarrow> Inl ''compaction pointer'')
      else if tag = kDeleteFile then
        (case GetLevel input of
           Some (level, input) \<Rightarrow>
             (case GetVarint64 input of
                Some (number, input) \<Rightarrow> Inr (input, e\<lparr> ve_deleted_files := insort_insert (level, number) (ve_deleted_files e) \<rparr>)
              | None \<Rightarrow> Inl ''delete file'')
         | None \<Rightarrow> Inl ''delete file'')
      else if tag = kNewFile then
        (case Option.bind (GetLevel input) (\<lambda>(level, input).
              Option.bind (GetVarint64 input) (\<lambda>(number, input).
              Option.bind (GetVarint64 input) (\<lambda>(file_size, input).
              Option.bind (GetInternalKey input) (\<lambda>(smallest, input).
              Option.bind (GetInternalKey input) (\<lambda>(largest, input).
                Some (input, level, FileMetaData_init\<lparr> fm_number := number, fm_file_size := file_size,
                                                     fm_smallest := smallest, fm_largest := largest \<rparr>)))))) of
           Some (input, level, f) \<Rightarrow> Inr (input, e\<lparr> ve_new_files := ve_new_files e @ [(level, f)] \<rparr>)
         | None \<Rightarrow> Inl ''new-file entry'')
      else Inl ''unknow tag'')"

lemma get_shorter:
  "GetVarint32 input = Some (v32, rest) \<Longrightarrow> length rest < length input"
  "GetVarint64 input = Some (v64, rest) \<Longrightarrow> length rest < length input"
  "GetLevel input = Some (level, rest) \<Longrightarrow> length rest < length input"
  "GetInternalKey input = Some (key, rest) \<Longrightarrow> length rest < length input"
  using GetVarint32PtrFallback_suffix GetVarint64Ptr_suffix GetLengthPrefixedSlice_shorter
  by (auto simp: GetVarint32_def GetVarint32Ptr_fallback GetVarint64_def GetLevel_def GetInternalKey_def split: option.splits if_splits)

lemma decode_field_shorter: "decode_field tag input e = Inr (rest, e') \<Longrightarrow> length rest < length input"
  by (auto simp: decode_field_def Option.bind_eq_Some_conv dest!: get_shorter GetLengthPrefixedSlice_shorter split: option.splits if_splits)

function decode_loop :: "bytes \<Rightarrow> VersionEdit \<Rightarrow> string option \<times> bytes \<times> VersionEdit" where
  "decode_loop input e =
     (case GetVarint32 input of
        None \<Rightarrow> (None, input, e)
      | Some (tag, input) \<Rightarrow>
          (case decode_field tag input e of
             Inl msg \<Rightarrow> (Some msg, input, e)
           | Inr (input, e) \<Rightarrow> decode_loop input e))"
  by pat_completeness auto
termination
  by (relation "measure (\<lambda>(input, e). length input)") (auto dest!: get_shorter decode_field_shorter)

declare decode_loop.simps [simp del]

definition ve_DecodeFrom :: "bytes \<Rightarrow> VersionEdit \<Rightarrow> status \<times> VersionEdit" where
  "ve_DecodeFrom src e =
     (case decode_loop src (ve_Clear e) of
        (msg, input, e) \<Rightarrow>
          (case (if msg = None \<and> input \<noteq> [] then Some ''invalid tag'' else msg) of
             Some m \<Rightarrow> (mk_status kCorruption ''VersionEdit'' m, e)
           | None \<Rightarrow> (OK, e)))"

section \<open>Debug output\<close>

definition ParsedInternalKey_DebugString :: "ParsedInternalKey \<Rightarrow> string" where
  "ParsedInternalKey_DebugString k =
     [char_of (39::nat)] @ EscapeString (user_key k) @ [char_of (39::nat)] @ '' @ '' @ digits (unat (sequence k))
       @ '' : '' @ digits (unat (type_code (vtype k)))"

definition InternalKey_DebugString :: "bytes \<Rightarrow> string" where
  "InternalKey_DebugString rep =
     (case ParseInternalKey rep of
        Some parsed \<Rightarrow> ParsedInternalKey_DebugString parsed
      | None \<Rightarrow> ''(bad)'' @ EscapeString rep)"

definition newline :: string where "newline = [char_of (10::nat)]"

definition ve_DebugString :: "VersionEdit \<Rightarrow> string" where
  "ve_DebugString e =
     (let r = ''VersionEdit {'';
          r = (if ve_has_comparator e then r @ newline @ '' Comparator: '' @ chars_of (ve_comparator e) else r);
          r = (if ve_has_log_number e then AppendNumberTo (r @ newline @ '' LogNumber: '') (ve_log_number e) else r);
          r = (if ve_has_prev_log_number e then AppendNumberTo (r @ newline @ '' PrevLogNumber: '') (ve_prev_log_number e) else r);
          r = (if ve_has_next_file_number e then AppendNumberTo (r @ newline @ '' NextFileNumber: '') (ve_next_file_number e) else r);
          r = (if ve_has_last_sequence e then AppendNumberTo (r @ newline @ '' LastSeq: '') (ve_last_sequence e) else r);
          r = foldl (\<lambda>r p. AppendNumberTo (r @ newline @ '' CompactPointer: '') (of_nat (fst p)) @ '' '' @ InternalKey_DebugString (snd p))
                r (ve_compact_pointers e);
          r = foldl (\<lambda>r p. AppendNumberTo (AppendNumberTo (r @ newline @ '' RemoveFile: '') (of_nat (fst p)) @ '' '') (snd p))
                r (ve_deleted_files e);
          r = foldl (\<lambda>r p. AppendNumberTo (AppendNumberTo (AppendNumberTo (r @ newline @ '' AddFile: '') (of_nat (fst p)) @ '' '')
                  (fm_number (snd p)) @ '' '') (fm_file_size (snd p)) @ '' '' @ InternalKey_DebugString (fm_smallest (snd p))
                  @ '' '' @ InternalKey_DebugString (fm_largest (snd p)))
                r (ve_new_files e)
      in r @ newline @ ''}'' @ newline)"

section \<open>Round trip\<close>

text \<open>The edits the encoder is meant for: levels in range, keys present, fields without a flag at their defaults.\<close>

definition ve_ok :: "VersionEdit \<Rightarrow> bool" where
  "ve_ok e \<longleftrightarrow>
     length (ve_comparator e) < 2 ^ 32
     \<and> (ve_has_comparator e \<or> ve_comparator e = []) \<and> (ve_has_log_number e \<or> ve_log_number e = 0)
     \<and> (ve_has_prev_log_number e \<or> ve_prev_log_number e = 0) \<and> (ve_has_next_file_number e \<or> ve_next_file_number e = 0)
     \<and> (ve_has_last_sequence e \<or> ve_last_sequence e = 0)
     \<and> (\<forall>(level, key)\<in>set (ve_compact_pointers e). level < kNumLevels \<and> key \<noteq> [] \<and> length key < 2 ^ 32)
     \<and> (\<forall>(level, number)\<in>set (ve_deleted_files e). level < kNumLevels)
     \<and> sorted (ve_deleted_files e) \<and> distinct (ve_deleted_files e)
     \<and> (\<forall>(level, f)\<in>set (ve_new_files e). level < kNumLevels
          \<and> f = FileMetaData_init\<lparr> fm_number := fm_number f, fm_file_size := fm_file_size f, fm_smallest := fm_smallest f, fm_largest := fm_largest f \<rparr>
          \<and> fm_smallest f \<noteq> [] \<and> length (fm_smallest f) < 2 ^ 32 \<and> fm_largest f \<noteq> [] \<and> length (fm_largest f) < 2 ^ 32)"

lemma decode_loop_tag:
  "decode_loop (EncodeVarint32 tag @ body) e =
     (case decode_field tag body e of Inl msg \<Rightarrow> (Some msg, body, e) | Inr (input, e) \<Rightarrow> decode_loop input e)"
  by (subst decode_loop.simps) simp

lemma fold_append: "\<forall>x dst. f x dst = dst @ g x \<Longrightarrow> fold f xs dst = dst @ concat (map g xs)"
  by (induction xs arbitrary: dst) simp_all

lemma GetLevel_Put: "level < kNumLevels \<Longrightarrow> GetLevel (EncodeVarint32 (of_nat level) @ rest) = Some (level, rest)"
  by (simp add: GetLevel_def kNumLevels_def unat_of_nat take_bit_nat_eq_self)

lemma GetInternalKey_Put: "key \<noteq> [] \<Longrightarrow> length key < 2 ^ 32 \<Longrightarrow> GetInternalKey (PutLengthPrefixedSlice [] key @ rest) = Some (key, rest)"
  by (simp add: GetInternalKey_def)

lemma decode_compact_pointers:
  "\<forall>(level, key)\<in>set ps. level < kNumLevels \<and> key \<noteq> [] \<and> length key < 2 ^ 32 \<Longrightarrow>
   decode_loop (concat (map (\<lambda>p. encode_compact_pointer p []) ps) @ rest) e = decode_loop rest (e\<lparr> ve_compact_pointers := ve_compact_pointers e @ ps \<rparr>)"
proof (induction ps arbitrary: e)
  case (Cons p ps)
  obtain level key where p: "p = (level, key)" by (cases p)
  have enc: "encode_compact_pointer p [] = EncodeVarint32 kCompactPointer @ EncodeVarint32 (of_nat level) @ PutLengthPrefixedSlice [] key"
    by (simp add: encode_compact_pointer_def p PutVarint32_def PutLengthPrefixedSlice_def)
  have "decode_loop (encode_compact_pointer p [] @ r) e = decode_loop r (e\<lparr> ve_compact_pointers := ve_compact_pointers e @ [p] \<rparr>)" for r
    using Cons.prems unfolding enc append_assoc decode_loop_tag
    by (simp add: p decode_field_def tag_defs GetLevel_Put GetInternalKey_Put)
  then show ?case using Cons by simp
qed simp

lemma insort_insert_snoc: "sorted (xs @ [x]) \<Longrightarrow> distinct (xs @ [x]) \<Longrightarrow> insort_insert x xs = xs @ [x :: 'a :: linorder]"
  by (induction xs) (auto simp: insort_insert_key_def)

lemma decode_deleted_files:
  "\<forall>(level, number)\<in>set ps. level < kNumLevels \<Longrightarrow> sorted (ve_deleted_files e @ ps) \<Longrightarrow> distinct (ve_deleted_files e @ ps) \<Longrightarrow>
   decode_loop (concat (map (\<lambda>p. encode_deleted_file p []) ps) @ rest) e = decode_loop rest (e\<lparr> ve_deleted_files := ve_deleted_files e @ ps \<rparr>)"
proof (induction ps arbitrary: e)
  case (Cons p ps)
  obtain level number where p: "p = (level, number)" by (cases p)
  have enc: "encode_deleted_file p [] = EncodeVarint32 kDeleteFile @ EncodeVarint32 (of_nat level) @ EncodeVarint64 number"
    by (simp add: encode_deleted_file_def p PutVarint32_def PutVarint64_def)
  have "sorted (ve_deleted_files e @ [p])" "distinct (ve_deleted_files e @ [p])" using Cons.prems(2,3) by (auto simp: sorted_append)
  note ins = insort_insert_snoc [OF this]
  have "decode_loop (encode_deleted_file p [] @ r) e = decode_loop r (e\<lparr> ve_deleted_files := ve_deleted_files e @ [p] \<rparr>)" for r
    using Cons.prems(1) ins unfolding enc append_assoc decode_loop_tag by (simp add: p decode_field_def tag_defs GetLevel_Put)
  then show ?case using Cons.IH [of "e\<lparr> ve_deleted_files := ve_deleted_files e @ [p] \<rparr>"] Cons.prems by simp
qed simp

lemma decode_new_files:
  "\<forall>(level, f)\<in>set ps. level < kNumLevels
      \<and> f = FileMetaData_init\<lparr> fm_number := fm_number f, fm_file_size := fm_file_size f, fm_smallest := fm_smallest f, fm_largest := fm_largest f \<rparr>
      \<and> fm_smallest f \<noteq> [] \<and> length (fm_smallest f) < 2 ^ 32 \<and> fm_largest f \<noteq> [] \<and> length (fm_largest f) < 2 ^ 32 \<Longrightarrow>
   decode_loop (concat (map (\<lambda>p. encode_new_file p []) ps) @ rest) e = decode_loop rest (e\<lparr> ve_new_files := ve_new_files e @ ps \<rparr>)"
proof (induction ps arbitrary: e)
  case (Cons p ps)
  obtain level f where p: "p = (level, f)" by (cases p)
  have enc: "encode_new_file p [] = EncodeVarint32 kNewFile @ EncodeVarint32 (of_nat level) @ EncodeVarint64 (fm_number f)
      @ EncodeVarint64 (fm_file_size f) @ PutLengthPrefixedSlice [] (fm_smallest f) @ PutLengthPrefixedSlice [] (fm_largest f)"
    by (simp add: encode_new_file_def p PutVarint32_def PutVarint64_def PutLengthPrefixedSlice_def Let_def)
  have f: "FileMetaData_init\<lparr> fm_number := fm_number f, fm_file_size := fm_file_size f, fm_smallest := fm_smallest f, fm_largest := fm_largest f \<rparr> = f"
    using Cons.prems by (auto simp: p)
  have "decode_loop (encode_new_file p [] @ r) e = decode_loop r (e\<lparr> ve_new_files := ve_new_files e @ [p] \<rparr>)" for r
    using Cons.prems unfolding enc append_assoc decode_loop_tag
    by (simp add: p decode_field_def tag_defs GetLevel_Put GetInternalKey_Put f)
  then show ?case using Cons by simp
qed simp

lemma decode_header:
  "length c < 2 ^ 32 \<Longrightarrow> decode_loop ((if b then EncodeVarint32 kComparator @ PutLengthPrefixedSlice [] c else []) @ r) e
     = decode_loop r (if b then e\<lparr> ve_comparator := c, ve_has_comparator := True \<rparr> else e)"
  "decode_loop ((if b then EncodeVarint32 kLogNumber @ EncodeVarint64 n else []) @ r) e
     = decode_loop r (if b then e\<lparr> ve_log_number := n, ve_has_log_number := True \<rparr> else e)"
  "decode_loop ((if b then EncodeVarint32 kPrevLogNumber @ EncodeVarint64 n else []) @ r) e
     = decode_loop r (if b then e\<lparr> ve_prev_log_number := n, ve_has_prev_log_number := True \<rparr> else e)"
  "decode_loop ((if b then EncodeVarint32 kNextFileNumber @ EncodeVarint64 n else []) @ r) e
     = decode_loop r (if b then e\<lparr> ve_next_file_number := n, ve_has_next_file_number := True \<rparr> else e)"
  "decode_loop ((if b then EncodeVarint32 kLastSequence @ EncodeVarint64 n else []) @ r) e
     = decode_loop r (if b then e\<lparr> ve_last_sequence := n, ve_has_last_sequence := True \<rparr> else e)"
  by (simp_all add: decode_loop_tag decode_field_def tag_defs)

text \<open>
  C26: A version edit is read back from the manifest record it was encoded to, whatever the decoder's edit held
  before -- except that the flag of the next file number, which \<open>Clear\<close> does not reset, survives from the earlier edit.
\<close>

theorem version_edit_roundtrip:
  assumes "ve_ok e"
  shows "ve_DecodeFrom (ve_EncodeTo e []) old
    = (OK, e\<lparr> ve_has_next_file_number := ve_has_next_file_number e \<or> ve_has_next_file_number old \<rparr>)"
proof -
  have folds: "fold encode_compact_pointer ps dst = dst @ concat (map (\<lambda>p. encode_compact_pointer p []) ps)"
    "fold encode_deleted_file ds dst = dst @ concat (map (\<lambda>p. encode_deleted_file p []) ds)"
    "fold encode_new_file fs dst = dst @ concat (map (\<lambda>p. encode_new_file p []) fs)" for ps ds fs dst
    by (rule fold_append, simp add: encode_compact_pointer_def encode_deleted_file_def encode_new_file_def Let_def
          PutVarint32_def PutVarint64_def PutLengthPrefixedSlice_def)+
  have enc: "ve_EncodeTo e [] = (if ve_has_comparator e then EncodeVarint32 kComparator @ PutLengthPrefixedSlice [] (ve_comparator e) else [])
      @ (if ve_has_log_number e then EncodeVarint32 kLogNumber @ EncodeVarint64 (ve_log_number e) else [])
      @ (if ve_has_prev_log_number e then EncodeVarint32 kPrevLogNumber @ EncodeVarint64 (ve_prev_log_number e) else [])
      @ (if ve_has_next_file_number e then EncodeVarint32 kNextFileNumber @ EncodeVarint64 (ve_next_file_number e) else [])
      @ (if ve_has_last_sequence e then EncodeVarint32 kLastSequence @ EncodeVarint64 (ve_last_sequence e) else [])
      @ concat (map (\<lambda>p. encode_compact_pointer p []) (ve_compact_pointers e))
      @ concat (map (\<lambda>p. encode_deleted_file p []) (ve_deleted_files e))
      @ concat (map (\<lambda>p. encode_new_file p []) (ve_new_files e)) @ []"
    unfolding ve_EncodeTo_def folds Let_def by (simp add: PutVarint32_def PutVarint64_def PutLengthPrefixedSlice_def)
  have nil: "decode_loop [] x = (None, [], x)" for x
    by (subst decode_loop.simps) (simp add: GetVarint32_def GetVarint32Ptr_def)
  define x1 where "x1 = (if ve_has_comparator e then (ve_Clear old)\<lparr> ve_comparator := ve_comparator e, ve_has_comparator := True \<rparr> else ve_Clear old)"
  define x2 where "x2 = (if ve_has_log_number e then x1\<lparr> ve_log_number := ve_log_number e, ve_has_log_number := True \<rparr> else x1)"
  define x3 where "x3 = (if ve_has_prev_log_number e then x2\<lparr> ve_prev_log_number := ve_prev_log_number e, ve_has_prev_log_number := True \<rparr> else x2)"
  define x4 where "x4 = (if ve_has_next_file_number e then x3\<lparr> ve_next_file_number := ve_next_file_number e, ve_has_next_file_number := True \<rparr> else x3)"
  define x5 where "x5 = (if ve_has_last_sequence e then x4\<lparr> ve_last_sequence := ve_last_sequence e, ve_has_last_sequence := True \<rparr> else x4)"
  note x = x5_def x4_def x3_def x2_def x1_def ve_Clear_def
  note ok = assms [unfolded ve_ok_def]
  have flags: "ve_has_comparator e \<or> ve_comparator e = []" "ve_has_log_number e \<or> ve_log_number e = 0"
    "ve_has_prev_log_number e \<or> ve_prev_log_number e = 0" "ve_has_next_file_number e \<or> ve_next_file_number e = 0"
    "ve_has_last_sequence e \<or> ve_last_sequence e = 0" using ok by blast+
  have nil': "ve_compact_pointers x5 = []" "ve_deleted_files x5 = []" "ve_new_files x5 = []" unfolding x by simp_all
  have "x5\<lparr> ve_compact_pointers := ve_compact_pointers e, ve_deleted_files := ve_deleted_files e, ve_new_files := ve_new_files e \<rparr>
      = e\<lparr> ve_has_next_file_number := ve_has_next_file_number e \<or> ve_has_next_file_number old \<rparr>"
    by (rule VersionEdit.equality) (use flags in \<open>auto simp: x\<close>)
  then have "decode_loop (ve_EncodeTo e []) (ve_Clear old)
      = (None, [], e\<lparr> ve_has_next_file_number := ve_has_next_file_number e \<or> ve_has_next_file_number old \<rparr>)"
    using ok nil' unfolding enc
    by (simp add: decode_header x1_def [symmetric] x2_def [symmetric] x3_def [symmetric] x4_def [symmetric] x5_def [symmetric]
        decode_compact_pointers decode_deleted_files decode_new_files nil del: append_Nil2 split del: if_split)
  then show ?thesis by (simp add: ve_DecodeFrom_def)
qed

text \<open>An edit that adds one file and removes two.\<close>

definition sample_edit :: VersionEdit where
  "sample_edit = ve_AddFile 2 12 4096 (InternalKey [97] 5 kTypeValue) (InternalKey [98] 7 kTypeValue)
     (ve_RemoveFile 1 9 (ve_RemoveFile 1 10 (SetLogNumber 11 (VersionEdit_init False))))"

theorem version_edit_roundtrip_witness:
  "ve_DecodeFrom (ve_EncodeTo sample_edit []) (SetNextFile 3 (VersionEdit_init False)) = (OK, sample_edit\<lparr> ve_has_next_file_number := True \<rparr>)"
proof -
  have "ve_ok sample_edit"
    by (simp add: sample_edit_def ve_ok_def ve_AddFile_def ve_RemoveFile_def SetLogNumber_def VersionEdit_init_def insort_insert_key_def
        kNumLevels_def FileMetaData_init_def InternalKey_def AppendInternalKey_def PutFixed64_def)
  from version_edit_roundtrip [OF this, of "SetNextFile 3 (VersionEdit_init False)"] show ?thesis by (simp add: SetNextFile_def)
qed

end
