(* ===== verification/DB_Iter.thy ===== *)
theory DB_Iter
  imports Dbformat Merger RDB_Random
begin

text \<open>
  The iterator users see (\<^verbatim>\<open>src/db/db_iter.cc\<close>): it hides deleted keys, old versions and versions newer than its
  sequence number.  The internal iterator is any class of iterators.  Its read sampling adds random periods until
  the bytes read are covered; with some seeds the generator returns period 0 for ever and the loop does not end,
  so that every operation is partial: \<open>None\<close> is an operation that does not return.
\<close>

section \<open>DBIter\<close>

datatype Direction = kForward | kReverse

record 's DBIter =
  di_iter :: 's
  di_status :: status
  di_saved_key :: bytes
  di_saved_value :: bytes
  di_direction :: Direction
  di_valid :: bool
  di_rnd :: u32
  di_bytes_until_read_sampling :: nat
  di_samples :: "bytes list"

definition RandomCompactionPeriod :: "u32 \<Rightarrow> nat \<times> u32" where
  "RandomCompactionPeriod rnd = Uniform (2 * kReadBytesPeriod) rnd"

definition DBIter_init :: "'s \<Rightarrow> u32 \<Rightarrow> 's DBIter" where
  "DBIter_init iter seed =
     (let (period, rnd) = RandomCompactionPeriod (Random_init seed)
      in \<lparr> di_iter = iter, di_status = OK, di_saved_key = [], di_saved_value = [], di_direction = kForward,
           di_valid = False, di_rnd = rnd, di_bytes_until_read_sampling = period, di_samples = [] \<rparr>)"

text \<open>The sampling loop; \<open>calls\<close> is the number of calls of \<open>RecordReadSample\<close>.\<close>

partial_function (option) sample_loop :: "nat \<Rightarrow> nat \<Rightarrow> u32 \<Rightarrow> nat \<Rightarrow> (nat \<times> u32 \<times> nat) option" where
  "sample_loop bytes_read bytes_until rnd calls =
     (if bytes_until < bytes_read then
        (case RandomCompactionPeriod rnd of
           (period, rnd) \<Rightarrow> sample_loop bytes_read (bytes_until + period) rnd (Suc calls))
      else Some (bytes_until, rnd, calls))"

definition ParseKey :: "'s Iterator \<Rightarrow> 's DBIter \<Rightarrow> (ParsedInternalKey option \<times> 's DBIter) option" where
  "ParseKey it d =
     (let k = it_key it (di_iter d);
          bytes_read = length k + length (it_value it (di_iter d))
      in case sample_loop bytes_read (di_bytes_until_read_sampling d) (di_rnd d) 0 of
           None \<Rightarrow> None
         | Some (bytes_until, rnd, calls) \<Rightarrow>
             let d = d\<lparr> di_rnd := rnd, di_bytes_until_read_sampling := bytes_until - bytes_read,
                        di_samples := di_samples d @ replicate calls k \<rparr>
             in (case ParseInternalKey k of
                   None \<Rightarrow> Some (None, d\<lparr> di_status := Corruption ''corrupted internal key in DBIter'' \<rparr>)
                 | Some ikey \<Rightarrow> Some (Some ikey, d)))"

text \<open>The local variables of \<open>FindNextUserEntry\<close>; \<open>skip\<close> is \<open>saved_key_\<close> in every call.\<close>

record fn_locals =
  fn_skipping :: bool
  fn_counted_key :: bytes
  fn_has_counted_key :: bool
  fn_skipped :: nat
  fn_sought_snapshot :: bool
  fn_sought_past_key :: bool

definition fn_init :: "bool \<Rightarrow> fn_locals" where
  "fn_init skipping =
     \<lparr> fn_skipping = skipping, fn_counted_key = [], fn_has_counted_key = False, fn_skipped = 0,
       fn_sought_snapshot = False, fn_sought_past_key = False \<rparr>"

definition fn_count :: "comparator \<Rightarrow> nat \<Rightarrow> ParsedInternalKey \<Rightarrow> fn_locals \<Rightarrow> fn_locals" where
  "fn_count ucmp max_skip ikey l =
     (if max_skip \<noteq> 0 \<and> (\<not> fn_has_counted_key l \<or> Compare ucmp (user_key ikey) (fn_counted_key l) \<noteq> 0)
      then l\<lparr> fn_counted_key := user_key ikey, fn_has_counted_key := True, fn_skipped := 0,
              fn_sought_snapshot := False, fn_sought_past_key := False \<rparr>
      else l)"

text \<open>The seek that replaces a long run of steps: the new locals, and the target when it is taken.\<close>

definition fn_seek ::
  "comparator \<Rightarrow> u64 \<Rightarrow> nat \<Rightarrow> ParsedInternalKey \<Rightarrow> bytes \<Rightarrow> bytes \<Rightarrow> fn_locals \<Rightarrow> fn_locals \<times> bytes option" where
  "fn_seek ucmp seq max_skip ikey skip iter_key l =
     (let l = (if fn_skipped l < max_skip then l\<lparr> fn_skipped := fn_skipped l + 1 \<rparr> else l);
          skip_current_key = (fn_skipping l \<and> Compare ucmp (user_key ikey) skip \<le> 0);
          sought = (if skip_current_key then fn_sought_past_key l else fn_sought_snapshot l)
      in if max_skip \<le> fn_skipped l \<and> \<not> sought then
           let l = (if skip_current_key then l\<lparr> fn_sought_past_key := True \<rparr> else l\<lparr> fn_sought_snapshot := True \<rparr>);
               seek_target = AppendInternalKey []
                 \<lparr> user_key = fn_counted_key l, sequence = (if skip_current_key then 0 else seq),
                   vtype = (if skip_current_key then kTypeDeletion else kValueTypeForSeek) \<rparr>
           in if Compare (InternalKeyComparator ucmp) iter_key seek_target < 0
              then (l\<lparr> fn_skipped := 0 \<rparr>, Some seek_target) else (l, None)
         else (l, None))"

partial_function (option) FindNext_loop ::
  "comparator \<Rightarrow> 's Iterator \<Rightarrow> u64 \<Rightarrow> nat \<Rightarrow> fn_locals \<Rightarrow> 's DBIter \<Rightarrow> 's DBIter option" where
  "FindNext_loop ucmp it seq max_skip l d =
     (case ParseKey it d of
        None \<Rightarrow> None
      | Some (parsed, d) \<Rightarrow>
          let l = (case parsed of Some ikey \<Rightarrow> fn_count ucmp max_skip ikey l | None \<Rightarrow> l);
              hit = (case parsed of
                       Some ikey \<Rightarrow> sequence ikey \<le> seq \<and> vtype ikey = kTypeValue
                         \<and> \<not> (fn_skipping l \<and> Compare ucmp (user_key ikey) (di_saved_key d) \<le> 0)
                     | None \<Rightarrow> False)
          in if hit then Some (d\<lparr> di_valid := True, di_saved_key := [] \<rparr>)
             else
               let hide = (case parsed of Some ikey \<Rightarrow> sequence ikey \<le> seq \<and> vtype ikey = kTypeDeletion | None \<Rightarrow> False);
                   d = (if hide then d\<lparr> di_saved_key := user_key (the parsed) \<rparr> else d);
                   l = (if hide then l\<lparr> fn_skipping := True \<rparr> else l);
                   (l, target) =
                     (case parsed of
                        None \<Rightarrow> (l\<lparr> fn_has_counted_key := False \<rparr>, None)
                      | Some ikey \<Rightarrow>
                          if max_skip \<noteq> 0
                          then fn_seek ucmp seq max_skip ikey (di_saved_key d) (it_key it (di_iter d)) l
                          else (l, None));
                   d = d\<lparr> di_iter := (case target of Some t \<Rightarrow> it_Seek it t (di_iter d) | None \<Rightarrow> it_Next it (di_iter d)) \<rparr>
               in if it_Valid it (di_iter d) then FindNext_loop ucmp it seq max_skip l d
                  else Some (d\<lparr> di_saved_key := [], di_valid := False \<rparr>))"

definition FindNextUserEntry :: "comparator \<Rightarrow> 's Iterator \<Rightarrow> u64 \<Rightarrow> nat \<Rightarrow> bool \<Rightarrow> 's DBIter \<Rightarrow> 's DBIter option" where
  "FindNextUserEntry ucmp it seq max_skip skipping d = FindNext_loop ucmp it seq max_skip (fn_init skipping) d"

text \<open>Clearing a buffer and giving its memory back are the same to a reader.\<close>

definition ClearSaveValue :: "'s DBIter \<Rightarrow> 's DBIter" where
  "ClearSaveValue d = d\<lparr> di_saved_value := [] \<rparr>"

definition di_Next :: "comparator \<Rightarrow> 's Iterator \<Rightarrow> u64 \<Rightarrow> nat \<Rightarrow> 's DBIter \<Rightarrow> 's DBIter option" where
  "di_Next ucmp it seq max_skip d =
     (let d = (if di_direction d = kReverse then
                 d\<lparr> di_direction := kForward,
                    di_iter := (if \<not> it_Valid it (di_iter d) then it_SeekToFirst it (di_iter d) else it_Next it (di_iter d)) \<rparr>
               else
                 d\<lparr> di_saved_key := ExtractUserKey (it_key it (di_iter d)), di_iter := it_Next it (di_iter d) \<rparr>)
      in if \<not> it_Valid it (di_iter d) then Some (d\<lparr> di_valid := False, di_saved_key := [] \<rparr>)
         else FindNextUserEntry ucmp it seq max_skip True d)"

definition SeekBeforeUserKey :: "'s Iterator \<Rightarrow> bytes \<Rightarrow> 's \<Rightarrow> 's" where
  "SeekBeforeUserKey it key s =
     (let s = it_Seek it (AppendInternalKey [] \<lparr> user_key = key, sequence = kMaxSequenceNumber, vtype = kValueTypeForSeek \<rparr>) s
      in if it_Valid it s then it_Prev it s
         else if ok (it_status it s) then it_SeekToLast it s else s)"

definition di_status_of :: "'s Iterator \<Rightarrow> 's DBIter \<Rightarrow> status" where
  "di_status_of it d = (if ok (di_status d) then it_status it (di_iter d) else di_status d)"

definition FindValueForCurrentKeyUsingSeek ::
  "comparator \<Rightarrow> 's Iterator \<Rightarrow> u64 \<Rightarrow> bytes \<Rightarrow> 's DBIter \<Rightarrow> (bool \<times> 's DBIter) option" where
  "FindValueForCurrentKeyUsingSeek ucmp it seq key d =
     (let target = AppendInternalKey [] \<lparr> user_key = key, sequence = seq, vtype = kValueTypeForSeek \<rparr>;
          d = d\<lparr> di_iter := it_Seek it target (di_iter d) \<rparr>
      in case (if it_Valid it (di_iter d) then ParseKey it d else Some (None, d)) of
           None \<Rightarrow> None
         | Some (parsed, d) \<Rightarrow>
             let found = (case parsed of
                            None \<Rightarrow> False
                          | Some ikey \<Rightarrow> sequence ikey \<le> seq \<and> Compare ucmp (user_key ikey) key = 0 \<and> vtype ikey = kTypeValue);
                 d = (if found then d\<lparr> di_saved_key := user_key (the parsed), di_saved_value := it_value it (di_iter d) \<rparr> else d);
                 d = (if \<not> ok (it_status it (di_iter d)) \<and> ok (di_status d) then d\<lparr> di_status := it_status it (di_iter d) \<rparr> else d)
             in if \<not> ok (di_status d) then Some (False, d)
                else
                  let d = (if \<not> found then ClearSaveValue (d\<lparr> di_saved_key := [] \<rparr>) else d)
                  in Some (found, d\<lparr> di_iter := SeekBeforeUserKey it key (di_iter d) \<rparr>))"

record fp_locals =
  fp_value_type :: ValueType
  fp_counted_key :: bytes
  fp_has_counted_key :: bool
  fp_skipped :: nat

definition fp_init :: fp_locals where
  "fp_init = \<lparr> fp_value_type = kTypeDeletion, fp_counted_key = [], fp_has_counted_key = False, fp_skipped = 0 \<rparr>"

definition fp_count :: "comparator \<Rightarrow> nat \<Rightarrow> ParsedInternalKey \<Rightarrow> fp_locals \<Rightarrow> fp_locals" where
  "fp_count ucmp max_skip ikey l =
     (let l = (if \<not> fp_has_counted_key l \<or> Compare ucmp (user_key ikey) (fp_counted_key l) \<noteq> 0
               then l\<lparr> fp_counted_key := user_key ikey, fp_has_counted_key := True, fp_skipped := 0 \<rparr> else l)
      in if fp_skipped l < max_skip then l\<lparr> fp_skipped := fp_skipped l + 1 \<rparr> else l)"

text \<open>The step that ends a round of the loop: the entry is recorded and the internal iterator steps back.\<close>

definition fp_record :: "'s Iterator \<Rightarrow> u64 \<Rightarrow> ParsedInternalKey option \<Rightarrow> fp_locals \<Rightarrow> 's DBIter \<Rightarrow> fp_locals \<times> 's DBIter" where
  "fp_record it seq parsed l d =
     (case parsed of
        Some ikey \<Rightarrow>
          if sequence ikey \<le> seq then
            (l\<lparr> fp_value_type := vtype ikey \<rparr>,
             if vtype ikey = kTypeDeletion then ClearSaveValue (d\<lparr> di_saved_key := [] \<rparr>)
             else d\<lparr> di_saved_key := ExtractUserKey (it_key it (di_iter d)), di_saved_value := it_value it (di_iter d) \<rparr>)
          else (l, d)
      | None \<Rightarrow> (l, d))"

partial_function (option) FindPrev_loop ::
  "comparator \<Rightarrow> 's Iterator \<Rightarrow> u64 \<Rightarrow> nat \<Rightarrow> fp_locals \<Rightarrow> 's DBIter \<Rightarrow> (ValueType \<times> 's DBIter) option" where
  "FindPrev_loop ucmp it seq max_skip l d =
     (case ParseKey it d of
        None \<Rightarrow> None
      | Some (parsed, d) \<Rightarrow>
          let before = (\<lambda>ikey. fp_value_type l \<noteq> kTypeDeletion \<and> Compare ucmp (user_key ikey) (di_saved_key d) < 0)
          in if parsed \<noteq> None \<and> max_skip \<noteq> 0 \<and> before (the parsed) then Some (fp_value_type l, d)
             else
               let l = (case parsed of
                          None \<Rightarrow> l\<lparr> fp_has_counted_key := False \<rparr>
                        | Some ikey \<Rightarrow> if max_skip \<noteq> 0 then fp_count ucmp max_skip ikey l else l)
               in if parsed \<noteq> None \<and> max_skip \<noteq> 0 \<and> max_skip \<le> fp_skipped l then
                    (case FindValueForCurrentKeyUsingSeek ucmp it seq (fp_counted_key l) d of
                       None \<Rightarrow> None
                     | Some (found, d) \<Rightarrow>
                         if \<not> ok (di_status_of it d) then Some (kTypeDeletion, d)
                         else if found then Some (kTypeValue, d)
                         else
                           let l = l\<lparr> fp_value_type := kTypeDeletion, fp_has_counted_key := False \<rparr>
                           in if it_Valid it (di_iter d) then FindPrev_loop ucmp it seq max_skip l d
                              else Some (fp_value_type l, d))
                  else if parsed \<noteq> None \<and> sequence (the parsed) \<le> seq \<and> before (the parsed) then Some (fp_value_type l, d)
                  else
                    (case fp_record it seq parsed l d of
                       (l, d) \<Rightarrow>
                         let d = d\<lparr> di_iter := it_Prev it (di_iter d) \<rparr>
                         in if it_Valid it (di_iter d) then FindPrev_loop ucmp it seq max_skip l d
                            else Some (fp_value_type l, d)))"

definition FindPrevUserEntry :: "comparator \<Rightarrow> 's Iterator \<Rightarrow> u64 \<Rightarrow> nat \<Rightarrow> 's DBIter \<Rightarrow> 's DBIter option" where
  "FindPrevUserEntry ucmp it seq max_skip d =
     (case (if it_Valid it (di_iter d) then FindPrev_loop ucmp it seq max_skip fp_init d else Some (kTypeDeletion, d)) of
        None \<Rightarrow> None
      | Some (value_type, d) \<Rightarrow>
          Some (if value_type = kTypeDeletion
                then ClearSaveValue (d\<lparr> di_valid := False, di_saved_key := [], di_direction := kForward \<rparr>)
                else d\<lparr> di_valid := True \<rparr>))"

text \<open>The loop of \<open>Prev\<close> that leaves the entries of the current key; \<open>False\<close> when it reached the front.\<close>

partial_function (option) leave_key_loop ::
  "comparator \<Rightarrow> 's Iterator \<Rightarrow> nat \<Rightarrow> bytes \<Rightarrow> nat \<Rightarrow> 's \<Rightarrow> (bool \<times> 's) option" where
  "leave_key_loop ucmp it max_skip saved skipped s =
     (let s = it_Prev it s
      in if \<not> it_Valid it s then Some (False, s)
         else if Compare ucmp (ExtractUserKey (it_key it s)) saved < 0 then Some (True, s)
         else if max_skip \<noteq> 0 \<and> max_skip \<le> skipped + 1 then
           let s = SeekBeforeUserKey it saved s in Some (it_Valid it s, s)
         else leave_key_loop ucmp it max_skip saved (if max_skip \<noteq> 0 then skipped + 1 else skipped) s)"

definition di_Prev :: "comparator \<Rightarrow> 's Iterator \<Rightarrow> u64 \<Rightarrow> nat \<Rightarrow> 's DBIter \<Rightarrow> 's DBIter option" where
  "di_Prev ucmp it seq max_skip d =
     (if di_direction d = kForward then
        let d = d\<lparr> di_saved_key := ExtractUserKey (it_key it (di_iter d)) \<rparr>
        in case leave_key_loop ucmp it max_skip (di_saved_key d) 0 (di_iter d) of
             None \<Rightarrow> None
           | Some (left, s) \<Rightarrow>
               if \<not> left then Some (ClearSaveValue (d\<lparr> di_iter := s, di_valid := False, di_saved_key := [] \<rparr>))
               else FindPrevUserEntry ucmp it seq max_skip (d\<lparr> di_iter := s, di_direction := kReverse \<rparr>)
      else FindPrevUserEntry ucmp it seq max_skip d)"

definition di_Seek :: "comparator \<Rightarrow> 's Iterator \<Rightarrow> u64 \<Rightarrow> nat \<Rightarrow> bytes \<Rightarrow> 's DBIter \<Rightarrow> 's DBIter option" where
  "di_Seek ucmp it seq max_skip target d =
     (let d = ClearSaveValue (d\<lparr> di_direction := kForward \<rparr>);
          d = d\<lparr> di_saved_key := AppendInternalKey [] \<lparr> user_key = target, sequence = seq, vtype = kValueTypeForSeek \<rparr> \<rparr>;
          d = d\<lparr> di_iter := it_Seek it (di_saved_key d) (di_iter d) \<rparr>
      in if it_Valid it (di_iter d) then FindNextUserEntry ucmp it seq max_skip False d else Some (d\<lparr> di_valid := False \<rparr>))"

definition di_SeekToFirst :: "comparator \<Rightarrow> 's Iterator \<Rightarrow> u64 \<Rightarrow> nat \<Rightarrow> 's DBIter \<Rightarrow> 's DBIter option" where
  "di_SeekToFirst ucmp it seq max_skip d =
     (let d = ClearSaveValue (d\<lparr> di_direction := kForward \<rparr>);
          d = d\<lparr> di_iter := it_SeekToFirst it (di_iter d) \<rparr>
      in if it_Valid it (di_iter d) then FindNextUserEntry ucmp it seq max_skip False d else Some (d\<lparr> di_valid := False \<rparr>))"

definition di_SeekToLast :: "comparator \<Rightarrow> 's Iterator \<Rightarrow> u64 \<Rightarrow> nat \<Rightarrow> 's DBIter \<Rightarrow> 's DBIter option" where
  "di_SeekToLast ucmp it seq max_skip d =
     (let d = ClearSaveValue (d\<lparr> di_direction := kReverse \<rparr>)
      in FindPrevUserEntry ucmp it seq max_skip (d\<lparr> di_iter := it_SeekToLast it (di_iter d) \<rparr>))"

text \<open>The iterator class; the state \<open>None\<close> is that of a call that never returned.\<close>

definition DBIterator :: "comparator \<Rightarrow> 's Iterator \<Rightarrow> u64 \<Rightarrow> nat \<Rightarrow> 's DBIter option Iterator" where
  "DBIterator ucmp it seq max_skip =
     \<lparr> it_Valid = (\<lambda>s. case s of Some d \<Rightarrow> di_valid d | None \<Rightarrow> False),
       it_SeekToFirst = (\<lambda>s. Option.bind s (di_SeekToFirst ucmp it seq max_skip)),
       it_SeekToLast = (\<lambda>s. Option.bind s (di_SeekToLast ucmp it seq max_skip)),
       it_Seek = (\<lambda>t s. Option.bind s (di_Seek ucmp it seq max_skip t)),
       it_Next = (\<lambda>s. Option.bind s (di_Next ucmp it seq max_skip)),
       it_Prev = (\<lambda>s. Option.bind s (di_Prev ucmp it seq max_skip)),
       it_key = (\<lambda>s. case s of
                       Some d \<Rightarrow> if di_direction d = kForward then ExtractUserKey (it_key it (di_iter d)) else di_saved_key d
                     | None \<Rightarrow> []),
       it_value = (\<lambda>s. case s of
                         Some d \<Rightarrow> if di_direction d = kForward then it_value it (di_iter d) else di_saved_value d
                       | None \<Rightarrow> []),
       it_status = (\<lambda>s. case s of Some d \<Rightarrow> di_status_of it d | None \<Rightarrow> OK) \<rparr>"

section \<open>When sampling ends\<close>

text \<open>The generator returns a period above 0 again and again.\<close>

definition rnd_live :: "u32 \<Rightarrow> bool" where
  "rnd_live s \<longleftrightarrow> (\<forall>i. \<exists>j\<ge>i. unat ((random_Next ^^ Suc j) s) mod (2 * kReadBytesPeriod) \<noteq> 0)"

lemma rnd_live_Next: "rnd_live s \<Longrightarrow> rnd_live (random_Next s)"
  unfolding rnd_live_def
proof
  fix i assume "\<forall>i. \<exists>j\<ge>i. unat ((random_Next ^^ Suc j) s) mod (2 * kReadBytesPeriod) \<noteq> 0"
  then obtain j where j: "Suc i \<le> j" "unat ((random_Next ^^ Suc j) s) mod (2 * kReadBytesPeriod) \<noteq> 0" by blast
  then obtain k where "j = Suc k" by (cases j) auto
  then show "\<exists>j\<ge>i. unat ((random_Next ^^ Suc j) (random_Next s)) mod (2 * kReadBytesPeriod) \<noteq> 0"
    using j by (intro exI [of _ k]) (simp add: funpow_swap1)
qed

lemma sample_loop_returns:
  assumes "rnd_live s"
  shows "\<exists>b' s' c'. sample_loop r b s c = Some (b', s', c') \<and> rnd_live s'"
  using assms
proof (induction "r - b" arbitrary: b s c rule: less_induct)
  case less
  obtain j where "unat ((random_Next ^^ Suc j) s) mod (2 * kReadBytesPeriod) \<noteq> 0" using less.prems unfolding rnd_live_def by blast
  then show ?case using less.prems
  proof (induction j arbitrary: s c)
    case 0
    let ?p = "unat (random_Next s) mod (2 * kReadBytesPeriod)"
    show ?case
    proof (cases "b < r")
      case True
      then have "r - (b + ?p) < r - b" using 0 by simp
      from less.hyps [OF this rnd_live_Next [OF 0(2)], of "Suc c"] show ?thesis
        using True by (subst sample_loop.simps) (simp add: RandomCompactionPeriod_def Uniform_def Let_def)
    qed (use 0 in \<open>subst sample_loop.simps; simp\<close>)
  next
    case (Suc j)
    let ?p = "unat (random_Next s) mod (2 * kReadBytesPeriod)"
    show ?case
    proof (cases "b < r")
      case True
      have "\<exists>b' s' c'. sample_loop r (b + ?p) (random_Next s) (Suc c) = Some (b', s', c') \<and> rnd_live s'"
      proof (cases "?p = 0")
        case True
        then show ?thesis using Suc.IH [of "random_Next s" "Suc c"] Suc.prems rnd_live_Next by (simp add: funpow_swap1)
      next
        case False
        then have "r - (b + ?p) < r - b" using \<open>b < r\<close> by simp
        then show ?thesis using less.hyps rnd_live_Next [OF Suc.prems(2)] by blast
      qed
      then show ?thesis using True by (subst sample_loop.simps) (simp add: RandomCompactionPeriod_def Uniform_def Let_def)
    qed (use Suc in \<open>subst sample_loop.simps; simp\<close>)
  qed
qed

section \<open>The user's view\<close>

text \<open>
  The parsed key of an entry; an entry is visible when it is not newer than the sequence number, and entry \<open>i\<close>
  is shown when it is the newest visible version of its user key and not a deletion.
\<close>

definition pk :: "bytes \<times> bytes \<Rightarrow> ParsedInternalKey" where
  "pk e = the (ParseInternalKey (fst e))"

definition versions_ok :: "entries \<Rightarrow> bool" where
  "versions_ok es \<longleftrightarrow> (\<forall>e\<in>set es. ParseInternalKey (fst e) \<noteq> None)"

definition visible :: "u64 \<Rightarrow> bytes \<times> bytes \<Rightarrow> bool" where
  "visible seq e \<longleftrightarrow> sequence (pk e) \<le> seq"

definition ukey :: "entries \<Rightarrow> nat \<Rightarrow> bytes" where
  "ukey es i = user_key (pk (es ! i))"

definition shown :: "u64 \<Rightarrow> entries \<Rightarrow> nat \<Rightarrow> bool" where
  "shown seq es i \<longleftrightarrow>
     i < length es \<and> visible seq (es ! i) \<and> vtype (pk (es ! i)) = kTypeValue
     \<and> (\<forall>j<i. ukey es j = ukey es i \<longrightarrow> \<not> visible seq (es ! j))"

definition user_view :: "u64 \<Rightarrow> entries \<Rightarrow> entries" where
  "user_view seq es = map (\<lambda>i. (ukey es i, snd (es ! i))) (filter (shown seq es) [0..<length es])"

lemma pk_key:
  assumes "versions_ok es" "e \<in> set es"
  shows "ParseInternalKey (fst e) = Some (pk e)" "fst e = InternalKey (user_key (pk e)) (sequence (pk e)) (vtype (pk e))"
    "sequence (pk e) \<le> kMaxSequenceNumber" "user_key (pk e) = ExtractUserKey (fst e)"
proof -
  show p: "ParseInternalKey (fst e) = Some (pk e)" using assms by (auto simp: versions_ok_def pk_def)
  show "fst e = InternalKey (user_key (pk e)) (sequence (pk e)) (vtype (pk e))"
    "sequence (pk e) \<le> kMaxSequenceNumber" "user_key (pk e) = ExtractUserKey (fst e)" using ParseInternalKey_SomeD [OF p] by auto
qed

context internal_keys
begin

lemma entry_less:
  assumes "versions_ok es" "e \<in> set es" "s \<le> kMaxSequenceNumber"
  shows "Compare (InternalKeyComparator ucmp) (fst e) (InternalKey k s t) < 0 \<longleftrightarrow>
    Compare ucmp (user_key (pk e)) k < 0 \<or> user_key (pk e) = k \<and> (s < sequence (pk e) \<or> s = sequence (pk e) \<and> t = kTypeDeletion \<and> vtype (pk e) = kTypeValue)"
proof -
  have "ExtractTag (fst e) = PackSequenceAndType (sequence (pk e)) (vtype (pk e))" by (metis pk_key(2) [OF assms(1,2)] InternalKey_parts(2))
  then show ?thesis
    unfolding ik_less InternalKey_parts pk_key(4) [OF assms(1,2), symmetric] by (simp add: Pack_less_iff pk_key(3) [OF assms(1,2)] assms(3))
qed

text \<open>The three targets the iterator seeks to.\<close>

lemma target_less:
  assumes "versions_ok es" "e \<in> set es"
  shows "s \<le> kMaxSequenceNumber \<Longrightarrow> Compare (InternalKeyComparator ucmp) (fst e) (InternalKey k s kTypeValue) < 0 \<longleftrightarrow>
      Compare ucmp (user_key (pk e)) k < 0 \<or> user_key (pk e) = k \<and> \<not> visible s e"
    "Compare (InternalKeyComparator ucmp) (fst e) (InternalKey k 0 kTypeDeletion) < 0 \<Longrightarrow> Compare ucmp (user_key (pk e)) k \<le> 0"
    "Compare (InternalKeyComparator ucmp) (fst e) (InternalKey k kMaxSequenceNumber kTypeValue) < 0 \<longleftrightarrow> Compare ucmp (user_key (pk e)) k < 0"
  using entry_less [OF assms, of s k kTypeValue] entry_less [OF assms, of 0 k kTypeDeletion] entry_less [OF assms, of kMaxSequenceNumber k kTypeValue]
    pk_key(3) [OF assms] user.cmp_refl [of k]
  by (auto simp: visible_def not_le kMaxSequenceNumber_def)

lemma ukey_mono:
  assumes "versions_ok es" "sorted_entries (InternalKeyComparator ucmp) (\<lambda>k. 8 \<le> length k) es" "i \<le> j" "j < length es"
  shows "Compare ucmp (ukey es i) (ukey es j) \<le> 0"
proof (cases "i = j")
  case False
  then have "Compare (InternalKeyComparator ucmp) (fst (es ! i)) (fst (es ! j)) < 0"
    using assms(2-4) by (simp add: sorted_entries_def sorted_wrt_iff_nth_less)
  then show ?thesis using assms user.cmp_refl by (auto simp: ik_less ukey_def pk_key(4) [OF assms(1)])
qed (simp add: user.cmp_refl)

lemma visible_mono:
  assumes ok: "versions_ok es" "sorted_entries (InternalKeyComparator ucmp) (\<lambda>k. 8 \<le> length k) es" "i \<le> j" "j < length es"
    and "ukey es i = ukey es j" "visible seq (es ! i)"
  shows "visible seq (es ! j)"
proof (cases "i = j")
  case False
  then have "Compare (InternalKeyComparator ucmp) (fst (es ! i)) (fst (es ! j)) < 0"
    using ok by (simp add: sorted_entries_def sorted_wrt_iff_nth_less)
  then have "Compare (InternalKeyComparator ucmp) (fst (es ! i)) (InternalKey (user_key (pk (es ! j))) (sequence (pk (es ! j))) (vtype (pk (es ! j)))) < 0"
    using pk_key(2) [OF ok(1), of "es ! j"] ok(4) by simp
  then have "sequence (pk (es ! j)) \<le> sequence (pk (es ! i))"
    using entry_less [OF ok(1), of "es ! i" "sequence (pk (es ! j))"] pk_key(3) [OF ok(1), of "es ! j"] ok assms(5) user.cmp_refl
    by (fastforce simp: ukey_def)
  then show ?thesis using assms(6) by (simp add: visible_def)
qed (use assms in simp)

lemma seek_pos_iff:
  assumes so: "sorted_entries (InternalKeyComparator ucmp) (\<lambda>k. 8 \<le> length k) es" and t: "8 \<le> length t" and j: "j < length es"
  shows "j < seek_pos (InternalKeyComparator ucmp) t es \<longleftrightarrow> Compare (InternalKeyComparator ucmp) (fst (es ! j)) t < 0"
proof -
  let ?P = "\<lambda>e. Compare (InternalKeyComparator ucmp) (fst e) t < 0" and ?m = "seek_pos (InternalKeyComparator ucmp) t es"
  have "?P (es ! j)" if "j < ?m"
    using that nth_mem [of j "takeWhile ?P es"] takeWhile_nth [of j ?P es] by (auto simp: seek_pos_def dest: set_takeWhileD)
  moreover have "\<not> ?P (es ! j)" if m: "\<not> j < ?m"
  proof
    assume p: "?P (es ! j)"
    have "\<not> ?P (es ! ?m)" "?m < length es" using m j nth_length_takeWhile [of ?P es] by (auto simp: seek_pos_def)
    then have "?m \<noteq> j" using p by auto
    then have "Compare (InternalKeyComparator ucmp) (fst (es ! ?m)) (fst (es ! j)) < 0" "8 \<le> length (fst (es ! ?m))" "8 \<le> length (fst (es ! j))"
      using so m j by (auto simp: sorted_entries_def sorted_wrt_iff_nth_less)
    then show False using p \<open>\<not> ?P (es ! ?m)\<close> t ik.cmp_less_trans by blast
  qed
  ultimately show ?thesis by blast
qed

text \<open>
  What the forward search keeps: \<open>goal\<close> is the set of entries it looks for, none is before \<open>n\<close>; the keys that are
  hidden behind \<open>n\<close> are the ones the skip key covers.
\<close>

definition fwd_inv :: "u64 \<Rightarrow> entries \<Rightarrow> nat set \<Rightarrow> nat \<Rightarrow> bool \<Rightarrow> bytes \<Rightarrow> bool" where
  "fwd_inv seq es goal n skipping skip \<longleftrightarrow>
     (\<forall>i\<in>goal. n \<le> i)
     \<and> (\<forall>i\<ge>n. i \<in> goal \<longleftrightarrow> shown seq es i \<and> \<not> (skipping \<and> Compare ucmp (ukey es i) skip \<le> 0))
     \<and> (\<forall>j<n. \<forall>i. n \<le> i \<longrightarrow> i < length es \<longrightarrow> ukey es i = ukey es j \<longrightarrow> visible seq (es ! j)
          \<longrightarrow> skipping \<and> Compare ucmp (ukey es j) skip \<le> 0)
     \<and> (skipping \<longrightarrow> (\<forall>i. n \<le> i \<longrightarrow> i < length es \<longrightarrow> visible seq (es ! i) \<longrightarrow> \<not> Compare ucmp (ukey es i) skip < 0))"

lemma fwd_inv_advance:
  assumes ok: "versions_ok es" "sorted_entries (InternalKeyComparator ucmp) (\<lambda>k. 8 \<le> length k) es" and n: "n < length es"
    and inv: "fwd_inv seq es goal n skipping skip"
    and hide: "hide \<longleftrightarrow> visible seq (es ! n) \<and> vtype (pk (es ! n)) = kTypeDeletion"
    and sk: "skipping' \<longleftrightarrow> hide \<or> skipping" "skip' = (if hide then ukey es n else skip)"
    and m: "n < m" "m \<le> length es" "\<forall>i. n \<le> i \<longrightarrow> i < m \<longrightarrow> ukey es i = ukey es n"
    and jump: "skipping' \<and> Compare ucmp (ukey es n) skip' \<le> 0 \<or> (\<forall>i. n \<le> i \<longrightarrow> i < m \<longrightarrow> \<not> visible seq (es ! i))"
  shows "fwd_inv seq es goal m skipping' skip'"
proof -
  have I1: "\<And>i. i \<in> goal \<Longrightarrow> n \<le> i" and I2: "\<And>i. n \<le> i \<Longrightarrow> i \<in> goal \<longleftrightarrow> shown seq es i \<and> \<not> (skipping \<and> Compare ucmp (ukey es i) skip \<le> 0)"
    and I3: "\<And>j i. j < n \<Longrightarrow> n \<le> i \<Longrightarrow> i < length es \<Longrightarrow> ukey es i = ukey es j \<Longrightarrow> visible seq (es ! j) \<Longrightarrow> skipping \<and> Compare ucmp (ukey es j) skip \<le> 0"
    and I4: "\<And>i. skipping \<Longrightarrow> n \<le> i \<Longrightarrow> i < length es \<Longrightarrow> visible seq (es ! i) \<Longrightarrow> \<not> Compare ucmp (ukey es i) skip < 0"
    using inv unfolding fwd_inv_def by blast+
  note mono = ukey_mono [OF ok]
  show ?thesis unfolding fwd_inv_def
  proof (intro conjI ballI allI impI)
    fix i assume i: "i \<in> goal"
    show "m \<le> i"
    proof (rule ccontr)
      assume "\<not> m \<le> i"
      then have u: "ukey es i = ukey es n" and ni: "n \<le> i" using m(3) [rule_format, of i] I1 [OF i] by simp_all
      have sh: "shown seq es i" "\<not> (skipping \<and> Compare ucmp (ukey es i) skip \<le> 0)" using I2 [OF ni] i by auto
      show False
      proof (cases hide)
        case True
        then have "i \<noteq> n" using sh hide by (auto simp: shown_def)
        then show False using sh(1) True hide ni u by (auto simp: shown_def)
      next
        case False
        then show False using jump sh u sk ni \<open>\<not> m \<le> i\<close> by (auto simp: shown_def)
      qed
    qed
  next
    fix i assume i: "m \<le> i"
    show "i \<in> goal \<longleftrightarrow> shown seq es i \<and> \<not> (skipping' \<and> Compare ucmp (ukey es i) skip' \<le> 0)"
    proof (cases "hide \<and> shown seq es i")
      case True
      then have il: "i < length es" "ukey es n \<noteq> ukey es i" using i m(1) hide by (auto simp: shown_def)
      then have lt: "Compare ucmp (ukey es n) (ukey es i) < 0" using mono [of n i] i m(1) user.cmp_eq_iff by force
      then have "\<not> Compare ucmp (ukey es i) (ukey es n) \<le> 0" using user.cmp_sym [of "ukey es n" "ukey es i"] by auto
      moreover have "\<not> (skipping \<and> Compare ucmp (ukey es i) skip \<le> 0)"
        using I4 [of n] True hide n lt user.cmp_less_le_trans [of "ukey es n" "ukey es i" skip] by blast
      ultimately show ?thesis using I2 [of i] i m(1) True sk by simp
    next
      case False
      then show ?thesis using I2 [of i] i m(1) sk by auto
    qed
  next
    fix j i assume h: "j < m" "m \<le> i" "i < length es" "ukey es i = ukey es j" "visible seq (es ! j)"
    have "skipping' \<and> Compare ucmp (ukey es j) skip' \<le> 0"
    proof (cases "j < n")
      case True
      then show ?thesis using I3 [of j i] h m(1) sk mono [of j n] n by auto
    next
      case False
      then show ?thesis using jump m(3) [rule_format, of j] h by auto
    qed
    then show "skipping'" "Compare ucmp (ukey es j) skip' \<le> 0" by auto
  next
    fix i assume h: "skipping'" "m \<le> i" "i < length es" "visible seq (es ! i)"
    show "\<not> Compare ucmp (ukey es i) skip' < 0"
    proof (cases hide)
      case True
      then show ?thesis using mono [of n i] m(1) h sk user.cmp_sym [of "ukey es i" "ukey es n"] by auto
    next
      case False
      then show ?thesis using I4 [of i] h m(1) sk by auto
    qed
  qed
qed

end

section \<open>The forward search\<close>

text \<open>Parsing a key changes only the sampling state.\<close>

definition sampled :: "'s DBIter \<Rightarrow> 's DBIter \<Rightarrow> bool" where
  "sampled d d' \<longleftrightarrow> di_iter d' = di_iter d \<and> di_status d' = di_status d \<and> di_saved_key d' = di_saved_key d
     \<and> di_saved_value d' = di_saved_value d \<and> di_direction d' = di_direction d \<and> di_valid d' = di_valid d \<and> rnd_live (di_rnd d')"

locale db_iter = internal_keys ucmp + sorted_iterator "InternalKeyComparator ucmp" "\<lambda>k. 8 \<le> length k" it iat
  for ucmp and it :: "'s Iterator" and iat +
  fixes seq :: u64 and max_skip :: nat
  assumes seq_ok: "seq \<le> kMaxSequenceNumber"
begin

lemma ParseKey_at:
  assumes "iat (di_iter d) es n" "n < length es" "versions_ok es" "rnd_live (di_rnd d)"
  obtains d' where "ParseKey it d = Some (Some (pk (es ! n)), d')" "sampled d d'"
proof -
  obtain b s c where "sample_loop (length (it_key it (di_iter d)) + length (it_value it (di_iter d))) (di_bytes_until_read_sampling d) (di_rnd d) 0
      = Some (b, s, c)" "rnd_live s"
    using sample_loop_returns [OF assms(4)] by blast
  then show ?thesis
    using that pk_key(1) [OF assms(3), of "es ! n"] assms(2) iat_key [OF assms(1,2)] by (simp add: ParseKey_def sampled_def Let_def)
qed

lemma FindNext_loop_Some:
  assumes p: "ParseKey it d = Some (Some ikey, d1)" and l1: "l1 = fn_count ucmp max_skip ikey l"
    and hide: "hide \<longleftrightarrow> sequence ikey \<le> seq \<and> vtype ikey = kTypeDeletion"
    and d2: "d2 = (if hide then d1\<lparr> di_saved_key := user_key ikey \<rparr> else d1)" and l2: "l2 = (if hide then l1\<lparr> fn_skipping := True \<rparr> else l1)"
    and tg: "(if max_skip \<noteq> 0 then fn_seek ucmp seq max_skip ikey (di_saved_key d2) (it_key it (di_iter d2)) l2 else (l2, None)) = (l3, target)"
    and d3: "d3 = d2\<lparr> di_iter := (case target of Some t \<Rightarrow> it_Seek it t (di_iter d2) | None \<Rightarrow> it_Next it (di_iter d2)) \<rparr>"
    and nohit: "\<not> (sequence ikey \<le> seq \<and> vtype ikey = kTypeValue \<and> \<not> (fn_skipping l1 \<and> Compare ucmp (user_key ikey) (di_saved_key d1) \<le> 0))"
  shows "FindNext_loop ucmp it seq max_skip l d =
    (if it_Valid it (di_iter d3) then FindNext_loop ucmp it seq max_skip l3 d3 else Some (d3\<lparr> di_saved_key := [], di_valid := False \<rparr>))"
  using nohit
  by (subst FindNext_loop.simps)
     (simp only: p option.case prod.case Let_def l1 [symmetric] hide [symmetric] option.sel d2 [symmetric] l2 [symmetric] tg d3 [symmetric] if_False)

lemma fn_count_key:
  "fn_skipping (fn_count ucmp max_skip ikey l) = fn_skipping l"
  "max_skip \<noteq> 0 \<Longrightarrow> fn_counted_key (fn_count ucmp max_skip ikey l) = user_key ikey"
  using user.cmp_eq [of "user_key ikey" "fn_counted_key l"] by (auto simp: fn_count_def)

lemma fn_seek_cases:
  assumes "fn_seek ucmp seq max_skip ikey skip key l = (l', target)" "fn_counted_key l = user_key ikey"
  shows "fn_skipping l' = fn_skipping l"
    "target = Some t \<Longrightarrow> Compare (InternalKeyComparator ucmp) key t < 0
      \<and> t = (if fn_skipping l \<and> Compare ucmp (user_key ikey) skip \<le> 0 then InternalKey (user_key ikey) 0 kTypeDeletion
             else InternalKey (user_key ikey) seq kTypeValue)"
  using assms by (auto simp: fn_seek_def Let_def InternalKey_def kValueTypeForSeek_def split: if_splits)

text \<open>One step of the search, by \<open>Next\<close> or by a seek, passes only entries of the current user key.\<close>

lemma fwd_step:
  assumes at: "iat s es n" "n < length es" "versions_ok es"
    and tg: "(if max_skip \<noteq> 0 then fn_seek ucmp seq max_skip (pk (es ! n)) skip (fst (es ! n)) l2 else (l2, None)) = (l3, target)"
    and sk: "fn_skipping l3 \<longleftrightarrow> hide \<or> skipping" and l2: "fn_skipping l2 \<longleftrightarrow> hide \<or> skipping" "max_skip \<noteq> 0 \<Longrightarrow> fn_counted_key l2 = user_key (pk (es ! n))"
    and hide: "hide \<longleftrightarrow> visible seq (es ! n) \<and> vtype (pk (es ! n)) = kTypeDeletion"
    and nohit: "\<not> (visible seq (es ! n) \<and> vtype (pk (es ! n)) = kTypeValue \<and> \<not> (skipping \<and> Compare ucmp (ukey es n) skip0 \<le> 0))"
    and skip: "skip = (if hide then ukey es n else skip0)"
    and s': "s' = (case target of Some t \<Rightarrow> it_Seek it t s | None \<Rightarrow> it_Next it s)"
  obtains m where "iat s' es m" "n < m" "m \<le> length es" "\<forall>i. n \<le> i \<longrightarrow> i < m \<longrightarrow> ukey es i = ukey es n"
      "fn_skipping l3 \<and> Compare ucmp (ukey es n) skip \<le> 0 \<or> (\<forall>i. n \<le> i \<longrightarrow> i < m \<longrightarrow> \<not> visible seq (es ! i))"
proof (cases target)
  case None
  have "fn_skipping l3 \<and> Compare ucmp (ukey es n) skip \<le> 0 \<or> \<not> visible seq (es ! n)"
    using nohit hide sk skip user.cmp_refl by (cases "vtype (pk (es ! n))") auto
  then show ?thesis using that [of "Suc n"] iat_Next [OF at(1,2)] at(2) None s' by (auto simp: less_Suc_eq)
next
  case (Some t)
  let ?cur = "fn_skipping l2 \<and> Compare ucmp (user_key (pk (es ! n))) skip \<le> 0"
  have t: "Compare (InternalKeyComparator ucmp) (fst (es ! n)) t < 0"
    "t = (if ?cur then InternalKey (user_key (pk (es ! n))) 0 kTypeDeletion else InternalKey (user_key (pk (es ! n))) seq kTypeValue)"
    using fn_seek_cases(2) [of "pk (es ! n)" skip "fst (es ! n)" l2 l3 target t] tg l2(2) Some by (auto split: if_splits)
  define m where "m = seek_pos (InternalKeyComparator ucmp) t es"
  have so: "sorted_entries (InternalKeyComparator ucmp) (\<lambda>k. 8 \<le> length k) es" by (rule iat_sorted [OF at(1)])
  have less: "i < m \<longleftrightarrow> Compare (InternalKeyComparator ucmp) (fst (es ! i)) t < 0" if "i < length es" for i
    unfolding m_def using seek_pos_iff [OF so _ that] t(2) by simp
  have "n < m" using less [OF at(2)] t(1) by blast
  have ml: "m \<le> length es" by (simp add: m_def seek_pos_le)
  have "Compare ucmp (ukey es i) (ukey es n) \<le> 0" if "i < m" for i
    using less [of i] t(2) target_less(1,2) [OF at(3), of "es ! i"] seq_ok that ml user.cmp_refl by (auto simp: ukey_def split: if_splits)
  then have uk: "ukey es i = ukey es n" if "n \<le> i" "i < m" for i
    using ukey_mono [OF at(3) so that(1)] that ml user.cmp_eq user.cmp_sym by (smt (verit) less_le_trans)
  have "\<not> visible seq (es ! i)" if "\<not> ?cur" "n \<le> i" "i < m" for i
    using less [of i] t(2) that target_less(1) [OF at(3), of "es ! i"] seq_ok ml uk [OF that(2,3)] user.cmp_refl by (auto simp: ukey_def)
  then have j: "fn_skipping l3 \<and> Compare ucmp (ukey es n) skip \<le> 0 \<or> (\<forall>i. n \<le> i \<longrightarrow> i < m \<longrightarrow> \<not> visible seq (es ! i))"
    using sk l2(1) unfolding ukey_def by blast
  have "iat s' es m" unfolding s' Some option.case m_def by (rule iat_Seek [OF at(1)]) (simp add: t(2))
  from that [OF this \<open>n < m\<close> ml _ j] uk show ?thesis by blast
qed

lemma FindNext_loop_at:
  assumes "iat (di_iter d) es n" "n < length es" "versions_ok es" "rnd_live (di_rnd d)" "di_status d = OK"
    and "fwd_inv seq es goal n (fn_skipping l) (di_saved_key d)"
  shows "\<exists>d'. FindNext_loop ucmp it seq max_skip l d = Some d' \<and> rnd_live (di_rnd d') \<and> di_status d' = OK \<and> di_direction d' = di_direction d
    \<and> (if goal = {} then \<not> di_valid d' \<and> (\<exists>n'. iat (di_iter d') es n')
       else di_valid d' \<and> (\<exists>i\<in>goal. (\<forall>j\<in>goal. i \<le> j) \<and> iat (di_iter d') es i))"
  using assms
proof (induction "length es - n" arbitrary: n l d rule: less_induct)
  case less
  note so = iat_sorted [OF less.prems(1)]
  obtain d1 where P: "ParseKey it d = Some (Some (pk (es ! n)), d1)" "sampled d d1"
    by (rule ParseKey_at [OF less.prems(1-4)])
  then have d1: "di_iter d1 = di_iter d" "di_status d1 = OK" "di_saved_key d1 = di_saved_key d" "di_direction d1 = di_direction d" "rnd_live (di_rnd d1)"
    using less.prems(5) by (simp_all add: sampled_def)
  define l1 where "l1 = fn_count ucmp max_skip (pk (es ! n)) l"
  have l1: "fn_skipping l1 = fn_skipping l" "max_skip \<noteq> 0 \<Longrightarrow> fn_counted_key l1 = ukey es n" using fn_count_key by (simp_all add: l1_def ukey_def)
  note inv = less.prems(6)
  define hit where "hit \<longleftrightarrow> visible seq (es ! n) \<and> vtype (pk (es ! n)) = kTypeValue \<and> \<not> (fn_skipping l \<and> Compare ucmp (ukey es n) (di_saved_key d) \<le> 0)"
  show ?case
  proof (cases hit)
    case True
    have "shown seq es n" using True inv less.prems(2) unfolding fwd_inv_def shown_def hit_def by (metis order_refl)
    then have "n \<in> goal" "\<forall>j\<in>goal. n \<le> j" using True inv unfolding fwd_inv_def hit_def by auto
    then show ?thesis using True P(1) d1 l1(1) less.prems(1) unfolding hit_def
      by (subst FindNext_loop.simps) (auto simp: visible_def ukey_def l1_def [symmetric] Let_def)
  next
    case nohit: False
    define hide where "hide \<longleftrightarrow> visible seq (es ! n) \<and> vtype (pk (es ! n)) = kTypeDeletion"
    define skip where "skip = (if hide then ukey es n else di_saved_key d)"
    define l2 where "l2 = (if hide then l1\<lparr> fn_skipping := True \<rparr> else l1)"
    define d2 where "d2 = (if hide then d1\<lparr> di_saved_key := ukey es n \<rparr> else d1)"
    obtain l3 target where tg: "(if max_skip \<noteq> 0 then fn_seek ucmp seq max_skip (pk (es ! n)) skip (fst (es ! n)) l2 else (l2, None)) = (l3, target)" by fastforce
    define d3 where "d3 = d2\<lparr> di_iter := (case target of Some t \<Rightarrow> it_Seek it t (di_iter d) | None \<Rightarrow> it_Next it (di_iter d)) \<rparr>"
    have sk: "fn_skipping l3 \<longleftrightarrow> hide \<or> fn_skipping l" and l2: "fn_skipping l2 \<longleftrightarrow> hide \<or> fn_skipping l" "max_skip \<noteq> 0 \<Longrightarrow> fn_counted_key l2 = user_key (pk (es ! n))"
      using tg l1 fn_seek_cases(1) [of "pk (es ! n)" skip "fst (es ! n)" l2 l3 target] by (auto simp: l2_def ukey_def split: if_splits)
    have d3: "di_saved_key d3 = skip" "di_status d3 = OK" "di_direction d3 = di_direction d" "rnd_live (di_rnd d3)"
      using d1 by (simp_all add: d3_def d2_def skip_def)
    have nh: "\<not> (visible seq (es ! n) \<and> vtype (pk (es ! n)) = kTypeValue \<and> \<not> (fn_skipping l \<and> Compare ucmp (ukey es n) (di_saved_key d) \<le> 0))"
      using nohit unfolding hit_def .
    have s3: "di_iter d3 = (case target of Some t \<Rightarrow> it_Seek it t (di_iter d) | None \<Rightarrow> it_Next it (di_iter d))" by (simp add: d3_def)
    obtain m where m: "iat (di_iter d3) es m" "n < m" "m \<le> length es" "\<forall>i. n \<le> i \<longrightarrow> i < m \<longrightarrow> ukey es i = ukey es n"
      "fn_skipping l3 \<and> Compare ucmp (ukey es n) skip \<le> 0 \<or> (\<forall>i. n \<le> i \<longrightarrow> i < m \<longrightarrow> \<not> visible seq (es ! i))"
      by (rule fwd_step [OF less.prems(1-3) tg sk l2 hide_def nh skip_def s3])
    have inv3: "fwd_inv seq es goal m (fn_skipping l3) (di_saved_key d3)"
      unfolding d3(1) by (rule fwd_inv_advance [OF less.prems(3) so less.prems(2) inv hide_def sk skip_def m(2-5)])
    have i2: "di_iter d2 = di_iter d" "di_saved_key d2 = skip" using d1 by (simp_all add: d2_def skip_def)
    have tg': "(if max_skip \<noteq> 0 then fn_seek ucmp seq max_skip (pk (es ! n)) (di_saved_key d2) (it_key it (di_iter d2)) l2 else (l2, None)) = (l3, target)"
      unfolding i2 iat_key [OF less.prems(1,2)] by (rule tg)
    have d3': "d3 = d2\<lparr> di_iter := (case target of Some t \<Rightarrow> it_Seek it t (di_iter d2) | None \<Rightarrow> it_Next it (di_iter d2)) \<rparr>"
      unfolding i2 d3_def ..
    have eq: "FindNext_loop ucmp it seq max_skip l d =
        (if it_Valid it (di_iter d3) then FindNext_loop ucmp it seq max_skip l3 d3 else Some (d3\<lparr> di_saved_key := [], di_valid := False \<rparr>))"
      by (rule FindNext_loop_Some [OF P(1) l1_def hide_def [unfolded visible_def] d2_def [unfolded ukey_def] l2_def tg' d3'])
         (use nh in \<open>simp add: l1 d1 visible_def ukey_def\<close>)
    show ?thesis
    proof (cases "m < length es")
      case True
      then have "length es - m < length es - n" using m(2) by simp
      from less.hyps [OF this m(1) True less.prems(3) d3(4,2) inv3] show ?thesis unfolding eq using iat_Valid [OF m(1)] True d3(3) by simp
    next
      case False
      then have "goal = {}" using inv3 unfolding fwd_inv_def shown_def by fastforce
      then show ?thesis unfolding eq using iat_Valid [OF m(1)] False d3 m(1) by auto
    qed
  qed
qed

text \<open>Where the backward search stands: \<open>after_pos es n\<close> is the first entry after the internal iterator's position.\<close>

end

definition after_pos :: "entries \<Rightarrow> nat \<Rightarrow> nat" where
  "after_pos es n = (if n < length es then Suc n else 0)"

definition before_key :: "comparator \<Rightarrow> entries \<Rightarrow> nat \<Rightarrow> bytes \<Rightarrow> bool" where
  "before_key ucmp es q key \<longleftrightarrow> q \<le> length es \<and> (\<forall>j<length es. j < q \<longleftrightarrow> Compare ucmp (ukey es j) key < 0)"

definition rev_pos :: "comparator \<Rightarrow> u64 \<Rightarrow> entries \<Rightarrow> nat \<Rightarrow> bytes \<Rightarrow> bool" where
  "rev_pos ucmp seq es q key \<longleftrightarrow>
     q \<le> length es \<and> (\<forall>j<q. Compare ucmp (ukey es j) key < 0)
     \<and> (\<forall>j. q \<le> j \<longrightarrow> j < length es \<longrightarrow> Compare ucmp (ukey es j) key < 0 \<longrightarrow> \<not> visible seq (es ! j))"

definition bwd_inv :: "u64 \<Rightarrow> entries \<Rightarrow> nat \<Rightarrow> nat \<Rightarrow> ValueType \<Rightarrow> bytes \<Rightarrow> bytes \<Rightarrow> bool" where
  "bwd_inv seq es N q vt key val \<longleftrightarrow>
     (if vt = kTypeDeletion then \<forall>i. q \<le> i \<longrightarrow> i < N \<longrightarrow> \<not> shown seq es i
      else \<exists>p. q \<le> p \<and> p < N \<and> visible seq (es ! p) \<and> vtype (pk (es ! p)) = kTypeValue \<and> key = ukey es p \<and> val = snd (es ! p)
             \<and> (\<forall>i. q \<le> i \<longrightarrow> i < p \<longrightarrow> \<not> visible seq (es ! i)) \<and> (\<forall>i. p < i \<longrightarrow> i < N \<longrightarrow> \<not> shown seq es i))"

definition bwd_result :: "comparator \<Rightarrow> u64 \<Rightarrow> entries \<Rightarrow> nat \<Rightarrow> nat \<Rightarrow> ValueType \<Rightarrow> bytes \<Rightarrow> bytes \<Rightarrow> bool" where
  "bwd_result ucmp seq es N n vt key val \<longleftrightarrow>
     (if vt = kTypeDeletion then \<forall>i<N. \<not> shown seq es i
      else \<exists>p<N. shown seq es p \<and> (\<forall>i. p < i \<longrightarrow> i < N \<longrightarrow> \<not> shown seq es i) \<and> key = ukey es p \<and> val = snd (es ! p)
             \<and> rev_pos ucmp seq es (after_pos es n) (ukey es p))"

context db_iter
begin

lemma SeekBeforeUserKey_at:
  assumes "iat s es n" "versions_ok es"
  obtains n' where "iat (SeekBeforeUserKey it key s) es n'" "before_key ucmp es (after_pos es n') key"
proof -
  define t where "t = InternalKey key kMaxSequenceNumber kTypeValue"
  define m where "m = seek_pos (InternalKeyComparator ucmp) t es"
  have s1: "iat (it_Seek it t s) es m" unfolding m_def by (rule iat_Seek [OF assms(1)]) (simp add: t_def)
  have lt: "j < m \<longleftrightarrow> Compare ucmp (ukey es j) key < 0" if "j < length es" for j
    unfolding m_def using seek_pos_iff [OF iat_sorted [OF assms(1)] _ that, of t] target_less(3) [OF assms(2), of "es ! j" key] that by (simp add: t_def ukey_def)
  have ml: "m \<le> length es" by (simp add: m_def seek_pos_le)
  have eq: "SeekBeforeUserKey it key s = (if m < length es then it_Prev it (it_Seek it t s) else it_SeekToLast it (it_Seek it t s))"
    using iat_Valid [OF s1] iat_status [OF s1] by (simp add: SeekBeforeUserKey_def t_def InternalKey_def kValueTypeForSeek_def Let_def)
  have key: "before_key ucmp es m key" using lt ml by (simp add: before_key_def)
  show ?thesis
  proof (cases "m < length es")
    case True
    have "after_pos es (if m = 0 then length es else m - 1) = m" using True by (auto simp: after_pos_def)
    then show ?thesis using that iat_Prev [OF s1 True] True key eq by (metis (full_types))
  next
    case False
    have "after_pos es (length es - 1) = m" using False ml by (cases es) (auto simp: after_pos_def)
    then show ?thesis using that iat_SeekToLast [OF s1] False key eq by metis
  qed
qed

lemma FindValue_at:
  assumes at: "iat (di_iter d) es n0" "versions_ok es" "rnd_live (di_rnd d)" "di_status d = OK"
  obtains found d' n' where "FindValueForCurrentKeyUsingSeek ucmp it seq key d = Some (found, d')" "rnd_live (di_rnd d')" "di_status d' = OK"
    "di_direction d' = di_direction d" "di_valid d' = di_valid d" "iat (di_iter d') es n'" "before_key ucmp es (after_pos es n') key"
    "if found then \<exists>f. shown seq es f \<and> ukey es f = key \<and> di_saved_key d' = key \<and> di_saved_value d' = snd (es ! f)
     else \<forall>f. ukey es f = key \<longrightarrow> \<not> shown seq es f"
proof -
  note so = iat_sorted [OF at(1)]
  define t where "t = InternalKey key seq kTypeValue"
  define m where "m = seek_pos (InternalKeyComparator ucmp) t es"
  define d1 where "d1 = d\<lparr> di_iter := it_Seek it t (di_iter d) \<rparr>"
  have s1: "iat (di_iter d1) es m" unfolding d1_def m_def using iat_Seek [OF at(1), of t] by (simp add: t_def)
  have lt: "j < m \<longleftrightarrow> Compare ucmp (ukey es j) key < 0 \<or> ukey es j = key \<and> \<not> visible seq (es ! j)" if "j < length es" for j
    unfolding m_def using seek_pos_iff [OF so _ that, of t] target_less(1) [OF at(2) _ seq_ok, of "es ! j" key] that by (simp add: t_def ukey_def)
  obtain parsed d2 where P: "(if it_Valid it (di_iter d1) then ParseKey it d1 else Some (None, d1)) = Some (parsed, d2)" "sampled d1 d2"
    "parsed = (if m < length es then Some (pk (es ! m)) else None)"
  proof (cases "m < length es")
    case True
    have "rnd_live (di_rnd d1)" using at(3) by (simp add: d1_def)
    then obtain d2 where "ParseKey it d1 = Some (Some (pk (es ! m)), d2)" "sampled d1 d2" by (rule ParseKey_at [OF s1 True at(2)])
    then show ?thesis using that [of "Some (pk (es ! m))" d2] True iat_Valid [OF s1] by simp
  next
    case False
    then show ?thesis using that [of None d1] at(3) iat_Valid [OF s1] by (simp add: sampled_def d1_def)
  qed
  have d2: "di_iter d2 = di_iter d1" "di_status d2 = OK" "di_direction d2 = di_direction d" "di_valid d2 = di_valid d" "rnd_live (di_rnd d2)"
    using P(2) at(4) by (simp_all add: sampled_def d1_def)
  define found where "found \<longleftrightarrow> m < length es \<and> visible seq (es ! m) \<and> ukey es m = key \<and> vtype (pk (es ! m)) = kTypeValue"
  obtain n' where n': "iat (SeekBeforeUserKey it key (di_iter d1)) es n'" "before_key ucmp es (after_pos es n') key"
    by (rule SeekBeforeUserKey_at [OF s1 at(2)])
  define d3 where "d3 = (if found then d2\<lparr> di_saved_key := key, di_saved_value := snd (es ! m) \<rparr> else ClearSaveValue (d2\<lparr> di_saved_key := [] \<rparr>))\<lparr>
     di_iter := SeekBeforeUserKey it key (di_iter d1) \<rparr>"
  have f: "(case parsed of None \<Rightarrow> False | Some ikey \<Rightarrow> sequence ikey \<le> seq \<and> Compare ucmp (user_key ikey) key = 0 \<and> vtype ikey = kTypeValue) \<longleftrightarrow> found"
    using user.cmp_eq_iff by (simp add: P(3) found_def visible_def ukey_def)
  have st: "it_status it (di_iter d1) = OK" by (rule iat_status [OF s1])
  have v: "it_value it (di_iter d1) = snd (es ! m)" "user_key (the parsed) = key" if found
    using that iat_value [OF s1] P(3) by (auto simp: found_def ukey_def)
  have t: "AppendInternalKey [] \<lparr> user_key = key, sequence = seq, vtype = kValueTypeForSeek \<rparr> = t" by (simp add: t_def InternalKey_def kValueTypeForSeek_def)
  have eq: "FindValueForCurrentKeyUsingSeek ucmp it seq key d = Some (found, d3)"
    unfolding FindValueForCurrentKeyUsingSeek_def t Let_def d1_def [symmetric] P(1) option.case prod.case f
    using v d2 st by (cases found) (simp_all add: d3_def ClearSaveValue_def)
  have "shown seq es m" if found
    unfolding shown_def
  proof (intro conjI allI impI)
    fix j assume j: "j < m" "ukey es j = ukey es m"
    then have "j < length es" "ukey es j = key" using that by (auto simp: found_def)
    then show "\<not> visible seq (es ! j)" using lt [of j] j(1) user.cmp_refl by auto
  qed (use that in \<open>auto simp: found_def\<close>)
  moreover have "\<not> shown seq es f" if "\<not> found" "ukey es f = key" for f
  proof
    assume sh: "shown seq es f"
    then have f: "f < length es" "\<not> f < m" using lt [of f] that(2) user.cmp_refl by (auto simp: shown_def)
    have u: "Compare ucmp (ukey es m) key \<le> 0" using ukey_mono [OF at(2) so, of m f] f that(2) by simp
    then have m: "ukey es m = key" "visible seq (es ! m)" using lt [of m] f user.cmp_eq [of "ukey es m" key] by auto
    then have "m = f" using sh f that(2) by (metis linorder_neqE_nat shown_def)
    then show False using that(1) sh m f by (auto simp: found_def shown_def)
  qed
  ultimately show ?thesis
    by (intro that [OF eq _ _ _ _ _ n'(2)]) (use d2 n'(1) in \<open>auto simp: d3_def ClearSaveValue_def found_def\<close>)
qed

lemma bwd_finish:
  assumes inv: "bwd_inv seq es N q vt key val" and q: "q = after_pos es n" "N \<le> length es" "q \<le> length es"
    and front: "vt = kTypeDeletion \<Longrightarrow> q = 0" "\<forall>j<q. vt \<noteq> kTypeDeletion \<longrightarrow> Compare ucmp (ukey es j) key < 0"
    and so: "versions_ok es" "sorted_entries (InternalKeyComparator ucmp) (\<lambda>k. 8 \<le> length k) es"
  shows "bwd_result ucmp seq es N n vt key val"
proof (cases "vt = kTypeDeletion")
  case False
  then obtain p where p: "q \<le> p" "p < N" "visible seq (es ! p)" "vtype (pk (es ! p)) = kTypeValue" "key = ukey es p" "val = snd (es ! p)"
    "\<forall>i. q \<le> i \<longrightarrow> i < p \<longrightarrow> \<not> visible seq (es ! i)" "\<forall>i. p < i \<longrightarrow> i < N \<longrightarrow> \<not> shown seq es i"
    using inv unfolding bwd_inv_def by auto
  have lt: "Compare ucmp (ukey es j) (ukey es p) < 0" if "j < q" for j using front(2) that False p(5) by simp
  have "shown seq es p"
    unfolding shown_def
  proof (intro conjI allI impI)
    fix j assume j: "j < p" "ukey es j = ukey es p"
    then have "\<not> j < q" using lt [of j] user.cmp_refl by auto
    then show "\<not> visible seq (es ! j)" using p(7) j(1) by simp
  qed (use p q in auto)
  moreover have "\<not> visible seq (es ! j)" if j: "q \<le> j" "j < length es" "Compare ucmp (ukey es j) (ukey es p) < 0" for j
  proof -
    have "j < p" using ukey_mono [OF so, of p j] j user.cmp_sym [of "ukey es j" "ukey es p"] by (metis leI linorder_not_le)
    then show ?thesis using p(7) j(1) by simp
  qed
  ultimately show ?thesis using p False lt q unfolding bwd_result_def rev_pos_def by auto
qed (use inv front in \<open>auto simp: bwd_inv_def bwd_result_def\<close>)

lemma bwd_behind:
  assumes inv: "bwd_inv seq es N (Suc n) vt key val" and so: "versions_ok es" "sorted_entries (InternalKeyComparator ucmp) (\<lambda>k. 8 \<le> length k) es"
    and N: "N \<le> length es" and nb: "\<not> (vt \<noteq> kTypeDeletion \<and> Compare ucmp (ukey es n) key < 0)" and i: "n < i" "i < N"
    and vis: "ukey es i \<noteq> ukey es n \<or> visible seq (es ! n)"
  shows "\<not> shown seq es i"
proof (cases "vt = kTypeDeletion")
  case True
  then show ?thesis using inv i by (simp add: bwd_inv_def)
next
  case False
  then obtain p where p: "Suc n \<le> p" "p < N" "key = ukey es p" "\<forall>i. p < i \<longrightarrow> i < N \<longrightarrow> \<not> shown seq es i"
    using inv unfolding bwd_inv_def by auto
  show ?thesis
  proof (cases "p < i")
    case False
    note mono = ukey_mono [OF so]
    have "ukey es n = ukey es p" using mono [of n p] p N nb \<open>vt \<noteq> kTypeDeletion\<close> user.cmp_eq [of "ukey es n" "ukey es p"] by auto
    then have "Compare ucmp (ukey es i) (ukey es n) \<le> 0" "Compare ucmp (ukey es n) (ukey es i) \<le> 0"
      using mono [of i p] mono [of n i] p(2) N False i by auto
    then have "ukey es i = ukey es n" using user.cmp_sym [of "ukey es i" "ukey es n"] user.cmp_eq [of "ukey es i" "ukey es n"] by force
    then show ?thesis using vis i(1) by (auto simp: shown_def)
  qed (use p i in auto)
qed

lemma fp_record_inv:
  assumes inv: "bwd_inv seq es N (Suc n) (fp_value_type l) (di_saved_key d) (di_saved_value d)"
    and so: "versions_ok es" "sorted_entries (InternalKeyComparator ucmp) (\<lambda>k. 8 \<le> length k) es" and N: "n < N" "N \<le> length es"
    and at: "iat (di_iter d) es n"
    and nb: "\<not> (visible seq (es ! n) \<and> fp_value_type l \<noteq> kTypeDeletion \<and> Compare ucmp (ukey es n) (di_saved_key d) < 0)"
    and r: "fp_record it seq (Some (pk (es ! n))) l d = (l', d')"
  shows "bwd_inv seq es N n (fp_value_type l') (di_saved_key d') (di_saved_value d')"
proof (cases "visible seq (es ! n)")
  case False
  then have "l' = l" "d' = d" using r by (auto simp: fp_record_def visible_def)
  moreover have "\<not> visible seq (es ! i)" if "n \<le> i" "\<forall>i. Suc n \<le> i \<longrightarrow> i < p \<longrightarrow> \<not> visible seq (es ! i)" "i < p" for i p
    using that False by (cases "i = n") auto
  moreover have "\<not> shown seq es i" if "n \<le> i" "i < N" "\<forall>i. Suc n \<le> i \<longrightarrow> i < N \<longrightarrow> \<not> shown seq es i" for i
    using that False by (cases "i = n") (auto simp: shown_def)
  ultimately show ?thesis using inv unfolding bwd_inv_def by (metis Suc_leD)
next
  case True
  have "\<not> shown seq es i" if "n < i" "i < N" for i
    using bwd_behind [OF inv so N(2) _ that] nb True by blast
  moreover have "\<not> shown seq es n" if "vtype (pk (es ! n)) = kTypeDeletion" using that by (simp add: shown_def)
  ultimately show ?thesis
    using r True N iat_key [OF at] iat_value [OF at] pk_key(4) [OF so(1), of "es ! n"]
    by (cases "vtype (pk (es ! n))") (auto simp: fp_record_def visible_def bwd_inv_def ukey_def le_less)
qed

lemma fp_count_key: "fp_value_type (fp_count ucmp max_skip ikey l) = fp_value_type l" "fp_counted_key (fp_count ucmp max_skip ikey l) = user_key ikey"
  using user.cmp_eq [of "user_key ikey" "fp_counted_key l"] by (auto simp: fp_count_def Let_def)

lemma FindPrev_loop_Some:
  assumes p: "ParseKey it d = Some (Some ikey, d1)" and l1: "l1 = (if max_skip \<noteq> 0 then fp_count ucmp max_skip ikey l else l)"
    and before: "before \<longleftrightarrow> fp_value_type l \<noteq> kTypeDeletion \<and> Compare ucmp (user_key ikey) (di_saved_key d1) < 0"
  shows "FindPrev_loop ucmp it seq max_skip l d =
    (if max_skip \<noteq> 0 \<and> before then Some (fp_value_type l, d1)
     else if max_skip \<noteq> 0 \<and> max_skip \<le> fp_skipped l1 then
       (case FindValueForCurrentKeyUsingSeek ucmp it seq (fp_counted_key l1) d1 of
          None \<Rightarrow> None
        | Some (found, d) \<Rightarrow>
            if \<not> ok (di_status_of it d) then Some (kTypeDeletion, d)
            else if found then Some (kTypeValue, d)
            else let l = l1\<lparr> fp_value_type := kTypeDeletion, fp_has_counted_key := False \<rparr>
                 in if it_Valid it (di_iter d) then FindPrev_loop ucmp it seq max_skip l d else Some (fp_value_type l, d))
     else if sequence ikey \<le> seq \<and> before then Some (fp_value_type l1, d1)
     else (case fp_record it seq (Some ikey) l1 d1 of
             (l, d) \<Rightarrow> let d = d\<lparr> di_iter := it_Prev it (di_iter d) \<rparr>
                       in if it_Valid it (di_iter d) then FindPrev_loop ucmp it seq max_skip l d else Some (fp_value_type l, d)))"
  by (subst FindPrev_loop.simps) (simp only: p option.case prod.case Let_def option.sel before l1 option.simps simp_thms)

lemma bwd_seek_result:
  assumes inv: "bwd_inv seq es N (Suc n) vt key val" and N: "n < N" "N \<le> length es"
    and so: "versions_ok es" "sorted_entries (InternalKeyComparator ucmp) (\<lambda>k. 8 \<le> length k) es" and n: "n < length es"
    and R: "\<forall>i j. j < N \<longrightarrow> N \<le> i \<longrightarrow> i < length es \<longrightarrow> ukey es i = ukey es j \<longrightarrow> \<not> visible seq (es ! i)"
    and q: "before_key ucmp es (after_pos es n2) (ukey es n)"
    and fnd: "if found then \<exists>f. shown seq es f \<and> ukey es f = ukey es n \<and> key' = ukey es n \<and> val' = snd (es ! f)
         else \<forall>f. ukey es f = ukey es n \<longrightarrow> \<not> shown seq es f"
  shows "after_pos es n2 \<le> n"
    "\<not> (vt \<noteq> kTypeDeletion \<and> Compare ucmp (ukey es n) key < 0) \<Longrightarrow> \<not> found \<Longrightarrow> \<forall>i. after_pos es n2 \<le> i \<longrightarrow> i < N \<longrightarrow> \<not> shown seq es i"
    "\<not> (vt \<noteq> kTypeDeletion \<and> Compare ucmp (ukey es n) key < 0) \<Longrightarrow> found \<Longrightarrow> bwd_result ucmp seq es N n2 kTypeValue key' val'"
proof -
  let ?q = "after_pos es n2"
  have qq: "j < ?q \<longleftrightarrow> Compare ucmp (ukey es j) (ukey es n) < 0" if "j < length es" for j using q that by (simp add: before_key_def)
  show "?q \<le> n" using qq [OF n] user.cmp_refl [of "ukey es n"] by simp
  have other: "\<not> shown seq es i" if nb: "\<not> (vt \<noteq> kTypeDeletion \<and> Compare ucmp (ukey es n) key < 0)" and i: "?q \<le> i" "i < N" "ukey es i \<noteq> ukey es n" for i
  proof -
    have "\<not> i \<le> n" using ukey_mono [OF so _ n, of i] qq [of i] i N user.cmp_eq [of "ukey es i" "ukey es n"] by auto
    then show ?thesis using bwd_behind [OF inv so N(2) nb _ i(2)] i(3) by simp
  qed
  show "\<forall>i. ?q \<le> i \<longrightarrow> i < N \<longrightarrow> \<not> shown seq es i" if "\<not> (vt \<noteq> kTypeDeletion \<and> Compare ucmp (ukey es n) key < 0)" "\<not> found"
    using other [OF that(1)] fnd that(2) by auto
  show "bwd_result ucmp seq es N n2 kTypeValue key' val'" if nb: "\<not> (vt \<noteq> kTypeDeletion \<and> Compare ucmp (ukey es n) key < 0)" and found
  proof -
    obtain f where f: "shown seq es f" "ukey es f = ukey es n" "key' = ukey es n" "val' = snd (es ! f)" using fnd \<open>found\<close> by auto
    have fl: "f < length es" "visible seq (es ! f)" using f(1) by (auto simp: shown_def)
    have "f < N" using R N(1) fl f(2) by (meson leI)
    moreover have "\<not> shown seq es i" if "f < i" "i < N" for i
    proof (cases "ukey es i = ukey es n")
      case True
      then show ?thesis using that fl f(2) by (auto simp: shown_def)
    next
      case False
      have "?q \<le> f" using qq [OF fl(1)] f(2) user.cmp_refl [of "ukey es n"] by simp
      then show ?thesis using other [OF nb _ that(2) False] that(1) by simp
    qed
    moreover have "rev_pos ucmp seq es ?q (ukey es f)" using q f(2) unfolding rev_pos_def before_key_def by (auto dest: less_le_trans)
    ultimately show ?thesis using f unfolding bwd_result_def by auto
  qed
qed

lemma FindPrev_loop_at:
  assumes "iat (di_iter d) es n" "n < length es" "versions_ok es" "rnd_live (di_rnd d)" "di_status d = OK"
    and "bwd_inv seq es N (Suc n) (fp_value_type l) (di_saved_key d) (di_saved_value d)" "n < N" "N \<le> length es"
    and "\<forall>i j. j < N \<longrightarrow> N \<le> i \<longrightarrow> i < length es \<longrightarrow> ukey es i = ukey es j \<longrightarrow> \<not> visible seq (es ! i)"
  shows "\<exists>vt d' n'. FindPrev_loop ucmp it seq max_skip l d = Some (vt, d') \<and> rnd_live (di_rnd d') \<and> di_status d' = OK \<and> di_direction d' = di_direction d
    \<and> iat (di_iter d') es n' \<and> bwd_result ucmp seq es N n' vt (di_saved_key d') (di_saved_value d')"
  using assms(1-8)
proof (induction n arbitrary: l d rule: less_induct)
  case (less n)
  note so = less.prems(3) iat_sorted [OF less.prems(1)]
  note mono = ukey_mono [OF so]
  obtain d1 where P: "ParseKey it d = Some (Some (pk (es ! n)), d1)" "sampled d d1" by (rule ParseKey_at [OF less.prems(1-4)])
  then have d1: "di_iter d1 = di_iter d" "di_status d1 = OK" "di_saved_key d1 = di_saved_key d" "di_saved_value d1 = di_saved_value d"
    "di_direction d1 = di_direction d" "rnd_live (di_rnd d1)" using less.prems(5) by (simp_all add: sampled_def)
  define before where "before \<longleftrightarrow> fp_value_type l \<noteq> kTypeDeletion \<and> Compare ucmp (user_key (pk (es ! n))) (di_saved_key d1) < 0"
  define l1 where "l1 = (if max_skip \<noteq> 0 then fp_count ucmp max_skip (pk (es ! n)) l else l)"
  have l1: "fp_value_type l1 = fp_value_type l" "max_skip \<noteq> 0 \<Longrightarrow> fp_counted_key l1 = ukey es n" using fp_count_key by (simp_all add: l1_def ukey_def)
  note eq = FindPrev_loop_Some [OF P(1) l1_def before_def]
  have at1: "iat (di_iter d1) es n" using less.prems(1) d1 by simp
  have brk: "bwd_result ucmp seq es N n (fp_value_type l) (di_saved_key d1) (di_saved_value d1)" if before
  proof (rule bwd_finish [OF less.prems(6) [folded d1(3,4)] _ less.prems(8) _ _ _ so])
    show "\<forall>j<Suc n. fp_value_type l \<noteq> kTypeDeletion \<longrightarrow> Compare ucmp (ukey es j) (di_saved_key d1) < 0"
      using that mono [of _ n] less.prems(2) user.cmp_le_less_trans unfolding before_def ukey_def by (metis less_Suc_eq_le)
  qed (use that less.prems(2) in \<open>auto simp: before_def after_pos_def\<close>)
  show ?case
  proof (cases "max_skip \<noteq> 0 \<and> before")
    case True
    then show ?thesis unfolding eq using brk d1 at1 by auto
  next
    case nb: False
    show ?thesis
    proof (cases "max_skip \<noteq> 0 \<and> max_skip \<le> fp_skipped l1")
      case seek: True
      obtain found d2 n2 where F: "FindValueForCurrentKeyUsingSeek ucmp it seq (ukey es n) d1 = Some (found, d2)" "rnd_live (di_rnd d2)" "di_status d2 = OK"
        "di_direction d2 = di_direction d1" "di_valid d2 = di_valid d1" "iat (di_iter d2) es n2" "before_key ucmp es (after_pos es n2) (ukey es n)"
        "if found then \<exists>f. shown seq es f \<and> ukey es f = ukey es n \<and> di_saved_key d2 = ukey es n \<and> di_saved_value d2 = snd (es ! f)
         else \<forall>f. ukey es f = ukey es n \<longrightarrow> \<not> shown seq es f"
        by (rule FindValue_at [OF at1 so(1) d1(6,2), of "ukey es n"])
      note S = bwd_seek_result [OF less.prems(6-8) so less.prems(2) assms(9) F(7,8)]
      have nb': "\<not> (fp_value_type l \<noteq> kTypeDeletion \<and> Compare ucmp (ukey es n) (di_saved_key d) < 0)"
        using nb seek d1(3) by (simp add: before_def ukey_def)
      have st: "di_status_of it d2 = OK" using F(3) iat_status [OF F(6)] by (simp add: di_status_of_def)
      define l2 where "l2 = l1\<lparr> fp_value_type := kTypeDeletion, fp_has_counted_key := False \<rparr>"
      show ?thesis
      proof (cases "\<not> found \<and> n2 < length es")
        case True
        have "FindPrev_loop ucmp it seq max_skip l d = FindPrev_loop ucmp it seq max_skip l2 d2"
          unfolding eq using nb seek l1 F(1) st True iat_Valid [OF F(6)] by (simp add: l2_def Let_def)
        moreover have "bwd_inv seq es N (Suc n2) (fp_value_type l2) (di_saved_key d2) (di_saved_value d2)" "n2 < n"
          using S(2) [OF nb'] True S(1) by (auto simp: l2_def bwd_inv_def after_pos_def)
        moreover have "n2 < N" using \<open>n2 < n\<close> less.prems(7) by simp
        ultimately show ?thesis
          using less.IH [OF \<open>n2 < n\<close> F(6) _ so(1) F(2,3) _ _ less.prems(8), of l2] F(4) d1(5) True by simp
      next
        case False
        then have "FindPrev_loop ucmp it seq max_skip l d = Some (if found then kTypeValue else kTypeDeletion, d2)"
          unfolding eq using nb seek l1 F(1) st iat_Valid [OF F(6)] by (auto simp: Let_def)
        moreover have "bwd_result ucmp seq es N n2 (if found then kTypeValue else kTypeDeletion) (di_saved_key d2) (di_saved_value d2)"
          using S(2,3) [OF nb'] False by (auto simp: bwd_result_def after_pos_def)
        ultimately show ?thesis using F d1(5) by auto
      qed
    next
      case noseek: False
      show ?thesis
      proof (cases "visible seq (es ! n) \<and> before")
        case True
        then show ?thesis unfolding eq using nb noseek brk d1 at1 l1 by (auto simp: visible_def)
      next
        case nobreak: False
        obtain l2 d2 where r: "fp_record it seq (Some (pk (es ! n))) l1 d1 = (l2, d2)" by fastforce
        define d3 where "d3 = d2\<lparr> di_iter := it_Prev it (di_iter d2) \<rparr>"
        have e: "FindPrev_loop ucmp it seq max_skip l d = (if it_Valid it (di_iter d3) then FindPrev_loop ucmp it seq max_skip l2 d3 else Some (fp_value_type l2, d3))"
          unfolding eq using nb noseek nobreak r by (auto simp: visible_def d3_def Let_def)
        have inv3: "bwd_inv seq es N n (fp_value_type l2) (di_saved_key d3) (di_saved_value d3)"
          using fp_record_inv [OF _ so less.prems(7,8) at1 _ r] less.prems(6) nobreak l1 d1 by (simp add: d3_def before_def ukey_def)
        have d3: "di_status d3 = OK" "di_direction d3 = di_direction d" "rnd_live (di_rnd d3)" and at3: "iat (di_iter d3) es (if n = 0 then length es else n - 1)"
          using r d1 iat_Prev [OF at1 less.prems(2)] by (auto simp: d3_def fp_record_def ClearSaveValue_def split: if_splits)
        show ?thesis
        proof (cases n)
          case 0
          then have "bwd_result ucmp seq es N (length es) (fp_value_type l2) (di_saved_key d3) (di_saved_value d3)"
            by (intro bwd_finish [OF inv3 _ less.prems(8) _ _ _ so]) (auto simp: after_pos_def)
          then show ?thesis unfolding e using 0 at3 d3 iat_Valid [OF at3] by auto
        next
          case (Suc k)
          then show ?thesis unfolding e
            using less.IH [of k d3 l2] at3 less.prems(2,7,8) so d3 inv3 iat_Valid [OF at3] by simp
        qed
      qed
    qed
  qed
qed

lemma leave_key_loop_at:
  assumes "iat s es n" "n < length es" "versions_ok es" "\<not> Compare ucmp (ukey es n) u < 0"
  shows "\<exists>left s' n'. leave_key_loop ucmp it max_skip u skipped s = Some (left, s') \<and> iat s' es n' \<and> (left \<longleftrightarrow> n' < length es)
    \<and> before_key ucmp es (after_pos es n') u"
  using assms
proof (induction n arbitrary: s skipped)
  case 0
  have "before_key ucmp es 0 u"
    using 0(4) ukey_mono [OF 0(3) iat_sorted [OF 0(1)], of 0] user.cmp_le_less_trans unfolding before_key_def by (metis not_less_zero zero_le)
  then show ?case using iat_Prev [OF 0(1,2)] iat_Valid by (subst leave_key_loop.simps) (auto simp: after_pos_def Let_def)
next
  case (Suc n)
  note so = Suc.prems(3) iat_sorted [OF Suc.prems(1)]
  have at1: "iat (it_Prev it s) es n" and n: "n < length es" using iat_Prev [OF Suc.prems(1,2)] Suc.prems(2) by auto
  have k: "ExtractUserKey (it_key it (it_Prev it s)) = ukey es n"
    using iat_key [OF at1 n] pk_key(4) [OF so(1) nth_mem [OF n]] by (simp add: ukey_def)
  show ?case
  proof (cases "Compare ucmp (ukey es n) u < 0")
    case True
    have "j < Suc n \<longleftrightarrow> Compare ucmp (ukey es j) u < 0" if j: "j < length es" for j
    proof (cases "j < Suc n")
      case True
      then show ?thesis using ukey_mono [OF so, of j n] n \<open>Compare ucmp (ukey es n) u < 0\<close> user.cmp_le_less_trans by (metis less_Suc_eq_le)
    next
      case False
      then show ?thesis using ukey_mono [OF so, of "Suc n" j] j Suc.prems(4) user.cmp_le_less_trans by (metis not_less)
    qed
    then have "before_key ucmp es (after_pos es n) u" using n by (auto simp: before_key_def after_pos_def)
    then show ?thesis using True k n at1 iat_Valid [OF at1] by (subst leave_key_loop.simps) (auto simp: Let_def)
  next
    case False
    obtain n' where S: "iat (SeekBeforeUserKey it u (it_Prev it s)) es n'" "before_key ucmp es (after_pos es n') u"
      by (rule SeekBeforeUserKey_at [OF at1 so(1)])
    show ?thesis
    proof (cases "max_skip \<noteq> 0 \<and> max_skip \<le> skipped + 1")
      case True
      then show ?thesis using False k n S iat_Valid [OF at1] iat_Valid [OF S(1)] by (subst leave_key_loop.simps) (auto simp: Let_def)
    next
      case nolimit: False
      show ?thesis using Suc.IH [OF at1 n so(1) False, of "if max_skip \<noteq> 0 then skipped + 1 else skipped"] False k n nolimit iat_Valid [OF at1]
        by (subst leave_key_loop.simps) (auto simp: Let_def)
    qed
  qed
qed

end

section \<open>Positions in the user's view\<close>

definition cnt :: "u64 \<Rightarrow> entries \<Rightarrow> nat \<Rightarrow> nat" where
  "cnt seq es n = length (filter (shown seq es) [0..<n])"

lemma cnt_Suc: "cnt seq es (Suc n) = cnt seq es n + (if shown seq es n then 1 else 0)"
  by (simp add: cnt_def)

lemma cnt_gap: "\<forall>k. i \<le> k \<longrightarrow> k < j \<longrightarrow> \<not> shown seq es k \<Longrightarrow> i \<le> j \<Longrightarrow> cnt seq es j = cnt seq es i"
  by (induction j) (auto simp: cnt_Suc le_Suc_eq)

lemma cnt_length: "cnt seq es (length es) = length (user_view seq es)"
  by (simp add: cnt_def user_view_def)

lemma upt_split: "n \<le> m \<Longrightarrow> [0..<m] = [0..<n] @ [n..<m]"
  using upt_add_eq_append [of 0 n "m - n"] by simp

lemma user_view_split:
  assumes "n \<le> length es"
  shows "user_view seq es = map (\<lambda>i. (ukey es i, snd (es ! i))) (filter (shown seq es) [0..<n])
    @ map (\<lambda>i. (ukey es i, snd (es ! i))) (filter (shown seq es) [n..<length es])"
  using assms by (simp add: user_view_def upt_split)

lemma user_view_nth:
  assumes "shown seq es i"
  shows "cnt seq es i < length (user_view seq es)" "user_view seq es ! cnt seq es i = (ukey es i, snd (es ! i))"
proof -
  have i: "i < length es" using assms by (simp add: shown_def)
  then have "filter (shown seq es) [i..<length es] = i # filter (shown seq es) [Suc i..<length es]" using assms by (simp add: upt_conv_Cons)
  then show "cnt seq es i < length (user_view seq es)" "user_view seq es ! cnt seq es i = (ukey es i, snd (es ! i))"
    using user_view_split [of i es seq] i by (simp_all add: cnt_def nth_append)
qed

context internal_keys
begin

lemma shown_less:
  assumes "versions_ok es" "sorted_entries (InternalKeyComparator ucmp) (\<lambda>k. 8 \<le> length k) es" "shown seq es i" "shown seq es j" "i < j"
  shows "Compare ucmp (ukey es i) (ukey es j) < 0"
proof -
  have "ukey es i \<noteq> ukey es j" using assms(3-5) by (auto simp: shown_def)
  then have "Compare ucmp (ukey es i) (ukey es j) \<noteq> 0" using user.cmp_eq [of "ukey es i" "ukey es j"] by auto
  moreover have "Compare ucmp (ukey es i) (ukey es j) \<le> 0" using ukey_mono [OF assms(1,2), of i j] assms(4,5) by (auto simp: shown_def)
  ultimately show ?thesis by simp
qed

lemma user_view_sorted:
  assumes "versions_ok es" "sorted_entries (InternalKeyComparator ucmp) (\<lambda>k. 8 \<le> length k) es"
  shows "sorted_entries ucmp (\<lambda>_. True) (user_view seq es)"
  unfolding sorted_entries_def user_view_def sorted_wrt_map
  using sorted_wrt_filter [OF sorted_wrt_upt [of 0 "length es"], of "shown seq es"] shown_less [OF assms]
  by (auto intro: sorted_wrt_mono_rel [rotated])

lemma user_view_seek:
  assumes "n \<le> length es" "\<forall>i. shown seq es i \<longrightarrow> (i < n \<longleftrightarrow> Compare ucmp (ukey es i) t < 0)"
  shows "seek_pos ucmp t (user_view seq es) = cnt seq es n"
proof -
  let ?P = "\<lambda>e. Compare ucmp (fst e) t < 0" and ?f = "\<lambda>i. (ukey es i, snd (es ! i))"
  have "takeWhile ?P (map ?f (filter (shown seq es) [n..<length es])) = []"
  proof (cases "filter (shown seq es) [n..<length es]")
    case (Cons a as)
    then have "a \<in> set (filter (shown seq es) [n..<length es])" by (simp only: list.set_intros)
    then have "shown seq es a" "\<not> a < n" by auto
    then show ?thesis using assms(2) Cons by auto
  qed simp
  moreover have "\<forall>e\<in>set (map ?f (filter (shown seq es) [0..<n])). ?P e" using assms(2) by auto
  ultimately show ?thesis unfolding user_view_split [OF assms(1)] seek_pos_def cnt_def by (subst takeWhile_append2) auto
qed

lemma fwd_inv_next:
  assumes so: "versions_ok es" "sorted_entries (InternalKeyComparator ucmp) (\<lambda>k. 8 \<le> length k) es" and i: "shown seq es i"
    and q: "q \<le> Suc i" "\<forall>j<q. Compare ucmp (ukey es j) (ukey es i) \<le> 0"
      "\<forall>j. q \<le> j \<longrightarrow> j < length es \<longrightarrow> visible seq (es ! j) \<longrightarrow> \<not> Compare ucmp (ukey es j) (ukey es i) < 0"
  shows "fwd_inv seq es {k. shown seq es k \<and> Suc i \<le> k} q True (ukey es i)"
proof -
  have "Suc i \<le> k \<longleftrightarrow> \<not> Compare ucmp (ukey es k) (ukey es i) \<le> 0" if k: "shown seq es k" for k
  proof (cases "Suc i \<le> k")
    case True
    then have "Compare ucmp (ukey es i) (ukey es k) < 0" using shown_less [OF so i k] by simp
    then show ?thesis using True user.cmp_sym [of "ukey es i" "ukey es k"] by auto
  next
    case False
    then show ?thesis using ukey_mono [OF so, of k i] i by (auto simp: shown_def)
  qed
  then show ?thesis using q unfolding fwd_inv_def by auto
qed

lemma rev_pos_cnt:
  assumes so: "versions_ok es" "sorted_entries (InternalKeyComparator ucmp) (\<lambda>k. 8 \<le> length k) es" and i: "shown seq es i"
    and q: "rev_pos ucmp seq es q (ukey es i)"
  shows "q \<le> i" "cnt seq es q = cnt seq es i"
    "\<forall>k j. j < q \<longrightarrow> q \<le> k \<longrightarrow> k < length es \<longrightarrow> ukey es k = ukey es j \<longrightarrow> \<not> visible seq (es ! k)"
proof -
  show le: "q \<le> i" using q user.cmp_refl [of "ukey es i"] unfolding rev_pos_def by (metis less_irrefl not_le)
  have "\<not> shown seq es k" if k: "q \<le> k" "k < i" for k
  proof
    assume s: "shown seq es k"
    then show False using shown_less [OF so s i k(2)] q k(1) unfolding rev_pos_def shown_def by blast
  qed
  then show "cnt seq es q = cnt seq es i" using cnt_gap [of q i seq es] le by simp
  show "\<forall>k j. j < q \<longrightarrow> q \<le> k \<longrightarrow> k < length es \<longrightarrow> ukey es k = ukey es j \<longrightarrow> \<not> visible seq (es ! k)"
    using q unfolding rev_pos_def by auto
qed

end

section \<open>The contract of the database iterator\<close>

text \<open>
  \<open>dbi_at\<close>: the internal iterator stands on the shown entry itself when it moves forward; when it moves backward it
  stands before the entries of the key, and key and value are saved.
\<close>

definition dbi_at ::
  "comparator \<Rightarrow> ('s \<Rightarrow> entries \<Rightarrow> nat \<Rightarrow> bool) \<Rightarrow> u64 \<Rightarrow> 's DBIter option \<Rightarrow> entries \<Rightarrow> nat \<Rightarrow> bool" where
  "dbi_at ucmp iat seq s vs p \<longleftrightarrow>
     (\<exists>d es n. s = Some d \<and> iat (di_iter d) es n \<and> versions_ok es \<and> vs = user_view seq es \<and> p \<le> length vs
       \<and> rnd_live (di_rnd d) \<and> di_status d = OK \<and> (di_valid d \<longleftrightarrow> p < length vs)
       \<and> (di_valid d \<longrightarrow>
            (\<exists>i. shown seq es i \<and> p = cnt seq es i
               \<and> (if di_direction d = kForward then n = i
                  else di_saved_key d = ukey es i \<and> di_saved_value d = snd (es ! i)
                    \<and> rev_pos ucmp seq es (after_pos es n) (ukey es i)))))"

context db_iter
begin

lemma dbi_atI:
  assumes "iat (di_iter d) es n" "versions_ok es" "rnd_live (di_rnd d)" "di_status d = OK"
    and "if di_valid d then \<exists>i. shown seq es i \<and> p = cnt seq es i
               \<and> (if di_direction d = kForward then n = i
                  else di_saved_key d = ukey es i \<and> di_saved_value d = snd (es ! i) \<and> rev_pos ucmp seq es (after_pos es n) (ukey es i))
         else p = length (user_view seq es)"
  shows "dbi_at ucmp iat seq (Some d) (user_view seq es) p"
  unfolding dbi_at_def using assms user_view_nth(1) by (intro exI [of _ d] exI [of _ es] exI [of _ n]) (auto simp: less_imp_le split: if_splits)

lemma forward_at:
  assumes at: "iat (di_iter d) es n" "versions_ok es" "rnd_live (di_rnd d)" "di_status d = OK" "di_direction d = kForward"
    and inv: "fwd_inv seq es {i. shown seq es i \<and> m \<le> i} n skipping (di_saved_key d)" and m: "m \<le> length es"
  shows "n < length es \<Longrightarrow> dbi_at ucmp iat seq (FindNextUserEntry ucmp it seq max_skip skipping d) (user_view seq es) (cnt seq es m)"
    "n = length es \<Longrightarrow> \<not> di_valid d' \<Longrightarrow> di_iter d' = di_iter d \<Longrightarrow> di_rnd d' = di_rnd d \<Longrightarrow> di_status d' = OK \<Longrightarrow>
      dbi_at ucmp iat seq (Some d') (user_view seq es) (cnt seq es m)"
proof -
  have none: "cnt seq es m = length (user_view seq es)" if "{i. shown seq es i \<and> m \<le> i} = {}"
  proof -
    have "\<forall>k. m \<le> k \<longrightarrow> k < length es \<longrightarrow> \<not> shown seq es k" using that by auto
    then show ?thesis using cnt_gap m by (simp flip: cnt_length)
  qed
  show "dbi_at ucmp iat seq (FindNextUserEntry ucmp it seq max_skip skipping d) (user_view seq es) (cnt seq es m)" if n: "n < length es"
  proof -
    let ?goal = "{i. shown seq es i \<and> m \<le> i}"
    obtain d' where d': "FindNext_loop ucmp it seq max_skip (fn_init skipping) d = Some d'" "rnd_live (di_rnd d')" "di_status d' = OK" "di_direction d' = kForward"
      "if ?goal = {} then \<not> di_valid d' \<and> (\<exists>n'. iat (di_iter d') es n')
       else di_valid d' \<and> (\<exists>i\<in>?goal. (\<forall>j\<in>?goal. i \<le> j) \<and> iat (di_iter d') es i)"
      using FindNext_loop_at [OF at(1) n at(2-4), of ?goal "fn_init skipping"] inv at(5) by (auto simp: fn_init_def)
    show ?thesis
    proof (cases "?goal = {}")
      case True
      then obtain n' where n': "\<not> di_valid d'" "iat (di_iter d') es n'" using d'(5) unfolding if_P [OF True] by blast
      then show ?thesis unfolding FindNextUserEntry_def d'(1) using none [OF True] by (intro dbi_atI [OF n'(2) at(2) d'(2,3)]) simp
    next
      case False
      then obtain i where i: "di_valid d'" "shown seq es i" "m \<le> i" "\<forall>j\<in>?goal. i \<le> j" "iat (di_iter d') es i" using d'(5) unfolding if_not_P [OF False] by blast
      then have "cnt seq es m = cnt seq es i" using cnt_gap [of m i seq es] by force
      then show ?thesis unfolding FindNextUserEntry_def d'(1) using i(1,2) d'(4) by (intro dbi_atI [OF i(5) at(2) d'(2,3)]) auto
    qed
  qed
  show "dbi_at ucmp iat seq (Some d') (user_view seq es) (cnt seq es m)"
    if "n = length es" "\<not> di_valid d'" "di_iter d' = di_iter d" "di_rnd d' = di_rnd d" "di_status d' = OK"
  proof -
    have "{i. shown seq es i \<and> m \<le> i} = {}" using inv that(1) unfolding fwd_inv_def shown_def by fastforce
    then show ?thesis using that at none by (intro dbi_atI [of _ _ n]) auto
  qed
qed

lemma FindPrevUserEntry_at:
  assumes at: "iat (di_iter d) es n" "versions_ok es" "rnd_live (di_rnd d)" "di_status d = OK" "di_direction d = kReverse"
    and R: "\<forall>k j. j < after_pos es n \<longrightarrow> after_pos es n \<le> k \<longrightarrow> k < length es \<longrightarrow> ukey es k = ukey es j \<longrightarrow> \<not> visible seq (es ! k)"
  shows "dbi_at ucmp iat seq (FindPrevUserEntry ucmp it seq max_skip d) (user_view seq es)
    (if cnt seq es (after_pos es n) = 0 then length (user_view seq es) else cnt seq es (after_pos es n) - 1)"
proof -
  let ?N = "after_pos es n"
  obtain vt d' n' where L: "(if it_Valid it (di_iter d) then FindPrev_loop ucmp it seq max_skip fp_init d else Some (kTypeDeletion, d)) = Some (vt, d')"
    "rnd_live (di_rnd d')" "di_status d' = OK" "di_direction d' = kReverse" "iat (di_iter d') es n'"
    "bwd_result ucmp seq es ?N n' vt (di_saved_key d') (di_saved_value d')"
  proof (cases "n < length es")
    case True
    then have "bwd_inv seq es ?N (Suc n) (fp_value_type fp_init) (di_saved_key d) (di_saved_value d)" "n < ?N" "?N \<le> length es"
      by (auto simp: bwd_inv_def fp_init_def after_pos_def)
    then show ?thesis using FindPrev_loop_at [OF at(1) True at(2-4) _ _ _ R, of fp_init] True iat_Valid [OF at(1)] at(5) that by auto
  next
    case False
    then have "bwd_result ucmp seq es ?N n kTypeDeletion (di_saved_key d) (di_saved_value d)" by (simp add: bwd_result_def after_pos_def)
    then show ?thesis using that [of kTypeDeletion d n] at False iat_Valid [OF at(1)] by simp
  qed
  show ?thesis
  proof (cases "vt = kTypeDeletion")
    case True
    then have "cnt seq es ?N = 0" using L(6) by (auto simp: bwd_result_def cnt_def filter_empty_conv)
    then show ?thesis unfolding FindPrevUserEntry_def L(1) using True L at(2) by (auto simp: ClearSaveValue_def intro!: dbi_atI)
  next
    case False
    then obtain p where p: "p < ?N" "shown seq es p" "\<forall>i. p < i \<longrightarrow> i < ?N \<longrightarrow> \<not> shown seq es i" "di_saved_key d' = ukey es p" "di_saved_value d' = snd (es ! p)"
      "rev_pos ucmp seq es (after_pos es n') (ukey es p)" using L(6) by (auto simp: bwd_result_def)
    have "cnt seq es ?N = Suc (cnt seq es p)" using cnt_gap [of "Suc p" ?N seq es] p by (simp add: cnt_Suc)
    then show ?thesis unfolding FindPrevUserEntry_def L(1) using False L p at(2) by (auto intro!: dbi_atI)
  qed
qed

lemma dbi_atE:
  assumes "dbi_at ucmp iat seq s vs p"
  obtains d es n where "s = Some d" "iat (di_iter d) es n" "versions_ok es" "vs = user_view seq es" "p \<le> length vs" "rnd_live (di_rnd d)" "di_status d = OK"
    "di_valid d \<longleftrightarrow> p < length vs"
    "di_valid d \<Longrightarrow> \<exists>i. shown seq es i \<and> p = cnt seq es i
       \<and> (if di_direction d = kForward then n = i
          else di_saved_key d = ukey es i \<and> di_saved_value d = snd (es ! i) \<and> rev_pos ucmp seq es (after_pos es n) (ukey es i))"
  using assms unfolding dbi_at_def by blast

lemma SeekToFirst_at:
  assumes "dbi_at ucmp iat seq s vs p"
  shows "dbi_at ucmp iat seq (it_SeekToFirst (DBIterator ucmp it seq max_skip) s) vs 0"
proof (rule dbi_atE [OF assms])
  fix d es n assume d: "s = Some d" "iat (di_iter d) es n" "versions_ok es" "vs = user_view seq es" "rnd_live (di_rnd d)" "di_status d = OK"
  define d1 where "d1 = (ClearSaveValue (d\<lparr> di_direction := kForward \<rparr>))\<lparr> di_iter := it_SeekToFirst it (di_iter d) \<rparr>"
  have at1: "iat (di_iter d1) es 0" and f: "versions_ok es" "rnd_live (di_rnd d1)" "di_status d1 = OK" "di_direction d1 = kForward"
    using iat_SeekToFirst [OF d(2)] d by (simp_all add: d1_def ClearSaveValue_def)
  have "fwd_inv seq es {i. shown seq es i \<and> 0 \<le> i} 0 False (di_saved_key d1)" by (simp add: fwd_inv_def)
  note F = forward_at [OF at1 f this]
  have "it_SeekToFirst (DBIterator ucmp it seq max_skip) s =
    (if it_Valid it (di_iter d1) then FindNextUserEntry ucmp it seq max_skip False d1 else Some (d1\<lparr> di_valid := False \<rparr>))"
    by (simp add: DBIterator_def d(1) di_SeekToFirst_def d1_def ClearSaveValue_def Let_def)
  moreover have "cnt seq es 0 = 0" by (simp add: cnt_def)
  ultimately show ?thesis using F(1) F(2) [of "d1\<lparr> di_valid := False \<rparr>"] f iat_Valid [OF at1] d(4) by auto
qed

lemma SeekToLast_at:
  assumes "dbi_at ucmp iat seq s vs p"
  shows "dbi_at ucmp iat seq (it_SeekToLast (DBIterator ucmp it seq max_skip) s) vs (length vs - 1)"
proof (rule dbi_atE [OF assms])
  fix d es n assume d: "s = Some d" "iat (di_iter d) es n" "versions_ok es" "vs = user_view seq es" "rnd_live (di_rnd d)" "di_status d = OK"
  define d1 where "d1 = (ClearSaveValue (d\<lparr> di_direction := kReverse \<rparr>))\<lparr> di_iter := it_SeekToLast it (di_iter d) \<rparr>"
  have at1: "iat (di_iter d1) es (length es - 1)" and f: "versions_ok es" "rnd_live (di_rnd d1)" "di_status d1 = OK" "di_direction d1 = kReverse"
    using iat_SeekToLast [OF d(2)] d by (simp_all add: d1_def ClearSaveValue_def)
  have N: "after_pos es (length es - 1) = length es" by (cases es) (auto simp: after_pos_def)
  have "it_SeekToLast (DBIterator ucmp it seq max_skip) s = FindPrevUserEntry ucmp it seq max_skip d1"
    by (simp add: DBIterator_def d(1) di_SeekToLast_def d1_def ClearSaveValue_def Let_def)
  moreover have "dbi_at ucmp iat seq (FindPrevUserEntry ucmp it seq max_skip d1) (user_view seq es)
    (if length (user_view seq es) = 0 then length (user_view seq es) else length (user_view seq es) - 1)"
    using FindPrevUserEntry_at [OF at1 f] unfolding N cnt_length by simp
  moreover have "(if length vs = 0 then length vs else length vs - 1) = length vs - 1" by simp
  ultimately show ?thesis unfolding d(4) by (simp only:)
qed

lemma Seek_at:
  assumes "dbi_at ucmp iat seq s vs p"
  shows "dbi_at ucmp iat seq (it_Seek (DBIterator ucmp it seq max_skip) t s) vs (seek_pos ucmp t vs)"
proof (rule dbi_atE [OF assms])
  fix d es n assume d: "s = Some d" "iat (di_iter d) es n" "versions_ok es" "vs = user_view seq es" "rnd_live (di_rnd d)" "di_status d = OK"
  define k where "k = InternalKey t seq kTypeValue"
  define m where "m = seek_pos (InternalKeyComparator ucmp) k es"
  define d1 where "d1 = (ClearSaveValue (d\<lparr> di_direction := kForward \<rparr>))\<lparr> di_saved_key := k, di_iter := it_Seek it k (di_iter d) \<rparr>"
  have at1: "iat (di_iter d1) es m" and f: "versions_ok es" "rnd_live (di_rnd d1)" "di_status d1 = OK" "di_direction d1 = kForward"
    using iat_Seek [OF d(2), of k] d by (simp_all add: d1_def ClearSaveValue_def m_def k_def)
  have lt: "j < m \<longleftrightarrow> Compare ucmp (ukey es j) t < 0 \<or> ukey es j = t \<and> \<not> visible seq (es ! j)" if "j < length es" for j
    unfolding m_def using seek_pos_iff [OF iat_sorted [OF d(2)] _ that, of k] target_less(1) [OF d(3) _ seq_ok, of "es ! j" t] that by (simp add: k_def ukey_def)
  have ml: "m \<le> length es" using iat_le [OF at1] .
  have "ukey es j \<noteq> ukey es i" if "j < m" "m \<le> i" "i < length es" "visible seq (es ! j)" for i j
    using lt [of j] lt [of i] that by auto
  then have inv: "fwd_inv seq es {i. shown seq es i \<and> m \<le> i} m False (di_saved_key d1)" unfolding fwd_inv_def by fastforce
  have sh: "\<forall>i. shown seq es i \<longrightarrow> (i < m \<longleftrightarrow> Compare ucmp (ukey es i) t < 0)" using lt by (auto simp: shown_def)
  have "it_Seek (DBIterator ucmp it seq max_skip) t s =
    (if it_Valid it (di_iter d1) then FindNextUserEntry ucmp it seq max_skip False d1 else Some (d1\<lparr> di_valid := False \<rparr>))"
    by (simp add: DBIterator_def d(1) di_Seek_def d1_def ClearSaveValue_def Let_def k_def InternalKey_def kValueTypeForSeek_def)
  then show ?thesis
    using forward_at(1) [OF at1 f inv ml] forward_at(2) [OF at1 f inv ml, of "d1\<lparr> di_valid := False \<rparr>"] f iat_Valid [OF at1] ml
      user_view_seek [OF ml sh] unfolding d(4) by auto
qed

lemma Next_at:
  assumes "dbi_at ucmp iat seq s vs p" "p < length vs"
  shows "dbi_at ucmp iat seq (it_Next (DBIterator ucmp it seq max_skip) s) vs (Suc p)"
proof (rule dbi_atE [OF assms(1)])
  fix d es n assume d: "s = Some d" "iat (di_iter d) es n" "versions_ok es" "vs = user_view seq es" "rnd_live (di_rnd d)" "di_status d = OK"
    and v: "di_valid d \<longleftrightarrow> p < length vs" "di_valid d \<Longrightarrow> \<exists>i. shown seq es i \<and> p = cnt seq es i
       \<and> (if di_direction d = kForward then n = i
          else di_saved_key d = ukey es i \<and> di_saved_value d = snd (es ! i) \<and> rev_pos ucmp seq es (after_pos es n) (ukey es i))"
  note so = d(3) iat_sorted [OF d(2)]
  obtain i where i: "shown seq es i" "p = cnt seq es i" and dir: "if di_direction d = kForward then n = i
    else di_saved_key d = ukey es i \<and> di_saved_value d = snd (es ! i) \<and> rev_pos ucmp seq es (after_pos es n) (ukey es i)" using v assms(2) by auto
  have il: "i < length es" "visible seq (es ! i)" using i(1) by (auto simp: shown_def)
  define d1 where "d1 = (if di_direction d = kReverse then
                 d\<lparr> di_direction := kForward,
                    di_iter := (if \<not> it_Valid it (di_iter d) then it_SeekToFirst it (di_iter d) else it_Next it (di_iter d)) \<rparr>
               else d\<lparr> di_saved_key := ExtractUserKey (it_key it (di_iter d)), di_iter := it_Next it (di_iter d) \<rparr>)"
  have f: "versions_ok es" "rnd_live (di_rnd d1)" "di_status d1 = OK" "di_direction d1 = kForward"
    using d by (cases "di_direction d"; simp add: d1_def)+
  obtain q where q: "iat (di_iter d1) es q" "fwd_inv seq es {k. shown seq es k \<and> Suc i \<le> k} q True (di_saved_key d1)"
  proof (cases "di_direction d")
    case kForward
    then have [simp]: "n = i" using dir by simp
    have "di_saved_key d1 = ukey es i" "iat (di_iter d1) es (Suc i)"
      using kForward iat_Next [OF d(2)] iat_key [OF d(2)] il pk_key(4) [OF so(1) nth_mem [OF il(1)]] by (simp_all add: d1_def ukey_def)
    moreover have "fwd_inv seq es {k. shown seq es k \<and> Suc i \<le> k} (Suc i) True (ukey es i)"
    proof (rule fwd_inv_next [OF so i(1) order_refl])
      show "\<forall>j<Suc i. Compare ucmp (ukey es j) (ukey es i) \<le> 0" using ukey_mono [OF so _ il(1)] by (simp add: less_Suc_eq_le)
      show "\<forall>j. Suc i \<le> j \<longrightarrow> j < length es \<longrightarrow> visible seq (es ! j) \<longrightarrow> \<not> Compare ucmp (ukey es j) (ukey es i) < 0"
        using ukey_mono [OF so, of i] user.cmp_sym by (metis Suc_leD linorder_not_le)
    qed
    ultimately show ?thesis using that by metis
  next
    case kReverse
    then have r: "di_saved_key d1 = ukey es i" "rev_pos ucmp seq es (after_pos es n) (ukey es i)" using dir by (simp_all add: d1_def)
    have "iat (di_iter d1) es (after_pos es n)"
      using kReverse iat_Next [OF d(2)] iat_SeekToFirst [OF d(2)] iat_Valid [OF d(2)] by (simp add: d1_def after_pos_def)
    moreover have "fwd_inv seq es {k. shown seq es k \<and> Suc i \<le> k} (after_pos es n) True (ukey es i)"
      using r(2) rev_pos_cnt(1) [OF so i(1) r(2)] unfolding rev_pos_def by (intro fwd_inv_next [OF so i(1)]) (auto simp: less_imp_le)
    ultimately show ?thesis using that r(1) by metis
  qed
  have "it_Next (DBIterator ucmp it seq max_skip) s =
    (if \<not> it_Valid it (di_iter d1) then Some (d1\<lparr> di_valid := False, di_saved_key := [] \<rparr>) else FindNextUserEntry ucmp it seq max_skip True d1)"
    by (simp add: DBIterator_def d(1) di_Next_def d1_def Let_def)
  moreover have "Suc p = cnt seq es (Suc i)" using i by (simp add: cnt_Suc)
  ultimately show ?thesis
    using forward_at(1) [OF q(1) f q(2) Suc_leI [OF il(1)]] forward_at(2) [OF q(1) f q(2) Suc_leI [OF il(1)], of "d1\<lparr> di_valid := False, di_saved_key := [] \<rparr>"]
      f iat_Valid [OF q(1)] iat_le [OF q(1)] unfolding d(4) by auto
qed

lemma Prev_at:
  assumes "dbi_at ucmp iat seq s vs p" "p < length vs"
  shows "dbi_at ucmp iat seq (it_Prev (DBIterator ucmp it seq max_skip) s) vs (if p = 0 then length vs else p - 1)"
proof (rule dbi_atE [OF assms(1)])
  fix d es n assume d: "s = Some d" "iat (di_iter d) es n" "versions_ok es" "vs = user_view seq es" "rnd_live (di_rnd d)" "di_status d = OK"
    and v: "di_valid d \<longleftrightarrow> p < length vs" "di_valid d \<Longrightarrow> \<exists>i. shown seq es i \<and> p = cnt seq es i
       \<and> (if di_direction d = kForward then n = i
          else di_saved_key d = ukey es i \<and> di_saved_value d = snd (es ! i) \<and> rev_pos ucmp seq es (after_pos es n) (ukey es i))"
  note so = d(3) iat_sorted [OF d(2)]
  obtain i where i: "shown seq es i" "p = cnt seq es i" and dir: "if di_direction d = kForward then n = i
    else di_saved_key d = ukey es i \<and> di_saved_value d = snd (es ! i) \<and> rev_pos ucmp seq es (after_pos es n) (ukey es i)" using v assms(2) by auto
  have bk: "dbi_at ucmp iat seq (FindPrevUserEntry ucmp it seq max_skip d1) vs (if p = 0 then length vs else p - 1)"
    if d1: "iat (di_iter d1) es m" "rev_pos ucmp seq es (after_pos es m) (ukey es i)" "rnd_live (di_rnd d1)" "di_status d1 = OK" "di_direction d1 = kReverse" for d1 m
    using FindPrevUserEntry_at [OF d1(1) d(3) d1(3-5) rev_pos_cnt(3) [OF so i(1) d1(2)]]
    unfolding rev_pos_cnt(2) [OF so i(1) d1(2)] i(2) d(4) .
  show ?thesis
  proof (cases "di_direction d")
    case kForward
    then have [simp]: "n = i" using dir by simp
    have il: "i < length es" using i(1) by (simp add: shown_def)
    have k: "ExtractUserKey (it_key it (di_iter d)) = ukey es i"
      using iat_key [OF d(2)] il pk_key(4) [OF so(1) nth_mem [OF il]] by (simp add: ukey_def)
    obtain left s' n' where L: "leave_key_loop ucmp it max_skip (ukey es i) 0 (di_iter d) = Some (left, s')" "iat s' es n'" "left \<longleftrightarrow> n' < length es"
      "before_key ucmp es (after_pos es n') (ukey es i)"
      using leave_key_loop_at [OF d(2) _ d(3), of "ukey es i" 0] il user.cmp_refl [of "ukey es i"] by auto
    then have r: "rev_pos ucmp seq es (after_pos es n') (ukey es i)" unfolding before_key_def rev_pos_def by (auto dest: less_le_trans)
    have eq: "it_Prev (DBIterator ucmp it seq max_skip) s =
      (if \<not> left then Some (ClearSaveValue (d\<lparr> di_iter := s', di_valid := False, di_saved_key := [] \<rparr>))
       else FindPrevUserEntry ucmp it seq max_skip (d\<lparr> di_saved_key := ukey es i, di_iter := s', di_direction := kReverse \<rparr>))"
      by (simp add: DBIterator_def d(1) di_Prev_def kForward k L(1))
    show ?thesis
    proof (cases left)
      case True
      then show ?thesis unfolding eq using bk [of "d\<lparr> di_saved_key := ukey es i, di_iter := s', di_direction := kReverse \<rparr>" n'] L r d by simp
    next
      case False
      then have "p = 0" using rev_pos_cnt(2) [OF so i(1) r] i(2) L(3) by (simp add: after_pos_def cnt_def)
      then show ?thesis unfolding eq using False L(2) d by (auto simp: ClearSaveValue_def intro!: dbi_atI)
    qed
  next
    case kReverse
    then show ?thesis using bk [of d n] d dir by (simp add: DBIterator_def di_Prev_def)
  qed
qed

lemma dbi_at_entry:
  assumes "dbi_at ucmp iat seq s vs p" "p < length vs"
  shows "it_key (DBIterator ucmp it seq max_skip) s = fst (vs ! p)" "it_value (DBIterator ucmp it seq max_skip) s = snd (vs ! p)"
proof -
  obtain d es n i where d: "s = Some d" "iat (di_iter d) es n" "versions_ok es" "vs = user_view seq es" "shown seq es i" "p = cnt seq es i"
    "if di_direction d = kForward then n = i else di_saved_key d = ukey es i \<and> di_saved_value d = snd (es ! i)"
    using dbi_atE [OF assms(1)] assms(2) by (metis (no_types, lifting))
  have i: "i < length es" using d(5) by (simp add: shown_def)
  have e: "vs ! p = (ukey es i, snd (es ! i))" using user_view_nth(2) [OF d(5)] d(4,6) by simp
  show "it_key (DBIterator ucmp it seq max_skip) s = fst (vs ! p)" "it_value (DBIterator ucmp it seq max_skip) s = snd (vs ! p)"
    unfolding e using d(7) iat_key [OF d(2)] iat_value [OF d(2)] pk_key(4) [OF d(3) nth_mem [OF i]] i
    by (auto simp: DBIterator_def d(1) ukey_def split: if_splits)
qed

lemma dbi_contract: "sorted_iterator ucmp (\<lambda>_. True) (DBIterator ucmp it seq max_skip) (dbi_at ucmp iat seq)"
proof (rule sorted_iterator.intro [OF user.comparator_contract_axioms sorted_iterator_axioms.intro], goal_cases)
  case (1 s vs p)
  show ?case by (rule dbi_atE [OF 1]) (use user_view_sorted iat_sorted in auto)
next
  case (2 s vs p) then show ?case by (auto simp: dbi_at_def)
next
  case (3 s vs p) then show ?case by (auto simp: dbi_at_def DBIterator_def)
next
  case (4 s vs p) then show ?case using dbi_at_entry by simp
next
  case (5 s vs p) then show ?case using dbi_at_entry by simp
next
  case (6 s vs p)
  show ?case by (rule dbi_atE [OF 6]) (auto simp: DBIterator_def di_status_of_def iat_status)
qed (rule SeekToFirst_at SeekToLast_at Seek_at Next_at Prev_at; assumption)+

lemma dbi_init_at:
  assumes "iat s es n" "versions_ok es" "rnd_live (Random_init seed)"
  shows "dbi_at ucmp iat seq (Some (DBIter_init s seed)) (user_view seq es) (length (user_view seq es))"
  using assms rnd_live_Next by (intro dbi_atI [of _ es n]) (auto simp: DBIter_init_def RandomCompactionPeriod_def Uniform_def Let_def)

end

section \<open>Properties\<close>

context comparator_contract
begin

lemma block_merge_contract:
  "sorted_iterator cmp wf (MergingIterator cmp (WrapperIterator (BlockIterator cmp))) (merge_at cmp wf (wrapper_at (BlockIterator cmp) (block_at cmp wf)))"
  by (rule sorted_iterator.merge_contract [OF block.wrapper_contract])

lemma block_first:
  assumes "block_at cmp wf b es n" "es \<noteq> []"
  shows "it_Valid (BlockIterator cmp) (it_SeekToFirst (BlockIterator cmp) b)"
    "it_key (BlockIterator cmp) (it_SeekToFirst (BlockIterator cmp) b) = fst (es ! 0)"
  using block.iat_Valid [OF block.iat_SeekToFirst [OF assms(1)]] block.iat_key [OF block.iat_SeekToFirst [OF assms(1)]] assms(2) by auto

end

text \<open>The iterator of a merge of blocks of internal keys at the newest sequence number.\<close>

interpretation newest: db_iter BytewiseComparator
  "MergingIterator (InternalKeyComparator BytewiseComparator) (WrapperIterator (BlockIterator (InternalKeyComparator BytewiseComparator)))"
  "merge_at (InternalKeyComparator BytewiseComparator) (\<lambda>k. 8 \<le> length k)
     (wrapper_at (BlockIterator (InternalKeyComparator BytewiseComparator)) (block_at (InternalKeyComparator BytewiseComparator) (\<lambda>k. 8 \<le> length k)))"
  kMaxSequenceNumber 0
  by (intro db_iter.intro bw.internal_keys_axioms db_iter_axioms.intro order_refl
      comparator_contract.block_merge_contract [OF bw.ik.comparator_contract_axioms])

lemma rnd_live_cycle:
  assumes "(random_Next ^^ c) s = s" "0 < c" "k < c" "unat ((random_Next ^^ Suc k) s) mod (2 * kReadBytesPeriod) \<noteq> 0"
  shows "rnd_live s"
  unfolding rnd_live_def
proof
  fix i
  have "(random_Next ^^ (c * i)) s = s" for i
    by (induction i) (simp_all add: funpow_add assms(1))
  then have "(random_Next ^^ Suc (k + c * i)) s = (random_Next ^^ Suc k) s" by (simp add: funpow_add)
  moreover have "i \<le> k + c * i" using assms(2) by (metis add_leE le_add2 mult_le_mono1 nat_mult_1 One_nat_def Suc_leI add.commute order_trans)
  ultimately show "\<exists>j\<ge>i. unat ((random_Next ^^ Suc j) s) mod (2 * kReadBytesPeriod) \<noteq> 0" using assms(4) by metis
qed

lemma random_cycles:
  "random_Next 202715204 = 1125367900" "random_Next 1125367900 = 1169807365" "random_Next 1169807365 = 739586116" "random_Next 739586116 = 588496988"
  "random_Next 588496988 = 1706678277" "random_Next 1706678277 = 202715204" "random_Next 268435456 = 1879048192" "random_Next 1879048192 = 268435456"
  by (simp_all add: random_Next_def rnd_A_def rnd_M_def Let_def)

lemma rnd_live_example: "rnd_live (Random_init 202715204)"
proof -
  have "Random_init 202715204 = 202715204" by (simp add: Random_init_def)
  moreover have "rnd_live 202715204"
    by (rule rnd_live_cycle [of "Suc (Suc (Suc (Suc (Suc (Suc 0)))))" _ 0]) (simp_all add: random_cycles kReadBytesPeriod_def)
  ultimately show ?thesis by simp
qed

lemma sample_loop_stuck:
  assumes "sample_loop r b s c = Some y" "s \<in> {268435456, 1879048192}"
  shows "r \<le> b"
proof -
  have "s \<in> {268435456, 1879048192} \<longrightarrow> r \<le> b"
  proof (rule sample_loop.raw_induct [of "\<lambda>r b s c y. s \<in> {268435456, 1879048192} \<longrightarrow> r \<le> b", OF _ assms(1)], intro impI)
    fix loop r b and s :: u32 and c y
    assume IH: "\<And>r b s c y. loop r b s c = Some y \<Longrightarrow> s \<in> {268435456, 1879048192} \<longrightarrow> r \<le> b"
      and eq: "(if b < r then (case RandomCompactionPeriod s of (period, rnd) \<Rightarrow> loop r (b + period) rnd (Suc c)) else Some (b, s, c)) = Some y"
      and s: "s \<in> {268435456, 1879048192}"
    show "r \<le> b" using IH [of r b "random_Next s" "Suc c" y] eq s
      by (auto simp: RandomCompactionPeriod_def Uniform_def random_cycles kReadBytesPeriod_def Let_def not_less split: if_splits)
  qed
  then show ?thesis using assms(2) by blast
qed

text \<open>
  C4: The database iterator refines a cursor.  Over any iterator of internal keys that keeps the iterator contract -
  the merge of blocks and tables does - every sequence of calls returns, and leaves the iterator a user gets where
  the same calls leave a cursor into the user's view: the newest version not newer than the sequence
  number of every key, unless that version is a deletion.  This holds for every limit on sequential skips and every change of
  direction, provided that the generator of the sampling periods is not stuck at period 0.
\<close>

theorem db_iter_refines_cursor:
  assumes "internal_keys ucmp" "sorted_iterator (InternalKeyComparator ucmp) (\<lambda>k. 8 \<le> length k) it iat"
    and "iat s es n" "versions_ok es" "seq \<le> kMaxSequenceNumber" "rnd_live (Random_init seed)"
  shows "\<exists>d. it_run (DBIterator ucmp it seq max_skip) cs (Some (DBIter_init s seed)) = Some d
    \<and> (let p = cursor_run ucmp (user_view seq es) cs (length (user_view seq es)) in
       (if p < length (user_view seq es)
        then di_valid d \<and> (it_key (DBIterator ucmp it seq max_skip) (Some d), it_value (DBIterator ucmp it seq max_skip) (Some d)) = user_view seq es ! p
        else \<not> di_valid d)
       \<and> it_status (DBIterator ucmp it seq max_skip) (Some d) = OK)"
proof -
  have "db_iter ucmp it iat seq" using assms(1,2,5) by (simp add: db_iter_def db_iter_axioms_def)
  note C = db_iter.dbi_contract [OF this, of max_skip] and I = db_iter.dbi_init_at [OF this, of s es n seed]
  have at: "dbi_at ucmp iat seq (it_run (DBIterator ucmp it seq max_skip) cs (Some (DBIter_init s seed))) (user_view seq es)
    (cursor_run ucmp (user_view seq es) cs (length (user_view seq es)))"
    by (rule sorted_iterator.run_cursor [OF C I [OF assms(3,4,6)]]) simp
  then obtain d where d: "it_run (DBIterator ucmp it seq max_skip) cs (Some (DBIter_init s seed)) = Some d" unfolding dbi_at_def by blast
  note at = at [unfolded d]
  have "it_Valid (DBIterator ucmp it seq max_skip) (Some d) = di_valid d" by (simp add: DBIterator_def)
  then show ?thesis
    using d sorted_iterator.iat_Valid [OF C at] sorted_iterator.iat_key [OF C at] sorted_iterator.iat_value [OF C at] sorted_iterator.iat_status [OF C at]
    by (auto simp: Let_def prod_eq_iff)
qed

text \<open>Two blocks with versions of two keys, and what is visible at sequence number 4.\<close>

definition older_block :: entries where
  "older_block = [(InternalKey [97] 3 kTypeValue, [33]), (InternalKey [98] 4 kTypeDeletion, [])]"

definition newer_block :: entries where
  "newer_block = [(InternalKey [97] 5 kTypeDeletion, []), (InternalKey [99] 2 kTypeValue, [44])]"

definition both_blocks :: entries where
  "both_blocks = [(InternalKey [97] 5 kTypeDeletion, []), (InternalKey [97] 3 kTypeValue, [33]),
     (InternalKey [98] 4 kTypeDeletion, []), (InternalKey [99] 2 kTypeValue, [44])]"

lemma example_keys:
  "InternalKey [97] 5 kTypeDeletion = [97, 0, 5, 0, 0, 0, 0, 0, 0]" "InternalKey [97] 3 kTypeValue = [97, 1, 3, 0, 0, 0, 0, 0, 0]"
  "InternalKey [98] 4 kTypeDeletion = [98, 0, 4, 0, 0, 0, 0, 0, 0]" "InternalKey [99] 2 kTypeValue = [99, 1, 2, 0, 0, 0, 0, 0, 0]"
  by (simp_all add: InternalKey_def AppendInternalKey_def PutFixed64_def PackSequenceAndType_def EncodeFixed64_def)

lemma Bytewise_Compare: "Compare BytewiseComparator = slice_compare"
  by (simp add: BytewiseComparator_def)

lemma example_sorted:
  "sorted_entries (InternalKeyComparator BytewiseComparator) (\<lambda>k. 8 \<le> length k) older_block"
  "sorted_entries (InternalKeyComparator BytewiseComparator) (\<lambda>k. 8 \<le> length k) newer_block"
  "sorted_entries (InternalKeyComparator BytewiseComparator) (\<lambda>k. 8 \<le> length k) both_blocks"
  by (simp_all add: sorted_entries_def older_block_def newer_block_def both_blocks_def bw.ik_less Pack_less_iff kMaxSequenceNumber_def Bytewise_Compare)

lemma example_sizes:
  "length (block_of 1 older_block) < 2 ^ 32" "length (block_of 1 newer_block) < 2 ^ 32"
  by (simp_all add: older_block_def newer_block_def example_keys block_of_def bb_AddAll_def bb_Add_def Let_def PutVarint64_def BlockBuilder_init_def first_byte_varint(1)
      bb_Finish_def PutFixed32_def)

lemma example_view: "versions_ok both_blocks" "user_view 4 both_blocks = [([97], [33]), ([99], [44])]"
proof -
  have u: "[0..<4] = [0, 1, 2, 3]" by (simp add: upt_rec)
  show "versions_ok both_blocks" by (simp add: versions_ok_def both_blocks_def kMaxSequenceNumber_def)
  show "user_view 4 both_blocks = [([97], [33]), ([99], [44])]"
    by (simp add: user_view_def both_blocks_def u shown_def visible_def ukey_def pk_def kMaxSequenceNumber_def)
      (auto simp: less_Suc_eq kMaxSequenceNumber_def)
qed

lemma example_block_at:
  obtains a n where "Block_NewIterator (Block_init (block_of 1 older_block)) = Inr a"
    "block_at (InternalKeyComparator BytewiseComparator) (\<lambda>k. 8 \<le> length k) a older_block n"
  using block_roundtrip_at [OF _ _ block_of_def example_sizes(1) example_sorted(1)] by (auto simp: older_block_def)

theorem db_iter_refines_cursor_witness:
  "\<exists>a b m d. Block_NewIterator (Block_init (block_of 1 older_block)) = Inr a \<and> Block_NewIterator (Block_init (block_of 1 newer_block)) = Inr b
     \<and> NewMergingIterator (BlockIterator (InternalKeyComparator BytewiseComparator)) [a, b] = Inr (Inr m)
     \<and> it_run (DBIterator BytewiseComparator
            (MergingIterator (InternalKeyComparator BytewiseComparator) (WrapperIterator (BlockIterator (InternalKeyComparator BytewiseComparator)))) 4 1)
         [CSeekToLast, CPrev, CNext, CPrev] (Some (DBIter_init m 202715204)) = Some d
     \<and> di_valid d
     \<and> it_key (DBIterator BytewiseComparator
            (MergingIterator (InternalKeyComparator BytewiseComparator) (WrapperIterator (BlockIterator (InternalKeyComparator BytewiseComparator)))) 4 1) (Some d) = [97]"
proof -
  let ?ikc = "InternalKeyComparator BytewiseComparator" and ?wf = "\<lambda>k :: bytes. 8 \<le> length k"
  obtain a b n1 n2 where ab: "Block_NewIterator (Block_init (block_of 1 older_block)) = Inr a" "block_at ?ikc ?wf a older_block n1"
    "Block_NewIterator (Block_init (block_of 1 newer_block)) = Inr b" "block_at ?ikc ?wf b newer_block n2"
    using block_roundtrip_at [OF _ _ block_of_def example_sizes(1) example_sorted(1)] block_roundtrip_at [OF _ _ block_of_def example_sizes(2) example_sorted(2)]
    by (auto simp: older_block_def newer_block_def)
  have "merged ?ikc ?wf [older_block, newer_block] both_blocks" using example_sorted by (auto simp: merged_def older_block_def newer_block_def both_blocks_def less_Suc_eq)
  then have at: "merge_at ?ikc ?wf (wrapper_at (BlockIterator ?ikc) (block_at ?ikc ?wf)) (MergingIter_init (BlockIterator ?ikc) [a, b]) both_blocks (length both_blocks)"
    using ab by (intro comparator_contract.block_merge_init [OF bw.ik.comparator_contract_axioms, of "[older_block, newer_block]"]) (auto simp: less_Suc_eq)
  have "(4 :: u64) \<le> kMaxSequenceNumber" by (simp add: kMaxSequenceNumber_def)
  from db_iter_refines_cursor [OF bw.internal_keys_axioms comparator_contract.block_merge_contract [OF bw.ik.comparator_contract_axioms]
      at example_view(1) this rnd_live_example, of 1 "[CSeekToLast, CPrev, CNext, CPrev]"]
  obtain d where "it_run (DBIterator BytewiseComparator (MergingIterator ?ikc (WrapperIterator (BlockIterator ?ikc))) 4 1)
      [CSeekToLast, CPrev, CNext, CPrev] (Some (DBIter_init (MergingIter_init (BlockIterator ?ikc) [a, b]) 202715204)) = Some d"
    "di_valid d" "it_key (DBIterator BytewiseComparator (MergingIterator ?ikc (WrapperIterator (BlockIterator ?ikc))) 4 1) (Some d) = [97]"
    unfolding example_view(2) by (auto simp: Let_def)
  moreover have "NewMergingIterator (BlockIterator ?ikc) [a, b] = Inr (Inr (MergingIter_init (BlockIterator ?ikc) [a, b]))" by (simp add: NewMergingIterator_def)
  ultimately show ?thesis using ab(1,3) by blast
qed

text \<open>
  C29: The sampling loop can hang.  A database iterator made with seed 2 to the 28 never returns from \<open>SeekToFirst\<close> when
  there is an entry to read: the generator alternates between two values whose remainder by the sampling range is 0,
  the byte budget never grows and the loop of \<open>ParseKey\<close> has no way out.
\<close>

theorem db_iter_sampling_hangs:
  assumes "it_Valid it (it_SeekToFirst it s)" "it_key it (it_SeekToFirst it s) \<noteq> []"
  shows "it_SeekToFirst (DBIterator ucmp it seq max_skip) (Some (DBIter_init s 268435456)) = None"
proof -
  define d where "d = (ClearSaveValue ((DBIter_init s 268435456)\<lparr> di_direction := kForward \<rparr>))\<lparr> di_iter := it_SeekToFirst it s \<rparr>"
  have d: "di_iter d = it_SeekToFirst it s" "di_rnd d = 1879048192" "di_bytes_until_read_sampling d = 0"
    by (simp_all add: d_def ClearSaveValue_def DBIter_init_def RandomCompactionPeriod_def Uniform_def Random_init_def random_cycles kReadBytesPeriod_def Let_def)
  let ?r = "length (it_key it (di_iter d)) + length (it_value it (di_iter d))"
  have "sample_loop ?r 0 1879048192 0 = None"
    using sample_loop_stuck [of ?r 0 1879048192 0] assms(2) d(1) by (cases "sample_loop ?r 0 1879048192 0") auto
  then have "ParseKey it d = None" using d by (simp add: ParseKey_def Let_def)
  then have "FindNextUserEntry ucmp it seq max_skip False d = None"
    unfolding FindNextUserEntry_def by (subst FindNext_loop.simps) simp
  then show ?thesis using assms(1) unfolding d_def
    by (simp add: DBIterator_def di_SeekToFirst_def ClearSaveValue_def DBIter_init_def RandomCompactionPeriod_def Uniform_def Let_def)
qed

theorem db_iter_sampling_hangs_witness:
  "\<exists>a. Block_NewIterator (Block_init (block_of 1 older_block)) = Inr a
     \<and> it_SeekToFirst (DBIterator BytewiseComparator (BlockIterator (InternalKeyComparator BytewiseComparator)) 4 0) (Some (DBIter_init a 268435456)) = None"
proof -
  obtain a n where a: "Block_NewIterator (Block_init (block_of 1 older_block)) = Inr a"
    "block_at (InternalKeyComparator BytewiseComparator) (\<lambda>k. 8 \<le> length k) a older_block n" by (rule example_block_at)
  note F = comparator_contract.block_first [OF bw.ik.comparator_contract_axioms a(2)]
  have "older_block \<noteq> []" "fst (older_block ! 0) \<noteq> []" by (simp_all add: older_block_def example_keys)
  then show ?thesis using F db_iter_sampling_hangs [of "BlockIterator (InternalKeyComparator BytewiseComparator)" a BytewiseComparator 4 0] a(1) by auto
qed

end
