(* ===== verification/Version_Set.thy ===== *)
theory Version_Set
  imports Version_Edit SSTable DB_Iter Complex_Main "HOL-Library.Monad_Syntax"
begin

text \<open>
  The files of a database, per level (\<^verbatim>\<open>src/db/version_set.h\<close>, \<^verbatim>\<open>src/db/version_set.cc\<close>): versions, the builder that applies
  edits to a version, lookups and their seek statistics, overlap tests, the level a memtable is written to, and the iterator over the file numbers of a level.  The iterators
  over the contents of the files, the choice of compactions and the manifest are not modelled.

  A file is its metadata; the counts of the versions that share it are not kept, so that \<open>MaybeAddFile\<close> leaves \<open>fm_refs\<close> as it is.  Scores and byte limits of levels, which the code
  computes as \<^verbatim>\<open>double\<close>, are rational numbers.  Positions in a list of files, which the code keeps in \<^verbatim>\<open>uint32_t\<close>, are natural numbers: a level is
  taken to have fewer than \<open>2 ^ 32\<close> files.  The search for overlapping files restarts when the range grows and is
  partial: \<open>None\<close> is a search that does not return.
\<close>

section \<open>Sizes\<close>

definition TargetFileSize :: "Options \<Rightarrow> nat" where
  "TargetFileSize options = opt_max_file_size options"

text \<open>The products are \<^verbatim>\<open>size_t\<close> values, converted to \<^verbatim>\<open>int64_t\<close>.\<close>

definition MaxGrandParentOverlapBytes :: "Options \<Rightarrow> int" where
  "MaxGrandParentOverlapBytes options = sint (of_nat (10 * TargetFileSize options) :: u64)"

definition ExpandedCompactionByteSizeLimit :: "Options \<Rightarrow> int" where
  "ExpandedCompactionByteSizeLimit options = sint (of_nat (25 * TargetFileSize options) :: u64)"

fun MaxBytesForLevel :: "nat \<Rightarrow> rat" where
  "MaxBytesForLevel level = (if 1 < level then MaxBytesForLevel (level - 1) * 10 else 10 * 1048576)"

definition MaxFileSizeForLevel :: "Options \<Rightarrow> nat \<Rightarrow> nat" where
  "MaxFileSizeForLevel options level = TargetFileSize options"

text \<open>The sum is an \<^verbatim>\<open>int\<close>: each addition is done in 64 bits and cut to 32.\<close>

definition TotalFileSize :: "FileMetaData list \<Rightarrow> int" where
  "TotalFileSize files = sint (foldl (\<lambda>sum f. ucast (scast sum + fm_file_size f :: u64)) (0 :: u32) files)"

section \<open>Versions\<close>

record Version =
  v_files :: "FileMetaData list list"
  v_file_to_compact :: "FileMetaData option"
  v_file_to_compact_level :: int
  v_compaction_score :: rat
  v_compaction_level :: int

definition Version_init :: Version where
  "Version_init =
     \<lparr> v_files = replicate kNumLevels [], v_file_to_compact = None, v_file_to_compact_level = -1,
       v_compaction_score = -1, v_compaction_level = -1 \<rparr>"

function FindFile_loop :: "comparator \<Rightarrow> FileMetaData list \<Rightarrow> bytes \<Rightarrow> nat \<Rightarrow> nat \<Rightarrow> nat" where
  "FindFile_loop icmp files key left right =
     (if left < right then
        let mid = (left + right) div 2
        in if Compare icmp (fm_largest (files ! mid)) key < 0 then FindFile_loop icmp files key (mid + 1) right
           else FindFile_loop icmp files key left mid
      else right)"
  by auto
termination by (relation "measure (\<lambda>(icmp, files, key, left, right). right - left)") auto

definition FindFile :: "comparator \<Rightarrow> FileMetaData list \<Rightarrow> bytes \<Rightarrow> nat" where
  "FindFile icmp files key = FindFile_loop icmp files key 0 (length files)"

definition AfterFile :: "comparator \<Rightarrow> bytes option \<Rightarrow> FileMetaData \<Rightarrow> bool" where
  "AfterFile ucmp uk f = (case uk of None \<Rightarrow> False | Some k \<Rightarrow> 0 < Compare ucmp k (ExtractUserKey (fm_largest f)))"

definition BeforeFile :: "comparator \<Rightarrow> bytes option \<Rightarrow> FileMetaData \<Rightarrow> bool" where
  "BeforeFile ucmp uk f = (case uk of None \<Rightarrow> False | Some k \<Rightarrow> Compare ucmp k (ExtractUserKey (fm_smallest f)) < 0)"

definition SomeFileOverlapsRange :: "comparator \<Rightarrow> bool \<Rightarrow> FileMetaData list \<Rightarrow> bytes option \<Rightarrow> bytes option \<Rightarrow> bool" where
  "SomeFileOverlapsRange ucmp disjoint_sorted_file files smallest_user_key largest_user_key =
     (if \<not> disjoint_sorted_file then
        list_ex (\<lambda>f. \<not> (AfterFile ucmp smallest_user_key f \<or> BeforeFile ucmp largest_user_key f)) files
      else
        let index = (case smallest_user_key of
                       None \<Rightarrow> 0
                     | Some k \<Rightarrow> FindFile (InternalKeyComparator ucmp) files (InternalKey k kMaxSequenceNumber kValueTypeForSeek))
        in if length files \<le> index then False else \<not> BeforeFile ucmp largest_user_key (files ! index))"

section \<open>The iterator over the files of a level\<close>

definition LevelFileNumIterator :: "comparator \<Rightarrow> (FileMetaData list \<times> nat) Iterator" where
  "LevelFileNumIterator icmp =
     \<lparr> it_Valid = (\<lambda>(flist, index). index < length flist),
       it_SeekToFirst = (\<lambda>(flist, index). (flist, 0)),
       it_SeekToLast = (\<lambda>(flist, index). (flist, if flist = [] then 0 else length flist - 1)),
       it_Seek = (\<lambda>target (flist, index). (flist, FindFile icmp flist target)),
       it_Next = (\<lambda>(flist, index). (flist, index + 1)),
       it_Prev = (\<lambda>(flist, index). (flist, if index = 0 then length flist else index - 1)),
       it_key = (\<lambda>(flist, index). fm_largest (flist ! index)),
       it_value = (\<lambda>(flist, index). EncodeFixed64 (fm_number (flist ! index)) @ EncodeFixed64 (fm_file_size (flist ! index))),
       it_status = (\<lambda>_. OK) \<rparr>"

definition LevelFileNumIterator_init :: "FileMetaData list \<Rightarrow> FileMetaData list \<times> nat" where
  "LevelFileNumIterator_init flist = (flist, length flist)"

section \<open>Lookup\<close>

datatype SaverState = kNotFound | kFound | kDeleted | kCorrupt

record Saver =
  sv_state :: SaverState
  sv_ucmp :: comparator
  sv_user_key :: bytes
  sv_value :: bytes

definition SaveValue :: "bytes \<Rightarrow> bytes \<Rightarrow> Saver \<Rightarrow> Saver" where
  "SaveValue ikey v s =
     (case ParseInternalKey ikey of
        None \<Rightarrow> s\<lparr> sv_state := kCorrupt \<rparr>
      | Some parsed_key \<Rightarrow>
          if Compare (sv_ucmp s) (user_key parsed_key) (sv_user_key s) = 0 then
            let s = s\<lparr> sv_state := (if vtype parsed_key = kTypeValue then kFound else kDeleted) \<rparr>
            in if sv_state s = kFound then s\<lparr> sv_value := v \<rparr> else s
          else s)"

text \<open>\<open>for_files\<close> calls \<open>func\<close> on the files in turn until it answers \<open>False\<close>; the flag is the last answer.\<close>

fun for_files :: "('a \<Rightarrow> nat \<Rightarrow> FileMetaData \<Rightarrow> bool \<times> 'a) \<Rightarrow> (nat \<times> FileMetaData) list \<Rightarrow> 'a \<Rightarrow> bool \<times> 'a" where
  "for_files func [] arg = (True, arg)"
| "for_files func ((level, f) # fs) arg =
     (case func arg level f of (go, arg) \<Rightarrow> if go then for_files func fs arg else (False, arg))"

definition level0_candidates :: "comparator \<Rightarrow> FileMetaData list \<Rightarrow> bytes \<Rightarrow> FileMetaData list" where
  "level0_candidates ucmp files uk =
     sort_key (\<lambda>f. - int (unat (fm_number f)))
       (filter (\<lambda>f. 0 \<le> Compare ucmp uk (ExtractUserKey (fm_smallest f))
                  \<and> Compare ucmp uk (ExtractUserKey (fm_largest f)) \<le> 0) files)"

definition level_candidates :: "comparator \<Rightarrow> FileMetaData list \<Rightarrow> bytes \<Rightarrow> bytes \<Rightarrow> FileMetaData list" where
  "level_candidates ucmp files uk internal_key =
     (let index = FindFile (InternalKeyComparator ucmp) files internal_key
      in if index < length files \<and> \<not> Compare ucmp uk (ExtractUserKey (fm_smallest (files ! index))) < 0
         then [files ! index] else [])"

definition ForEachOverlapping ::
  "comparator \<Rightarrow> Version \<Rightarrow> bytes \<Rightarrow> bytes \<Rightarrow> ('a \<Rightarrow> nat \<Rightarrow> FileMetaData \<Rightarrow> bool \<times> 'a) \<Rightarrow> 'a \<Rightarrow> 'a" where
  "ForEachOverlapping ucmp v uk internal_key func arg =
     snd (for_files func
       (map (Pair 0) (level0_candidates ucmp (v_files v ! 0) uk)
        @ concat (map (\<lambda>level. map (Pair level) (level_candidates ucmp (v_files v ! level) uk internal_key)) [1..<kNumLevels])) arg)"

record GetStats =
  gs_seek_file :: "FileMetaData option"
  gs_seek_file_level :: int

record get_state =
  st_saver :: Saver
  st_stats :: GetStats
  st_last_file_read :: "FileMetaData option"
  st_last_file_read_level :: int
  st_s :: status
  st_found :: bool

text \<open>\<open>get\<close> is \<open>TableCache::Get\<close>: its status and the entry it hands to \<open>SaveValue\<close>.\<close>

definition Match :: "(FileMetaData \<Rightarrow> bytes \<Rightarrow> status \<times> (bytes \<times> bytes) option) \<Rightarrow> bytes \<Rightarrow> get_state \<Rightarrow> nat \<Rightarrow> FileMetaData \<Rightarrow> bool \<times> get_state" where
  "Match get ikey state level f =
     (let state = (if gs_seek_file (st_stats state) = None \<and> st_last_file_read state \<noteq> None then
                     state\<lparr> st_stats := \<lparr> gs_seek_file = st_last_file_read state, gs_seek_file_level = st_last_file_read_level state \<rparr> \<rparr>
                   else state);
          state = state\<lparr> st_last_file_read := Some f, st_last_file_read_level := int level \<rparr>;
          (s, result) = get f ikey;
          state = state\<lparr> st_s := s, st_saver := (case result of None \<Rightarrow> st_saver state | Some (k, v) \<Rightarrow> SaveValue k v (st_saver state)) \<rparr>
      in if \<not> ok (st_s state) then (False, state\<lparr> st_found := True \<rparr>)
         else
           case sv_state (st_saver state) of
             kNotFound \<Rightarrow> (True, state)
           | kFound \<Rightarrow> (False, state\<lparr> st_found := True \<rparr>)
           | kDeleted \<Rightarrow> (False, state)
           | kCorrupt \<Rightarrow> (False, state\<lparr> st_s := mk_status kCorruption ''corrupted key for '' (chars_of (sv_user_key (st_saver state))), st_found := True \<rparr>))"

definition Version_Get ::
  "comparator \<Rightarrow> (FileMetaData \<Rightarrow> bytes \<Rightarrow> status \<times> (bytes \<times> bytes) option) \<Rightarrow> Version \<Rightarrow> LookupKey \<Rightarrow> bytes \<Rightarrow> status \<times> bytes \<times> GetStats" where
  "Version_Get ucmp get v k val =
     (let state = \<lparr> st_saver = \<lparr> sv_state = kNotFound, sv_ucmp = ucmp, sv_user_key = lk_user_key k, sv_value = val \<rparr>,
                    st_stats = \<lparr> gs_seek_file = None, gs_seek_file_level = -1 \<rparr>,
                    st_last_file_read = None, st_last_file_read_level = -1, st_s = OK, st_found = False \<rparr>;
          state = ForEachOverlapping ucmp v (lk_user_key k) (lk_internal_key k) (Match get (lk_internal_key k)) state
      in (if st_found state then st_s state else NotFound [], sv_value (st_saver state), st_stats state))"

text \<open>
  The code counts down through a pointer to the file.  Here the file with the new counter replaces the files of the version that equal the one in the statistics;
  file numbers are unique, so that there is one.  The counter, an \<^verbatim>\<open>int\<close>, is an unbounded integer.
\<close>

definition UpdateStats :: "GetStats \<Rightarrow> Version \<Rightarrow> bool \<times> Version" where
  "UpdateStats stats v =
     (case gs_seek_file stats of
        None \<Rightarrow> (False, v)
      | Some f \<Rightarrow>
          let f' = f\<lparr> fm_allowed_seeks := fm_allowed_seeks f - 1 \<rparr>;
              v = v\<lparr> v_files := map (map (\<lambda>g. if g = f then f' else g)) (v_files v) \<rparr>
          in if fm_allowed_seeks f' \<le> 0 \<and> v_file_to_compact v = None
             then (True, v\<lparr> v_file_to_compact := Some f', v_file_to_compact_level := gs_seek_file_level stats \<rparr>)
             else (False, v))"

definition sample_match :: "GetStats \<times> nat \<Rightarrow> nat \<Rightarrow> FileMetaData \<Rightarrow> bool \<times> (GetStats \<times> nat)" where
  "sample_match state level f =
     (let (stats, matches) = state;
          matches = matches + 1;
          stats = (if matches = 1 then \<lparr> gs_seek_file = Some f, gs_seek_file_level = int level \<rparr> else stats)
      in (matches < 2, (stats, matches)))"

definition Version_RecordReadSample :: "comparator \<Rightarrow> bytes \<Rightarrow> Version \<Rightarrow> bool \<times> Version" where
  "Version_RecordReadSample ucmp internal_key v =
     (case ParseInternalKey internal_key of
        None \<Rightarrow> (False, v)
      | Some ikey \<Rightarrow>
          let (stats, matches) = ForEachOverlapping ucmp v (user_key ikey) internal_key sample_match
                                   (\<lparr> gs_seek_file = None, gs_seek_file_level = -1 \<rparr>, 0)
          in if 2 \<le> matches then UpdateStats stats v else (False, v))"

section \<open>Overlaps\<close>

definition OverlapInLevel :: "comparator \<Rightarrow> Version \<Rightarrow> nat \<Rightarrow> bytes option \<Rightarrow> bytes option \<Rightarrow> bool" where
  "OverlapInLevel ucmp v level smallest_user_key largest_user_key =
     SomeFileOverlapsRange ucmp (0 < level) (v_files v ! level) smallest_user_key largest_user_key"

partial_function (option) overlap_loop ::
  "comparator \<Rightarrow> nat \<Rightarrow> FileMetaData list \<Rightarrow> nat \<Rightarrow> bytes option \<Rightarrow> bytes option \<Rightarrow> FileMetaData list \<Rightarrow> FileMetaData list option" where
  "overlap_loop user_cmp level files i user_begin user_end inputs =
     (if i < length files then
        let f = files ! i;
            file_start = ExtractUserKey (fm_smallest f);
            file_limit = ExtractUserKey (fm_largest f)
        in if user_begin \<noteq> None \<and> Compare user_cmp file_limit (the user_begin) < 0
              \<or> user_end \<noteq> None \<and> 0 < Compare user_cmp file_start (the user_end)
           then overlap_loop user_cmp level files (i + 1) user_begin user_end inputs
           else if level = 0 \<and> user_begin \<noteq> None \<and> Compare user_cmp file_start (the user_begin) < 0
           then overlap_loop user_cmp level files 0 (Some file_start) user_end []
           else if level = 0 \<and> user_end \<noteq> None \<and> 0 < Compare user_cmp file_limit (the user_end)
           then overlap_loop user_cmp level files 0 user_begin (Some file_limit) []
           else overlap_loop user_cmp level files (i + 1) user_begin user_end (inputs @ [f])
      else Some inputs)"

definition GetOverlappingInputs :: "comparator \<Rightarrow> Version \<Rightarrow> nat \<Rightarrow> bytes option \<Rightarrow> bytes option \<Rightarrow> FileMetaData list option" where
  "GetOverlappingInputs ucmp v level begin_key end_key =
     overlap_loop ucmp level (v_files v ! level) 0 (map_option ExtractUserKey begin_key) (map_option ExtractUserKey end_key) []"

text \<open>The loop of \<open>PickLevelForMemTableOutput\<close>, which leaves level 0 when nothing there overlaps.\<close>

function pick_level_loop :: "comparator \<Rightarrow> Options \<Rightarrow> Version \<Rightarrow> bytes \<Rightarrow> bytes \<Rightarrow> nat \<Rightarrow> nat option" where
  "pick_level_loop ucmp options v smallest_user_key largest_user_key level =
     (if level < kMaxMeCompactLevel then
        if OverlapInLevel ucmp v (level + 1) (Some smallest_user_key) (Some largest_user_key) then Some level
        else if level + 2 < kNumLevels then
          do {
            overlaps \<leftarrow> GetOverlappingInputs ucmp v (level + 2)
              (Some (InternalKey smallest_user_key kMaxSequenceNumber kValueTypeForSeek))
              (Some (InternalKey largest_user_key 0 kTypeDeletion));
            if MaxGrandParentOverlapBytes options < TotalFileSize overlaps then Some level
            else pick_level_loop ucmp options v smallest_user_key largest_user_key (level + 1)
          }
        else pick_level_loop ucmp options v smallest_user_key largest_user_key (level + 1)
      else Some level)"
  by pat_completeness auto
termination by (relation "measure (\<lambda>(ucmp, options, v, s, l, level). kMaxMeCompactLevel - level)") auto

definition PickLevelForMemTableOutput :: "comparator \<Rightarrow> Options \<Rightarrow> Version \<Rightarrow> bytes \<Rightarrow> bytes \<Rightarrow> nat option" where
  "PickLevelForMemTableOutput ucmp options v smallest_user_key largest_user_key =
     (if \<not> OverlapInLevel ucmp v 0 (Some smallest_user_key) (Some largest_user_key)
      then pick_level_loop ucmp options v smallest_user_key largest_user_key 0 else Some 0)"

definition Version_DebugString :: "Version \<Rightarrow> string" where
  "Version_DebugString v =
     concat (map (\<lambda>level. ''--- level'' @ AppendNumberTo [] (of_nat level) @ '' ---'' @ newline
       @ concat (map (\<lambda>f. '' '' @ AppendNumberTo [] (fm_number f) @ '':'' @ AppendNumberTo [] (fm_file_size f) @ ''[''
           @ InternalKey_DebugString (fm_smallest f) @ '' .. '' @ InternalKey_DebugString (fm_largest f) @ '']'' @ newline)
           (v_files v ! level))) [0..<kNumLevels])"

section \<open>The builder\<close>

definition BySmallestKey :: "comparator \<Rightarrow> FileMetaData \<Rightarrow> FileMetaData \<Rightarrow> bool" where
  "BySmallestKey icmp f1 f2 =
     (let r = Compare icmp (fm_smallest f1) (fm_smallest f2)
      in if r \<noteq> 0 then r < 0 else fm_number f1 < fm_number f2)"

text \<open>A \<^verbatim>\<open>FileSet\<close> is the list of its elements in order; an equivalent element is not inserted again.\<close>

fun fileset_insert :: "comparator \<Rightarrow> FileMetaData \<Rightarrow> FileMetaData list \<Rightarrow> FileMetaData list" where
  "fileset_insert icmp f [] = [f]"
| "fileset_insert icmp f (g # gs) =
     (if BySmallestKey icmp f g then f # g # gs
      else if BySmallestKey icmp g f then g # fileset_insert icmp f gs
      else g # gs)"

record LevelState =
  ls_deleted_files :: "u64 set"
  ls_added_files :: "FileMetaData list"

record Builder =
  b_base :: Version
  b_level :: "LevelState list"

definition Builder_init :: "Version \<Rightarrow> Builder" where
  "Builder_init base = \<lparr> b_base = base, b_level = replicate kNumLevels \<lparr> ls_deleted_files = {}, ls_added_files = [] \<rparr> \<rparr>"

definition apply_delete :: "nat \<times> u64 \<Rightarrow> Builder \<Rightarrow> Builder" where
  "apply_delete d b =
     (case d of (level, number) \<Rightarrow>
        b\<lparr> b_level := (b_level b)[level := (b_level b ! level)\<lparr> ls_deleted_files := insert number (ls_deleted_files (b_level b ! level)) \<rparr>] \<rparr>)"

definition apply_add :: "comparator \<Rightarrow> nat \<times> FileMetaData \<Rightarrow> Builder \<Rightarrow> Builder" where
  "apply_add icmp a b =
     (case a of (level, f) \<Rightarrow>
        let f = f\<lparr> fm_refs := 1, fm_allowed_seeks := (let n = sint (ucast (fm_file_size f div 16384) :: u32) in if n < 100 then 100 else n) \<rparr>
        in b\<lparr> b_level := (b_level b)[level := (b_level b ! level)
             \<lparr> ls_deleted_files := ls_deleted_files (b_level b ! level) - {fm_number f},
               ls_added_files := fileset_insert icmp f (ls_added_files (b_level b ! level)) \<rparr>] \<rparr>)"

text \<open>\<open>Apply\<close> also moves the compaction pointers of the version set.\<close>

definition Builder_Apply :: "comparator \<Rightarrow> VersionEdit \<Rightarrow> Builder \<times> bytes list \<Rightarrow> Builder \<times> bytes list" where
  "Builder_Apply icmp edit bp =
     (case bp of (b, compact_pointer) \<Rightarrow>
        (fold (apply_add icmp) (ve_new_files edit) (fold apply_delete (ve_deleted_files edit) b),
         fold (\<lambda>(level, key) ptrs. ptrs[level := key]) (ve_compact_pointers edit) compact_pointer))"

text \<open>
  The code asserts in \<open>MaybeAddFile\<close> that the files of a level above 0 do not overlap, and a build without \<^verbatim>\<open>NDEBUG\<close> tests it again at the end of
  \<open>SaveTo\<close> and aborts.  The model is the release build, which does neither.
\<close>

definition MaybeAddFile :: "u64 set \<Rightarrow> FileMetaData \<Rightarrow> FileMetaData list \<Rightarrow> FileMetaData list" where
  "MaybeAddFile deleted f files = (if fm_number f \<in> deleted then files else files @ [f])"

fun save_level :: "comparator \<Rightarrow> u64 set \<Rightarrow> FileMetaData list \<Rightarrow> FileMetaData list \<Rightarrow> FileMetaData list \<Rightarrow> FileMetaData list" where
  "save_level icmp deleted base [] files = fold (MaybeAddFile deleted) base files"
| "save_level icmp deleted base (added_file # added) files =
     (let n = length (takeWhile (\<lambda>b. \<not> BySmallestKey icmp added_file b) base)
      in save_level icmp deleted (drop n base) added
           (MaybeAddFile deleted added_file (fold (MaybeAddFile deleted) (take n base) files)))"

definition SaveTo :: "comparator \<Rightarrow> Builder \<Rightarrow> Version \<Rightarrow> Version" where
  "SaveTo icmp b v =
     v\<lparr> v_files := map (\<lambda>level. save_level icmp (ls_deleted_files (b_level b ! level)) (v_files (b_base b) ! level)
                                  (ls_added_files (b_level b ! level)) (v_files v ! level)) [0..<kNumLevels] \<rparr>"

section \<open>Sorted levels\<close>

text \<open>The invariant of a file and of a level above 0: keys parse, and the ranges of the files are disjoint and ascending.\<close>

definition file_ok :: "comparator \<Rightarrow> FileMetaData \<Rightarrow> bool" where
  "file_ok ucmp f \<longleftrightarrow> ParseInternalKey (fm_smallest f) \<noteq> None \<and> ParseInternalKey (fm_largest f) \<noteq> None
     \<and> Compare (InternalKeyComparator ucmp) (fm_smallest f) (fm_largest f) \<le> 0"

definition level_ok :: "comparator \<Rightarrow> FileMetaData list \<Rightarrow> bool" where
  "level_ok ucmp files \<longleftrightarrow> (\<forall>f\<in>set files. file_ok ucmp f)
     \<and> sorted_wrt (\<lambda>f g. Compare (InternalKeyComparator ucmp) (fm_largest f) (fm_smallest g) < 0) files"

abbreviation small_user :: "FileMetaData \<Rightarrow> bytes" where
  "small_user f \<equiv> ExtractUserKey (fm_smallest f)"

abbreviation large_user :: "FileMetaData \<Rightarrow> bytes" where
  "large_user f \<equiv> ExtractUserKey (fm_largest f)"

definition overlaps :: "comparator \<Rightarrow> bytes option \<Rightarrow> bytes option \<Rightarrow> FileMetaData \<Rightarrow> bool" where
  "overlaps ucmp b e f \<longleftrightarrow> (\<forall>k. b = Some k \<longrightarrow> \<not> Compare ucmp (large_user f) k < 0) \<and> (\<forall>k. e = Some k \<longrightarrow> \<not> 0 < Compare ucmp (small_user f) k)"

lemma nth_takeWhile_P: "i < length (takeWhile P xs) \<Longrightarrow> P (xs ! i)"
  by (metis nth_mem set_takeWhileD takeWhile_nth)

lemma FindFile_loop_bounds:
  assumes "left \<le> right" "right \<le> length files" "\<forall>i<left. Compare icmp (fm_largest (files ! i)) key < 0"
    and "\<forall>i. right \<le> i \<longrightarrow> i < length files \<longrightarrow> \<not> Compare icmp (fm_largest (files ! i)) key < 0"
    and mono: "\<And>i j. i \<le> j \<Longrightarrow> j < length files \<Longrightarrow> Compare icmp (fm_largest (files ! j)) key < 0 \<Longrightarrow> Compare icmp (fm_largest (files ! i)) key < 0"
  shows "FindFile_loop icmp files key left right = length (takeWhile (\<lambda>f. Compare icmp (fm_largest f) key < 0) files)"
  using assms(1-4)
proof (induction "right - left" arbitrary: left right rule: less_induct)
  case less
  show ?case
  proof (cases "left < right")
    case False
    then have "takeWhile (\<lambda>f. Compare icmp (fm_largest f) key < 0) files = take left files"
      using less.prems by (intro takeWhile_eq_take_P_nth) auto
    then show ?thesis using less.prems False by (subst FindFile_loop.simps) simp
  next
    case True
    define mid where "mid = (left + right) div 2"
    have m: "left \<le> mid" "mid < right" using True by (auto simp: mid_def)
    show ?thesis
    proof (cases "Compare icmp (fm_largest (files ! mid)) key < 0")
      case lt: True
      have "\<forall>i<mid + 1. Compare icmp (fm_largest (files ! i)) key < 0" using mono [of _ mid] lt m less.prems(2) by simp
      then show ?thesis using less.hyps [of right "mid + 1"] m less.prems True lt
        by (subst FindFile_loop.simps) (simp add: mid_def [symmetric] Let_def)
    next
      case False
      have "\<forall>i. mid \<le> i \<longrightarrow> i < length files \<longrightarrow> \<not> Compare icmp (fm_largest (files ! i)) key < 0" using mono [of mid] False by blast
      then show ?thesis using less.hyps [of mid left] m less.prems True False
        by (subst FindFile_loop.simps) (simp add: mid_def [symmetric] Let_def)
    qed
  qed
qed

context internal_keys
begin

lemma user_le_trans: "Compare ucmp a b \<le> 0 \<Longrightarrow> Compare ucmp b c \<le> 0 \<Longrightarrow> Compare ucmp a c \<le> 0"
  using user.cmp_not_less [of c a] user.cmp_not_less [of b a] user.cmp_less_le_trans [of c a b] user.cmp_not_less [of c b] by auto

lemma file_okD:
  assumes "file_ok ucmp f"
  shows "8 \<le> length (fm_smallest f)" "8 \<le> length (fm_largest f)" "Compare ucmp (small_user f) (large_user f) \<le> 0"
proof -
  show "8 \<le> length (fm_smallest f)" "8 \<le> length (fm_largest f)" using assms ParseInternalKey_SomeD(2) unfolding file_ok_def by blast+
  then show "Compare ucmp (small_user f) (large_user f) \<le> 0"
    using assms ik_less [of "fm_smallest f" "fm_largest f"] ik.cmp_eq [of "fm_smallest f" "fm_largest f"] user.cmp_refl unfolding file_ok_def by (metis order_le_less)
qed

lemma level_largest:
  assumes "level_ok ucmp files" "i < j" "j < length files"
  shows "Compare (InternalKeyComparator ucmp) (fm_largest (files ! i)) (fm_smallest (files ! j)) < 0"
    "Compare (InternalKeyComparator ucmp) (fm_largest (files ! i)) (fm_largest (files ! j)) < 0"
    "Compare ucmp (large_user (files ! i)) (small_user (files ! j)) \<le> 0"
proof -
  have ok: "file_ok ucmp (files ! i)" "file_ok ucmp (files ! j)" using assms by (auto simp: level_ok_def)
  note l = file_okD [OF ok(1)] file_okD [OF ok(2)]
  show lt: "Compare (InternalKeyComparator ucmp) (fm_largest (files ! i)) (fm_smallest (files ! j)) < 0"
    using assms by (simp add: level_ok_def sorted_wrt_iff_nth_less)
  show "Compare (InternalKeyComparator ucmp) (fm_largest (files ! i)) (fm_largest (files ! j)) < 0"
    using lt ok(2) l ik.cmp_less_le_trans [of "fm_largest (files ! i)" "fm_smallest (files ! j)" "fm_largest (files ! j)"] by (simp add: file_ok_def)
  show "Compare ucmp (large_user (files ! i)) (small_user (files ! j)) \<le> 0" using lt unfolding ik_less using user.cmp_refl by auto
qed

lemma FindFile_eq:
  assumes "level_ok ucmp files" "8 \<le> length key"
  shows "FindFile (InternalKeyComparator ucmp) files key = length (takeWhile (\<lambda>f. Compare (InternalKeyComparator ucmp) (fm_largest f) key < 0) files)"
  unfolding FindFile_def
proof (rule FindFile_loop_bounds)
  fix i j assume ij: "i \<le> j" "j < length files" "Compare (InternalKeyComparator ucmp) (fm_largest (files ! j)) key < 0"
  have "8 \<le> length (fm_largest (files ! i))" "8 \<le> length (fm_largest (files ! j))" using assms(1) ij file_okD(2) by (auto simp: level_ok_def)
  then show "Compare (InternalKeyComparator ucmp) (fm_largest (files ! i)) key < 0"
    using level_largest(2) [OF assms(1), of i j] ij ik.cmp_less_trans [of "fm_largest (files ! i)" "fm_largest (files ! j)" key] assms(2)
    by (cases "i = j") auto
qed auto

lemma level_small_mono:
  assumes "level_ok ucmp files" "i \<le> j" "j < length files"
  shows "Compare ucmp (small_user (files ! i)) (small_user (files ! j)) \<le> 0" "Compare ucmp (large_user (files ! i)) (large_user (files ! j)) \<le> 0"
proof -
  have ok: "file_ok ucmp (files ! i)" "file_ok ucmp (files ! j)" using assms by (auto simp: level_ok_def)
  show "Compare ucmp (small_user (files ! i)) (small_user (files ! j)) \<le> 0" "Compare ucmp (large_user (files ! i)) (large_user (files ! j)) \<le> 0"
    using user_le_trans [OF file_okD(3) [OF ok(1)] level_largest(3) [OF assms(1) _ assms(3)]]
      user_le_trans [OF level_largest(3) [OF assms(1) _ assms(3)] file_okD(3) [OF ok(2)]] assms(2)
    by (cases "i = j"; simp add: user.cmp_refl)+
qed

text \<open>The first file that ends at or after a user key.\<close>

lemma key_before_file:
  assumes "file_ok ucmp f"
  shows "Compare (InternalKeyComparator ucmp) (fm_largest f) (InternalKey k kMaxSequenceNumber kTypeValue) < 0 \<longleftrightarrow> Compare ucmp (large_user f) k < 0"
  using target_less(3) [of "[(fm_largest f, [])]" "(fm_largest f, [])" k] pk_key(4) [of "[(fm_largest f, [])]" "(fm_largest f, [])"] assms
  by (simp add: versions_ok_def file_ok_def)

lemma FindFile_user:
  assumes "level_ok ucmp files"
  shows "FindFile (InternalKeyComparator ucmp) files (InternalKey k kMaxSequenceNumber kTypeValue)
    = length (takeWhile (\<lambda>f. Compare ucmp (large_user f) k < 0) files)"
proof -
  have "takeWhile (\<lambda>f. Compare (InternalKeyComparator ucmp) (fm_largest f) (InternalKey k kMaxSequenceNumber kTypeValue) < 0) files
    = takeWhile (\<lambda>f. Compare ucmp (large_user f) k < 0) files"
    using key_before_file assms by (intro takeWhile_cong) (auto simp: level_ok_def)
  then show ?thesis using FindFile_eq [OF assms, of "InternalKey k kMaxSequenceNumber kTypeValue"] by simp
qed

lemma overlaps_alt: "overlaps ucmp b e f \<longleftrightarrow> \<not> (AfterFile ucmp b f \<or> BeforeFile ucmp e f)"
  using user.cmp_sym by (auto simp: overlaps_def AfterFile_def BeforeFile_def split: option.split)

lemma SomeFileOverlapsRange_iff:
  assumes ok: "level_ok ucmp files"
  shows "SomeFileOverlapsRange ucmp True files b e \<longleftrightarrow> (\<exists>f\<in>set files. overlaps ucmp b e f)"
proof -
  define n where "n = (case b of None \<Rightarrow> 0 | Some k \<Rightarrow> length (takeWhile (\<lambda>f. Compare ucmp (large_user f) k < 0) files))"
  have eq: "SomeFileOverlapsRange ucmp True files b e \<longleftrightarrow> n < length files \<and> \<not> BeforeFile ucmp e (files ! n)"
    using FindFile_user [OF ok] by (auto simp: SomeFileOverlapsRange_def n_def kValueTypeForSeek_def Let_def split: option.split)
  have after: "AfterFile ucmp b (files ! i)" if "i < n" "i < length files" for i
    using that nth_takeWhile_P [of i "\<lambda>f. Compare ucmp (large_user f) (the b) < 0" files] user.cmp_sym
    by (auto simp: n_def AfterFile_def split: option.splits)
  have here: "\<not> AfterFile ucmp b (files ! n)" if "n < length files"
    using that nth_length_takeWhile [of "\<lambda>f. Compare ucmp (large_user f) (the b) < 0" files] user.cmp_sym by (auto simp: n_def AfterFile_def split: option.splits)
  have later: "BeforeFile ucmp e (files ! i)" if "BeforeFile ucmp e (files ! n)" "n \<le> i" "i < length files" for i
    using that level_small_mono(1) [OF ok that(2,3)] user.cmp_less_le_trans by (auto simp: BeforeFile_def split: option.splits)
  show ?thesis
  proof
    assume "SomeFileOverlapsRange ucmp True files b e"
    then show "\<exists>f\<in>set files. overlaps ucmp b e f" using eq here by (auto simp: overlaps_alt)
  next
    assume "\<exists>f\<in>set files. overlaps ucmp b e f"
    then obtain i where i: "i < length files" "\<not> AfterFile ucmp b (files ! i)" "\<not> BeforeFile ucmp e (files ! i)"
      unfolding overlaps_alt by (metis in_set_conv_nth)
    then have "n \<le> i" using after [of i] by (meson not_le)
    then show "SomeFileOverlapsRange ucmp True files b e" using eq i later [of i] by auto
  qed
qed

text \<open>Above level 0 the range does not grow.\<close>

lemma overlap_loop_level:
  "0 < level \<Longrightarrow> i \<le> length files \<Longrightarrow> overlap_loop ucmp level files i b e inputs = Some (inputs @ filter (overlaps ucmp b e) (drop i files))"
proof (induction "length files - i" arbitrary: i inputs)
  case 0
  then show ?case by (subst overlap_loop.simps) simp
next
  case (Suc n)
  then have "drop i files = files ! i # drop (Suc i) files" by (simp add: Cons_nth_drop_Suc)
  then show ?case using Suc.hyps(1) [of "Suc i"] Suc.hyps(2) Suc.prems
    by (subst overlap_loop.simps) (auto simp: overlaps_def Let_def)
qed

end

text \<open>At level 0 it grows until no file of the result sticks out.\<close>

definition range_within :: "comparator \<Rightarrow> bytes option \<Rightarrow> bytes option \<Rightarrow> FileMetaData \<Rightarrow> bool" where
  "range_within ucmp b e f \<longleftrightarrow> (\<forall>k. b = Some k \<longrightarrow> \<not> Compare ucmp (small_user f) k < 0) \<and> (\<forall>k. e = Some k \<longrightarrow> \<not> 0 < Compare ucmp (large_user f) k)"

definition range_covers :: "comparator \<Rightarrow> bytes option \<Rightarrow> bytes option \<Rightarrow> bytes option \<Rightarrow> bytes option \<Rightarrow> bool" where
  "range_covers ucmp b' e' b e \<longleftrightarrow>
     (case b of None \<Rightarrow> b' = None | Some k \<Rightarrow> \<exists>k'. b' = Some k' \<and> Compare ucmp k' k \<le> 0)
     \<and> (case e of None \<Rightarrow> e' = None | Some k \<Rightarrow> \<exists>k'. e' = Some k' \<and> Compare ucmp k k' \<le> 0)"

definition beyond_below :: "comparator \<Rightarrow> bytes option \<Rightarrow> FileMetaData list \<Rightarrow> nat" where
  "beyond_below ucmp b files = length (filter (\<lambda>g. case b of None \<Rightarrow> False | Some k \<Rightarrow> Compare ucmp (small_user g) k < 0) files)"

definition beyond_above :: "comparator \<Rightarrow> bytes option \<Rightarrow> FileMetaData list \<Rightarrow> nat" where
  "beyond_above ucmp e files = length (filter (\<lambda>g. case e of None \<Rightarrow> False | Some k \<Rightarrow> 0 < Compare ucmp (large_user g) k) files)"

context internal_keys
begin

lemma filter_less:
  assumes "\<And>x. x \<in> set xs \<Longrightarrow> P x \<Longrightarrow> Q x" "y \<in> set xs" "Q y" "\<not> P y"
  shows "length (filter P xs) < length (filter Q xs)"
  using assms
proof (induction xs)
  case (Cons x xs)
  have le: "length (filter P zs) \<le> length (filter Q zs)" if "\<And>z. z \<in> set zs \<Longrightarrow> P z \<Longrightarrow> Q z" for zs
    using that by (induction zs) (auto simp: le_Suc_eq)
  show ?case
  proof (cases "x = y")
    case True
    then show ?thesis using le [of xs] Cons.prems by (auto simp: less_Suc_eq_le)
  next
    case False
    then show ?thesis using Cons by auto
  qed
qed simp

lemma beyond_less:
  assumes "f \<in> set files"
  shows "Compare ucmp (small_user f) k < 0 \<Longrightarrow> beyond_below ucmp (Some (small_user f)) files < beyond_below ucmp (Some k) files"
    "0 < Compare ucmp (large_user f) k \<Longrightarrow> beyond_above ucmp (Some (large_user f)) files < beyond_above ucmp (Some k) files"
proof -
  show "beyond_below ucmp (Some (small_user f)) files < beyond_below ucmp (Some k) files" if "Compare ucmp (small_user f) k < 0"
    unfolding beyond_below_def using that assms user.cmp_less_trans user.cmp_refl by (intro filter_less [where y = f]) auto
  show "beyond_above ucmp (Some (large_user f)) files < beyond_above ucmp (Some k) files" if "0 < Compare ucmp (large_user f) k"
    unfolding beyond_above_def using that assms user.cmp_less_trans [of k "large_user f"] user.cmp_sym user.cmp_refl by (intro filter_less [where y = f]) auto
qed

lemma overlap_loop_zero:
  assumes "i \<le> length files" "inputs = filter (overlaps ucmp b e) (take i files)" "\<forall>f\<in>set inputs. range_within ucmp b e f"
  shows "\<exists>b' e'. overlap_loop ucmp 0 files i b e inputs = Some (filter (overlaps ucmp b' e') files)
    \<and> (\<forall>f\<in>set files. overlaps ucmp b' e' f \<longrightarrow> range_within ucmp b' e' f) \<and> range_covers ucmp b' e' b e"
  using assms
proof (induction "(beyond_below ucmp b files + beyond_above ucmp e files) * Suc (length files) + (length files - i)" arbitrary: i b e inputs rule: less_induct)
  case less
  have refl: "range_covers ucmp b e b e" by (auto simp: range_covers_def user.cmp_refl split: option.split)
  have trans: "range_covers ucmp b' e' b e" if "range_covers ucmp b' e' b2 e2" "range_covers ucmp b2 e2 b e" for b' e' b2 e2
    using that user_le_trans unfolding range_covers_def by (auto split: option.splits)
  show ?case
  proof (cases "i < length files")
    case False
    then show ?thesis using less.prems refl by (intro exI [of _ b] exI [of _ e]) (subst overlap_loop.simps, auto)
  next
    case True
    define f where "f = files ! i"
    have f: "f \<in> set files" "take (Suc i) files = take i files @ [f]" using True by (simp_all add: f_def take_Suc_conv_app_nth)
    consider (skip) "\<not> overlaps ucmp b e f" | (below) k where "overlaps ucmp b e f" "b = Some k" "Compare ucmp (small_user f) k < 0"
      | (above) k where "overlaps ucmp b e f" "\<forall>k. b = Some k \<longrightarrow> \<not> Compare ucmp (small_user f) k < 0" "e = Some k" "0 < Compare ucmp (large_user f) k"
      | (inside) "overlaps ucmp b e f" "range_within ucmp b e f" by (auto simp: range_within_def)
    then show ?thesis
    proof cases
      case skip
      have "overlap_loop ucmp 0 files i b e inputs = overlap_loop ucmp 0 files (Suc i) b e inputs"
        using skip True by (subst overlap_loop.simps) (auto simp: overlaps_def f_def Let_def)
      then show ?thesis using less.hyps [of b e "Suc i" inputs] less.prems True skip f by simp
    next
      case below
      have e: "overlap_loop ucmp 0 files i b e inputs = overlap_loop ucmp 0 files 0 (Some (small_user f)) e []"
        using below True by (subst overlap_loop.simps) (auto simp: overlaps_def f_def Let_def)
      have "range_covers ucmp (Some (small_user f)) e b e" using below by (auto simp: range_covers_def user.cmp_refl split: option.split)
      moreover have "(beyond_below ucmp (Some (small_user f)) files + beyond_above ucmp e files) * Suc (length files) + (length files - 0)
        < (beyond_below ucmp b files + beyond_above ucmp e files) * Suc (length files) + (length files - i)"
        using beyond_less(1) [OF f(1) below(3)] below(2) mult_le_mono1 [of "Suc (beyond_below ucmp (Some (small_user f)) files + beyond_above ucmp e files)"
          "beyond_below ucmp b files + beyond_above ucmp e files" "Suc (length files)"] by simp
      ultimately show ?thesis unfolding e using less.hyps [of "Some (small_user f)" e 0 "[]"] trans by (simp del: mult_Suc_right) blast
    next
      case above
      have e: "overlap_loop ucmp 0 files i b e inputs = overlap_loop ucmp 0 files 0 b (Some (large_user f)) []"
        using above True by (subst overlap_loop.simps) (auto simp: overlaps_def f_def Let_def)
      have "range_covers ucmp b (Some (large_user f)) b e" using above user.cmp_not_less [of "large_user f" "the e"]
        by (auto simp: range_covers_def user.cmp_refl split: option.split)
      moreover have "(beyond_below ucmp b files + beyond_above ucmp (Some (large_user f)) files) * Suc (length files) + (length files - 0)
        < (beyond_below ucmp b files + beyond_above ucmp e files) * Suc (length files) + (length files - i)"
        using beyond_less(2) [OF f(1) above(4)] above(3) mult_le_mono1 [of "Suc (beyond_below ucmp b files + beyond_above ucmp (Some (large_user f)) files)"
          "beyond_below ucmp b files + beyond_above ucmp e files" "Suc (length files)"] by simp
      ultimately show ?thesis unfolding e using less.hyps [of b "Some (large_user f)" 0 "[]"] trans by (simp del: mult_Suc_right) blast
    next
      case inside
      have "overlap_loop ucmp 0 files i b e inputs = overlap_loop ucmp 0 files (Suc i) b e (inputs @ [f])"
        using inside True by (subst overlap_loop.simps) (auto simp: overlaps_def range_within_def f_def Let_def)
      then show ?thesis using less.hyps [of b e "Suc i" "inputs @ [f]"] less.prems True inside f by simp
    qed
  qed
qed

lemma overlaps_mono:
  assumes "range_covers ucmp b' e' b e" "overlaps ucmp b e f"
  shows "overlaps ucmp b' e' f"
proof -
  have "\<not> Compare ucmp (large_user f) k' < 0" if "b' = Some k'" for k'
    using assms that user.cmp_less_le_trans [of "large_user f" k'] by (auto simp: range_covers_def overlaps_def split: option.splits)
  moreover have "\<not> 0 < Compare ucmp (small_user f) k'" if "e' = Some k'" for k'
    using assms that user.cmp_le_less_trans [of _ k' "small_user f"] user.cmp_sym by (auto simp: range_covers_def overlaps_def split: option.splits)
  ultimately show ?thesis by (simp add: overlaps_def)
qed

lemma GetOverlappingInputs_zero:
  obtains inputs where "GetOverlappingInputs ucmp v 0 b e = Some inputs" "set inputs \<subseteq> set (v_files v ! 0)"
    "\<forall>f\<in>set (v_files v ! 0). overlaps ucmp (map_option ExtractUserKey b) (map_option ExtractUserKey e) f \<longrightarrow> f \<in> set inputs"
    "\<forall>f\<in>set inputs. \<forall>g\<in>set (v_files v ! 0) - set inputs. Compare ucmp (large_user g) (small_user f) < 0 \<or> Compare ucmp (large_user f) (small_user g) < 0"
proof -
  let ?b = "map_option ExtractUserKey b" and ?e = "map_option ExtractUserKey e" and ?files = "v_files v ! 0"
  obtain b' e' where r: "GetOverlappingInputs ucmp v 0 b e = Some (filter (overlaps ucmp b' e') ?files)"
    "\<forall>f\<in>set ?files. overlaps ucmp b' e' f \<longrightarrow> range_within ucmp b' e' f" "range_covers ucmp b' e' ?b ?e"
    using overlap_loop_zero [of 0 ?files "[]" ?b ?e] by (auto simp: GetOverlappingInputs_def)
  have "Compare ucmp (large_user g) (small_user f) < 0 \<or> Compare ucmp (large_user f) (small_user g) < 0"
    if f: "f \<in> set ?files" "overlaps ucmp b' e' f" and g: "\<not> overlaps ucmp b' e' g" for f g
  proof -
    consider k where "b' = Some k" "Compare ucmp (large_user g) k < 0" | k where "e' = Some k" "0 < Compare ucmp (small_user g) k" using g by (auto simp: overlaps_def)
    then show ?thesis
    proof cases
      case (1 k)
      then have "Compare ucmp k (small_user f) \<le> 0" using r(2) f user.cmp_not_less by (auto simp: range_within_def)
      then show ?thesis using 1(2) user.cmp_less_le_trans by blast
    next
      case (2 k)
      then have "Compare ucmp (large_user f) k \<le> 0" using r(2) f by (auto simp: range_within_def)
      then show ?thesis using 2(2) user.cmp_le_less_trans user.cmp_sym by blast
    qed
  qed
  then show ?thesis using that [OF r(1)] overlaps_mono [OF r(3)] by auto
qed

end

lemma ucast_plus: "(ucast (a + b :: u64) :: u32) = ucast a + ucast b"
proof transfer
  fix a b :: int
  have "take_bit 32 (take_bit 64 a + take_bit 64 b) = take_bit 32 (take_bit 32 (take_bit 64 a) + take_bit 32 (take_bit 64 b))"
    by (simp only: take_bit_add)
  then show "take_bit LENGTH(32) (take_bit LENGTH(64) (a + b)) = take_bit LENGTH(32) (take_bit LENGTH(64) a + take_bit LENGTH(64) b)"
    by (simp add: take_bit_add)
qed

lemma scast_low: "ucast (scast (s :: u32) + x :: u64) = s + ucast x"
proof -
  have "ucast (scast s :: u64) = s" by transfer (simp add: take_bit_signed_take_bit)
  then show ?thesis by (simp add: ucast_plus)
qed

lemma TotalFileSize_sum:
  "foldl (\<lambda>sum f. ucast (scast sum + fm_file_size f :: u64)) (s :: u32) files = s + of_nat (sum_list (map (\<lambda>f. unat (fm_file_size f)) files))"
  by (induction files arbitrary: s) (simp_all add: scast_low add.assoc)

section \<open>What the builder makes\<close>

fun merge_files :: "comparator \<Rightarrow> FileMetaData list \<Rightarrow> FileMetaData list \<Rightarrow> FileMetaData list" where
  "merge_files icmp base [] = base"
| "merge_files icmp base (a # added) =
     takeWhile (\<lambda>b. \<not> BySmallestKey icmp a b) base @ a # merge_files icmp (dropWhile (\<lambda>b. \<not> BySmallestKey icmp a b) base) added"

lemma MaybeAddFile_fold: "fold (MaybeAddFile deleted) fs files = files @ filter (\<lambda>f. fm_number f \<notin> deleted) fs"
  by (induction fs arbitrary: files) (simp_all add: MaybeAddFile_def)

lemma save_level_eq: "save_level icmp deleted base added files = files @ filter (\<lambda>f. fm_number f \<notin> deleted) (merge_files icmp base added)"
  by (induction icmp base added arbitrary: files rule: merge_files.induct)
    (auto simp: MaybeAddFile_fold MaybeAddFile_def takeWhile_eq_take [symmetric] dropWhile_eq_drop [symmetric] Let_def)

lemma merge_files_set: "set (merge_files icmp base added) = set base \<union> set added"
proof (induction icmp base added rule: merge_files.induct)
  case (2 icmp base a added)
  have "set base = set (takeWhile (\<lambda>b. \<not> BySmallestKey icmp a b) base) \<union> set (dropWhile (\<lambda>b. \<not> BySmallestKey icmp a b) base)"
    by (metis set_append takeWhile_dropWhile_id)
  then show ?case using 2 by auto
qed simp

lemma sorted_wrt_unique:
  assumes "sorted_wrt R xs" "sorted_wrt R ys" "set xs = set ys" "\<And>x y. x \<in> set xs \<Longrightarrow> y \<in> set xs \<Longrightarrow> R x y \<Longrightarrow> \<not> R y x"
  shows "xs = ys"
  using assms
proof (induction xs arbitrary: ys)
  case (Cons x xs)
  have "ys \<noteq> []" using Cons.prems(3) by auto
  then obtain y ys' where ys: "ys = y # ys'" by (meson neq_Nil_conv)
  have "x = y" using Cons.prems(1-3) Cons.prems(4) [of x y] unfolding ys by (metis list.set_intros(1) set_ConsD sorted_wrt.simps(2))
  moreover have "x \<notin> set xs" "y \<notin> set ys'" using Cons.prems(1,2) Cons.prems(4) [of x x] \<open>x = y\<close> unfolding ys by auto
  then have "set xs = set ys'" using Cons.prems(3) \<open>x = y\<close> unfolding ys by (metis insert_ident list.simps(15))
  moreover have "xs = ys'" by (rule Cons.IH) (use Cons.prems \<open>set xs = set ys'\<close> in \<open>auto simp: ys\<close>)
  ultimately show ?case unfolding ys by simp
qed simp

context internal_keys
begin

abbreviation by_key :: "FileMetaData \<Rightarrow> FileMetaData \<Rightarrow> bool" where
  "by_key \<equiv> BySmallestKey (InternalKeyComparator ucmp)"

lemma by_key_asym: "8 \<le> length (fm_smallest f) \<Longrightarrow> 8 \<le> length (fm_smallest g) \<Longrightarrow> by_key f g \<Longrightarrow> \<not> by_key g f"
  using ik.cmp_sym [of "fm_smallest f" "fm_smallest g"] ik.cmp_eq_sym [of "fm_smallest f" "fm_smallest g"] ik.cmp_sym [of "fm_smallest g" "fm_smallest f"]
  by (auto simp: BySmallestKey_def Let_def split: if_splits)

lemma by_key_total: "8 \<le> length (fm_smallest f) \<Longrightarrow> 8 \<le> length (fm_smallest g) \<Longrightarrow> fm_number f \<noteq> fm_number g \<Longrightarrow> by_key f g \<or> by_key g f"
  using ik.cmp_sym [of "fm_smallest f" "fm_smallest g"] ik.cmp_sym [of "fm_smallest g" "fm_smallest f"]
  by (auto simp: BySmallestKey_def Let_def split: if_splits)

lemma by_key_trans:
  assumes "8 \<le> length (fm_smallest f)" "8 \<le> length (fm_smallest g)" "8 \<le> length (fm_smallest h)" "by_key f g" "by_key g h"
  shows "by_key f h"
proof -
  let ?c = "\<lambda>a b. Compare (InternalKeyComparator ucmp) (fm_smallest a) (fm_smallest b)"
  have le: "?c f g \<le> 0" "?c g h \<le> 0" using assms(4,5) by (auto simp: BySmallestKey_def Let_def split: if_splits)
  consider "?c f g < 0" | "?c g h < 0" | "?c f g = 0" "?c g h = 0" using le by linarith
  then show ?thesis
  proof cases
    case 1
    then have "?c f h < 0" using ik.cmp_less_le_trans assms(1-3) le by blast
    then show ?thesis by (simp add: BySmallestKey_def)
  next
    case 2
    then have "?c f h < 0" using ik.cmp_le_less_trans assms(1-3) le by blast
    then show ?thesis by (simp add: BySmallestKey_def)
  next
    case 3
    then have "fm_smallest f = fm_smallest g" "fm_smallest g = fm_smallest h" using ik.cmp_eq assms(1-3) by auto
    then show ?thesis using assms(4,5) 3 by (auto simp: BySmallestKey_def)
  qed
qed

lemma fileset_insert_sorted:
  assumes "\<forall>g\<in>set (f # gs). 8 \<le> length (fm_smallest g)" "fm_number f \<notin> fm_number ` set gs" "sorted_wrt by_key gs"
  shows "set (fileset_insert (InternalKeyComparator ucmp) f gs) = insert f (set gs) \<and> sorted_wrt by_key (fileset_insert (InternalKeyComparator ucmp) f gs)"
  using assms
proof (induction gs)
  case (Cons g gs)
  show ?case
  proof -
    note a = Cons.prems(1) and n = Cons.prems(2) and so = Cons.prems(3)
    have total: "by_key f g \<or> by_key g f" using by_key_total [of f g] a n by auto
    have IH: "set (fileset_insert (InternalKeyComparator ucmp) f gs) = insert f (set gs)" "sorted_wrt by_key (fileset_insert (InternalKeyComparator ucmp) f gs)"
      using Cons.IH a n so by auto
    show ?thesis
    proof (cases "by_key f g")
      case True
      then have "\<forall>h\<in>set gs. by_key f h" using so a by_key_trans [of f g] by auto
      then show ?thesis using True so by auto
    next
      case False
      then show ?thesis using IH total so by auto
    qed
  qed
qed auto

lemma merge_files_sorted:
  assumes "\<forall>g\<in>set base \<union> set added. 8 \<le> length (fm_smallest g)" "fm_number ` set base \<inter> fm_number ` set added = {}"
    and "sorted_wrt by_key base" "sorted_wrt by_key added"
  shows "sorted_wrt by_key (merge_files (InternalKeyComparator ucmp) base added)"
  using assms
proof (induction added arbitrary: base)
  case (Cons a added)
  define t d where "t = takeWhile (\<lambda>b. \<not> by_key a b) base" and "d = dropWhile (\<lambda>b. \<not> by_key a b) base"
  have td: "base = t @ d" by (simp add: t_def d_def)
  have t: "\<not> by_key a x" if "x \<in> set t" for x using that set_takeWhileD by (fastforce simp: t_def)
  have len: "8 \<le> length (fm_smallest x)" if "x \<in> set t \<union> set d \<union> set added \<union> {a}" for x using that Cons.prems(1) td by auto
  have ta: "by_key x a" if "x \<in> set t" for x
    using t [OF that] by_key_total [of x a] len that Cons.prems(2) td by (metis IntI UnCI emptyE imageI list.set_intros(1) set_append singletonI)
  have ad: "by_key a x" if x: "x \<in> set d" for x
  proof -
    have "d \<noteq> []" using x by auto
    then obtain y ys where y: "d = y # ys" "by_key a y" using hd_dropWhile [of "\<lambda>b. \<not> by_key a b" base] unfolding d_def by (metis list.collapse)
    show ?thesis
    proof (cases "x = y")
      case False
      then have "by_key y x" using Cons.prems(3) x unfolding td y by (auto simp: sorted_wrt_append)
      then show ?thesis using by_key_trans [of a y x] y(2) len x y(1) by auto
    qed (use y in simp)
  qed
  have "sorted_wrt by_key (merge_files (InternalKeyComparator ucmp) d added)" using Cons.prems td by (intro Cons.IH) (auto simp: sorted_wrt_append)
  moreover have aa: "by_key a x" if "x \<in> set added" for x using Cons.prems(4) that by simp
  moreover have "by_key x y" if "x \<in> set t" "y \<in> set d" for x y using Cons.prems(3) that unfolding td by (simp add: sorted_wrt_append)
  moreover have "by_key x y" if "x \<in> set t" "y \<in> set added" for x y
    using by_key_trans [of x a y] ta aa that len by auto
  moreover have "sorted_wrt by_key t" using Cons.prems(3) unfolding td by (simp add: sorted_wrt_append)
  ultimately show ?case using ta ad unfolding merge_files.simps t_def [symmetric] d_def [symmetric] by (auto simp: sorted_wrt_append merge_files_set)
qed simp

end

section \<open>Replaying edits\<close>

text \<open>What an edit file becomes in the builder.\<close>

definition installed :: "FileMetaData \<Rightarrow> FileMetaData" where
  "installed f = f\<lparr> fm_refs := 1, fm_allowed_seeks := (let n = sint (ucast (fm_file_size f div 16384) :: u32) in if n < 100 then 100 else n) \<rparr>"

lemma installed_simps [simp]: "fm_number (installed f) = fm_number f" "fm_smallest (installed f) = fm_smallest f" "fm_largest (installed f) = fm_largest f"
  by (simp_all add: installed_def)

definition deleted_at :: "nat \<Rightarrow> VersionEdit \<Rightarrow> u64 set" where
  "deleted_at l e = {n. (l, n) \<in> set (ve_deleted_files e)}"

definition added_at :: "nat \<Rightarrow> VersionEdit \<Rightarrow> FileMetaData list" where
  "added_at l e = map snd (filter (\<lambda>p. fst p = l) (ve_new_files e))"

definition edit_ok :: "VersionEdit \<Rightarrow> bool" where
  "edit_ok e \<longleftrightarrow> (\<forall>(l, f)\<in>set (ve_new_files e). l < kNumLevels \<and> 8 \<le> length (fm_smallest f)) \<and> (\<forall>(l, n)\<in>set (ve_deleted_files e). l < kNumLevels)"

definition version_sorted :: "comparator \<Rightarrow> Version \<Rightarrow> bool" where
  "version_sorted ucmp v \<longleftrightarrow> length (v_files v) = kNumLevels
     \<and> (\<forall>l<kNumLevels. sorted_wrt (BySmallestKey (InternalKeyComparator ucmp)) (v_files v ! l) \<and> (\<forall>f\<in>set (v_files v ! l). 8 \<le> length (fm_smallest f)))"

text \<open>No edit adds a file number that its level already had.\<close>

definition numbers_fresh :: "Version \<Rightarrow> VersionEdit list \<Rightarrow> bool" where
  "numbers_fresh v es \<longleftrightarrow> (\<forall>l<kNumLevels. distinct (concat (map (\<lambda>e. map fm_number (added_at l e)) es))
     \<and> fm_number ` set (v_files v ! l) \<inter> set (concat (map (\<lambda>e. map fm_number (added_at l e)) es)) = {})"

definition builder_files :: "Builder \<Rightarrow> nat \<Rightarrow> FileMetaData set" where
  "builder_files b l = {f \<in> set (v_files (b_base b) ! l) \<union> set (ls_added_files (b_level b ! l)). fm_number f \<notin> ls_deleted_files (b_level b ! l)}"

definition builder_inv :: "comparator \<Rightarrow> Builder \<Rightarrow> bool" where
  "builder_inv ucmp b \<longleftrightarrow> version_sorted ucmp (b_base b) \<and> length (b_level b) = kNumLevels
     \<and> (\<forall>l<kNumLevels. sorted_wrt (BySmallestKey (InternalKeyComparator ucmp)) (ls_added_files (b_level b ! l))
          \<and> (\<forall>f\<in>set (ls_added_files (b_level b ! l)). 8 \<le> length (fm_smallest f))
          \<and> fm_number ` set (v_files (b_base b) ! l) \<inter> fm_number ` set (ls_added_files (b_level b ! l)) = {})"

definition known_numbers :: "Builder \<Rightarrow> nat \<Rightarrow> u64 set" where
  "known_numbers b l = fm_number ` (set (v_files (b_base b) ! l) \<union> set (ls_added_files (b_level b ! l)))"

text \<open>What an edit does to the set of files of a level.\<close>

definition abs_level :: "nat \<Rightarrow> VersionEdit \<Rightarrow> FileMetaData set \<Rightarrow> FileMetaData set" where
  "abs_level l e X = {f \<in> X. fm_number f \<notin> deleted_at l e} \<union> installed ` set (added_at l e)"

lemma apply_add_installed: "apply_add icmp (l, f) b = b\<lparr> b_level := (b_level b)[l := (b_level b ! l)
    \<lparr> ls_deleted_files := ls_deleted_files (b_level b ! l) - {fm_number f}, ls_added_files := fileset_insert icmp (installed f) (ls_added_files (b_level b ! l)) \<rparr>] \<rparr>"
  by (simp add: apply_add_def installed_def Let_def)

lemma apply_delete_inv:
  assumes "builder_inv ucmp b" "l < kNumLevels"
  shows "builder_inv ucmp (apply_delete (l, n) b)" "known_numbers (apply_delete (l, n) b) = known_numbers b"
    "builder_files (apply_delete (l, n) b) k = (if k = l then {f \<in> builder_files b k. fm_number f \<noteq> n} else builder_files b k)"
  using assms by (auto simp: builder_inv_def apply_delete_def known_numbers_def builder_files_def nth_list_update fun_eq_iff)

context internal_keys
begin

lemma apply_add_inv:
  assumes b: "builder_inv ucmp b" and l: "l < kNumLevels" and f: "8 \<le> length (fm_smallest f)" "fm_number f \<notin> known_numbers b l"
  shows "builder_inv ucmp (apply_add (InternalKeyComparator ucmp) (l, f) b)"
    "known_numbers (apply_add (InternalKeyComparator ucmp) (l, f) b) k = (if k = l then insert (fm_number f) (known_numbers b k) else known_numbers b k)"
    "builder_files (apply_add (InternalKeyComparator ucmp) (l, f) b) k = (if k = l then insert (installed f) (builder_files b k) else builder_files b k)"
proof -
  have len: "length (b_level b) = kNumLevels" using b by (simp add: builder_inv_def)
  have ins: "set (fileset_insert (InternalKeyComparator ucmp) (installed f) (ls_added_files (b_level b ! l))) = insert (installed f) (set (ls_added_files (b_level b ! l)))
    \<and> sorted_wrt by_key (fileset_insert (InternalKeyComparator ucmp) (installed f) (ls_added_files (b_level b ! l)))"
    using b l f by (intro fileset_insert_sorted) (auto simp: builder_inv_def known_numbers_def)
  show "builder_inv ucmp (apply_add (InternalKeyComparator ucmp) (l, f) b)"
    using b l f ins len unfolding builder_inv_def apply_add_installed by (auto simp: nth_list_update known_numbers_def)
  show "known_numbers (apply_add (InternalKeyComparator ucmp) (l, f) b) k = (if k = l then insert (fm_number f) (known_numbers b k) else known_numbers b k)"
    using l len ins by (auto simp: known_numbers_def apply_add_installed nth_list_update)
  show "builder_files (apply_add (InternalKeyComparator ucmp) (l, f) b) k = (if k = l then insert (installed f) (builder_files b k) else builder_files b k)"
  proof -
    have "\<forall>x\<in>set (v_files (b_base b) ! l) \<union> set (ls_added_files (b_level b ! l)). fm_number x \<noteq> fm_number f" using f(2) unfolding known_numbers_def by (metis imageI)
    then show ?thesis using l len ins by (auto simp: builder_files_def apply_add_installed nth_list_update)
  qed
qed

lemma deletes_inv:
  assumes "builder_inv ucmp b" "\<forall>(l, n)\<in>set ds. l < kNumLevels"
  shows "builder_inv ucmp (fold apply_delete ds b) \<and> known_numbers (fold apply_delete ds b) = known_numbers b
    \<and> builder_files (fold apply_delete ds b) k = {f \<in> builder_files b k. (k, fm_number f) \<notin> set ds}"
  using assms
proof (induction ds arbitrary: b)
  case (Cons d ds)
  obtain l n where d: "d = (l, n)" by fastforce
  then have l: "l < kNumLevels" using Cons.prems(2) by auto
  show ?case using Cons.IH [OF apply_delete_inv(1) [OF Cons.prems(1) l, of n]] apply_delete_inv(2,3) [OF Cons.prems(1) l, of n] Cons.prems(2) unfolding d by auto
qed simp

lemma adds_inv:
  assumes "builder_inv ucmp b" "\<forall>(l, f)\<in>set as. l < kNumLevels \<and> 8 \<le> length (fm_smallest f)"
    and "\<forall>l. distinct (map (fm_number \<circ> snd) (filter (\<lambda>p. fst p = l) as)) \<and> known_numbers b l \<inter> (fm_number \<circ> snd) ` set (filter (\<lambda>p. fst p = l) as) = {}"
  shows "builder_inv ucmp (fold (apply_add (InternalKeyComparator ucmp)) as b)
    \<and> known_numbers (fold (apply_add (InternalKeyComparator ucmp)) as b) k = known_numbers b k \<union> (fm_number \<circ> snd) ` set (filter (\<lambda>p. fst p = k) as)
    \<and> builder_files (fold (apply_add (InternalKeyComparator ucmp)) as b) k = builder_files b k \<union> (installed \<circ> snd) ` set (filter (\<lambda>p. fst p = k) as)"
  using assms
proof (induction as arbitrary: b)
  case (Cons a as)
  obtain l f where a: "a = (l, f)" by fastforce
  then have l: "l < kNumLevels" "8 \<le> length (fm_smallest f)" and n: "fm_number f \<notin> known_numbers b l" using Cons.prems(2) Cons.prems(3) [rule_format, of l] by auto
  note A = apply_add_inv [OF Cons.prems(1) l n]
  have "distinct (map (fm_number \<circ> snd) (filter (\<lambda>p. fst p = j) as))
    \<and> known_numbers (apply_add (InternalKeyComparator ucmp) (l, f) b) j \<inter> (fm_number \<circ> snd) ` set (filter (\<lambda>p. fst p = j) as) = {}" for j
    using Cons.prems(3) [rule_format, of j] A(2) [of j] unfolding a by (cases "j = l"; simp)
  note fr = allI [OF this]
  have "\<forall>(l, f)\<in>set as. l < kNumLevels \<and> 8 \<le> length (fm_smallest f)" using Cons.prems(2) by simp
  from Cons.IH [OF A(1) this fr] have "builder_inv ucmp (fold (apply_add (InternalKeyComparator ucmp)) as (apply_add (InternalKeyComparator ucmp) (l, f) b))
    \<and> known_numbers (fold (apply_add (InternalKeyComparator ucmp)) as (apply_add (InternalKeyComparator ucmp) (l, f) b)) k
      = known_numbers (apply_add (InternalKeyComparator ucmp) (l, f) b) k \<union> (fm_number \<circ> snd) ` set (filter (\<lambda>p. fst p = k) as)
    \<and> builder_files (fold (apply_add (InternalKeyComparator ucmp)) as (apply_add (InternalKeyComparator ucmp) (l, f) b)) k
      = builder_files (apply_add (InternalKeyComparator ucmp) (l, f) b) k \<union> (installed \<circ> snd) ` set (filter (\<lambda>p. fst p = k) as)" .
  then show ?case using A(2,3) [of k] unfolding a by (cases "k = l"; simp)
qed simp

lemma Builder_Apply_inv:
  fixes ptrs :: "bytes list"
  assumes b: "builder_inv ucmp b" and e: "edit_ok e"
    and fresh: "\<forall>l<kNumLevels. distinct (map fm_number (added_at l e)) \<and> known_numbers b l \<inter> fm_number ` set (added_at l e) = {}"
  defines "b' \<equiv> fst (Builder_Apply (InternalKeyComparator ucmp) e (b, ptrs))"
  shows "builder_inv ucmp b'" "known_numbers b' k = known_numbers b k \<union> fm_number ` set (added_at k e)"
    "builder_files b' k = abs_level k e (builder_files b k)"
proof -
  define b1 where "b1 = fold apply_delete (ve_deleted_files e) b"
  have D: "builder_inv ucmp b1" "known_numbers b1 = known_numbers b" "builder_files b1 k = {f \<in> builder_files b k. (k, fm_number f) \<notin> set (ve_deleted_files e)}"
    using deletes_inv [OF b, of "ve_deleted_files e" k] e by (auto simp: b1_def edit_ok_def)
  have none: "filter (\<lambda>p. fst p = l) (ve_new_files e) = []" if "\<not> l < kNumLevels" for l using e that by (auto simp: edit_ok_def filter_empty_conv)
  have "distinct (map (fm_number \<circ> snd) (filter (\<lambda>p. fst p = l) (ve_new_files e))) \<and> known_numbers b1 l \<inter> (fm_number \<circ> snd) ` set (filter (\<lambda>p. fst p = l) (ve_new_files e)) = {}" for l
    using fresh [rule_format, of l] none [of l] by (cases "l < kNumLevels") (simp_all add: added_at_def D(2) image_comp)
  then have A: "builder_inv ucmp b' \<and> known_numbers b' k = known_numbers b1 k \<union> (fm_number \<circ> snd) ` set (filter (\<lambda>p. fst p = k) (ve_new_files e))
    \<and> builder_files b' k = builder_files b1 k \<union> (installed \<circ> snd) ` set (filter (\<lambda>p. fst p = k) (ve_new_files e))"
    unfolding b'_def Builder_Apply_def using adds_inv [OF D(1), of "ve_new_files e" k] e by (auto simp: edit_ok_def b1_def)
  then show "builder_inv ucmp b'" "known_numbers b' k = known_numbers b k \<union> fm_number ` set (added_at k e)"
    "builder_files b' k = abs_level k e (builder_files b k)"
    using D(2,3) by (auto simp: added_at_def abs_level_def deleted_at_def image_comp)
qed

lemma Builder_init_inv:
  assumes "version_sorted ucmp v"
  shows "builder_inv ucmp (Builder_init v)" "l < kNumLevels \<Longrightarrow> builder_files (Builder_init v) l = set (v_files v ! l)"
    "l < kNumLevels \<Longrightarrow> known_numbers (Builder_init v) l = fm_number ` set (v_files v ! l)"
  using assms by (auto simp: builder_inv_def Builder_init_def builder_files_def known_numbers_def)

lemma SaveTo_inv:
  assumes "builder_inv ucmp b"
  shows "version_sorted ucmp (SaveTo (InternalKeyComparator ucmp) b Version_init)"
    "l < kNumLevels \<Longrightarrow> set (v_files (SaveTo (InternalKeyComparator ucmp) b Version_init) ! l) = builder_files b l"
proof -
  have files: "v_files (SaveTo (InternalKeyComparator ucmp) b Version_init) ! l =
    filter (\<lambda>f. fm_number f \<notin> ls_deleted_files (b_level b ! l)) (merge_files (InternalKeyComparator ucmp) (v_files (b_base b) ! l) (ls_added_files (b_level b ! l)))"
    if "l < kNumLevels" for l using that by (simp add: SaveTo_def save_level_eq Version_init_def)
  then show "set (v_files (SaveTo (InternalKeyComparator ucmp) b Version_init) ! l) = builder_files b l" if "l < kNumLevels"
    using that by (auto simp: builder_files_def merge_files_set)
  have "sorted_wrt by_key (merge_files (InternalKeyComparator ucmp) (v_files (b_base b) ! l) (ls_added_files (b_level b ! l)))" if "l < kNumLevels" for l
    using assms that by (intro merge_files_sorted) (auto simp: builder_inv_def version_sorted_def)
  then show "version_sorted ucmp (SaveTo (InternalKeyComparator ucmp) b Version_init)"
    using assms files by (auto simp: version_sorted_def sorted_wrt_filter merge_files_set builder_inv_def SaveTo_def)
qed

lemma version_sorted_unique:
  assumes "version_sorted ucmp v" "version_sorted ucmp w" "\<forall>l<kNumLevels. set (v_files v ! l) = set (v_files w ! l)"
  shows "v_files v = v_files w"
proof (rule nth_equalityI)
  show "length (v_files v) = length (v_files w)" using assms by (simp add: version_sorted_def)
  fix l assume "l < length (v_files v)"
  then show "v_files v ! l = v_files w ! l"
    using assms by (intro sorted_wrt_unique [of by_key]) (auto simp: version_sorted_def, metis by_key_asym)
qed

text \<open>Files and numbers after a list of edits.\<close>

lemma replay_files:
  assumes "builder_inv ucmp b" "\<forall>e\<in>set es. edit_ok e"
    and "\<forall>l<kNumLevels. distinct (concat (map (\<lambda>e. map fm_number (added_at l e)) es)) \<and> known_numbers b l \<inter> set (concat (map (\<lambda>e. map fm_number (added_at l e)) es)) = {}"
  shows "builder_inv ucmp (fst (fold (Builder_Apply (InternalKeyComparator ucmp)) es (b, ptrs)))
    \<and> (l < kNumLevels \<longrightarrow> builder_files (fst (fold (Builder_Apply (InternalKeyComparator ucmp)) es (b, ptrs))) l = fold (abs_level l) es (builder_files b l))"
  using assms
proof (induction es arbitrary: b ptrs)
  case (Cons e es)
  obtain b' ptrs' where b': "Builder_Apply (InternalKeyComparator ucmp) e (b, ptrs) = (b', ptrs')" by fastforce
  have fresh: "\<forall>l<kNumLevels. distinct (map fm_number (added_at l e)) \<and> known_numbers b l \<inter> fm_number ` set (added_at l e) = {}"
    using Cons.prems(3) by (auto simp: Int_Un_distrib)
  have e: "edit_ok e" using Cons.prems(2) by simp
  note A = Builder_Apply_inv [OF Cons.prems(1) e fresh, of ptrs, unfolded b' fst_conv]
  have "distinct (concat (map (\<lambda>e. map fm_number (added_at l e)) es)) \<and> known_numbers b' l \<inter> set (concat (map (\<lambda>e. map fm_number (added_at l e)) es)) = {}"
    if l: "l < kNumLevels" for l
    using Cons.prems(3) [rule_format, OF l] A(2) [of l] by (auto simp: Int_Un_distrib Int_Un_distrib2)
  then show ?case using Cons.IH [OF A(1)] Cons.prems(2) A(3) [of l] b' by simp
qed simp

lemma sequential_files:
  assumes "version_sorted ucmp v" "\<forall>e\<in>set es. edit_ok e" "numbers_fresh v es"
  shows "version_sorted ucmp (fold (\<lambda>e v. SaveTo (InternalKeyComparator ucmp) (fst (Builder_Apply (InternalKeyComparator ucmp) e (Builder_init v, ptrs))) Version_init) es v)
    \<and> (l < kNumLevels \<longrightarrow> set (v_files (fold (\<lambda>e v. SaveTo (InternalKeyComparator ucmp) (fst (Builder_Apply (InternalKeyComparator ucmp) e (Builder_init v, ptrs))) Version_init) es v) ! l)
       = fold (abs_level l) es (set (v_files v ! l)))"
  using assms
proof (induction es arbitrary: v)
  case (Cons e es)
  define b where "b = fst (Builder_Apply (InternalKeyComparator ucmp) e (Builder_init v, ptrs))"
  define w where "w = SaveTo (InternalKeyComparator ucmp) b Version_init"
  note I = Builder_init_inv [OF Cons.prems(1)]
  have fresh: "\<forall>l<kNumLevels. distinct (map fm_number (added_at l e)) \<and> known_numbers (Builder_init v) l \<inter> fm_number ` set (added_at l e) = {}"
    using Cons.prems(3) I(3) by (auto simp: numbers_fresh_def Int_Un_distrib)
  have e: "edit_ok e" using Cons.prems(2) by simp
  note A = Builder_Apply_inv [OF I(1) e fresh, of ptrs, folded b_def]
  note S = SaveTo_inv [OF A(1), folded w_def]
  have w: "set (v_files w ! l) = abs_level l e (set (v_files v ! l))" if "l < kNumLevels" for l using S(2) [OF that] A(3) [of l] I(2) [OF that] by simp
  have "numbers_fresh w es"
    unfolding numbers_fresh_def
  proof (intro allI impI)
    fix l assume l: "l < kNumLevels"
    have "fm_number ` set (v_files w ! l) \<subseteq> fm_number ` set (v_files v ! l) \<union> fm_number ` set (added_at l e)" unfolding w [OF l] by (auto simp: abs_level_def)
    then show "distinct (concat (map (\<lambda>e. map fm_number (added_at l e)) es)) \<and> fm_number ` set (v_files w ! l) \<inter> set (concat (map (\<lambda>e. map fm_number (added_at l e)) es)) = {}"
      using Cons.prems(3) [unfolded numbers_fresh_def, rule_format, OF l] by (auto simp: Int_Un_distrib) blast+
  qed
  then show ?case using Cons.IH [OF S(1)] Cons.prems(2) w [of l] by (simp add: b_def w_def)
qed simp

end

section \<open>Properties\<close>

text \<open>
  C30: Replaying edits.  Recovery applies all edits of the manifest to one builder and saves once; a running database applies each edit with a builder of its own.
  Both lead to the same files, level by level, as long as no edit adds a file number that its level already had;
  the result is sorted and holds the files that were added and not deleted since.
\<close>

theorem builder_replay:
  assumes "internal_keys ucmp" "version_sorted ucmp v" "\<forall>e\<in>set es. edit_ok e" "numbers_fresh v es"
  shows "v_files (SaveTo (InternalKeyComparator ucmp) (fst (fold (Builder_Apply (InternalKeyComparator ucmp)) es (Builder_init v, ptrs))) Version_init)
      = v_files (fold (\<lambda>e v. SaveTo (InternalKeyComparator ucmp) (fst (Builder_Apply (InternalKeyComparator ucmp) e (Builder_init v, ptrs))) Version_init) es v)
    \<and> version_sorted ucmp (SaveTo (InternalKeyComparator ucmp) (fst (fold (Builder_Apply (InternalKeyComparator ucmp)) es (Builder_init v, ptrs))) Version_init)
    \<and> (\<forall>l<kNumLevels. set (v_files (SaveTo (InternalKeyComparator ucmp) (fst (fold (Builder_Apply (InternalKeyComparator ucmp)) es (Builder_init v, ptrs))) Version_init) ! l)
        = fold (abs_level l) es (set (v_files v ! l)))"
proof -
  let ?b = "fst (fold (Builder_Apply (InternalKeyComparator ucmp)) es (Builder_init v, ptrs))"
  note I = internal_keys.Builder_init_inv [OF assms(1,2)]
  have "\<forall>l<kNumLevels. distinct (concat (map (\<lambda>e. map fm_number (added_at l e)) es))
    \<and> known_numbers (Builder_init v) l \<inter> set (concat (map (\<lambda>e. map fm_number (added_at l e)) es)) = {}" using assms(4) I(3) by (simp add: numbers_fresh_def)
  note R = internal_keys.replay_files [OF assms(1) I(1) assms(3) this, of ptrs]
  note S = internal_keys.SaveTo_inv [OF assms(1) conjunct1 [OF R]] and Q = internal_keys.sequential_files [OF assms, of ptrs]
  have f: "set (v_files (SaveTo (InternalKeyComparator ucmp) ?b Version_init) ! l) = fold (abs_level l) es (set (v_files v ! l))" if "l < kNumLevels" for l
    using S(2) [OF that] R [of l] I(2) [OF that] that by simp
  then show ?thesis using internal_keys.version_sorted_unique [OF assms(1) S(1) conjunct1 [OF Q]] Q S(1) by simp
qed

definition range_file :: "u64 \<Rightarrow> bytes \<Rightarrow> bytes \<Rightarrow> FileMetaData" where
  "range_file n a b = FileMetaData_init\<lparr> fm_number := n, fm_file_size := 2 ^ 30, fm_smallest := InternalKey a 9 kTypeValue, fm_largest := InternalKey b 4 kTypeValue \<rparr>"

text \<open>A file is added and then moved down a level.\<close>

definition move_edits :: "VersionEdit list" where
  "move_edits =
     [(VersionEdit_init False)\<lparr> ve_new_files := [(0, range_file 5 [97] [98])] \<rparr>,
      (VersionEdit_init False)\<lparr> ve_deleted_files := [(0, 5)], ve_new_files := [(1, range_file 5 [97] [98])] \<rparr>]"

lemma move_edits_at:
  "map (\<lambda>e. map fm_number (added_at l e)) move_edits = [if l = 0 then [5] else [], if l = 1 then [5] else []]"
  by (simp add: move_edits_def added_at_def range_file_def)

theorem builder_replay_witness:
  "set (v_files (SaveTo (InternalKeyComparator BytewiseComparator)
     (fst (fold (Builder_Apply (InternalKeyComparator BytewiseComparator)) move_edits (Builder_init Version_init, []))) Version_init) ! 1)
     = {installed (range_file 5 [97] [98])}
   \<and> set (v_files (SaveTo (InternalKeyComparator BytewiseComparator)
     (fst (fold (Builder_Apply (InternalKeyComparator BytewiseComparator)) move_edits (Builder_init Version_init, []))) Version_init) ! 0) = {}"
proof -
  have v: "version_sorted BytewiseComparator Version_init" by (simp add: version_sorted_def Version_init_def)
  have e: "\<forall>e\<in>set move_edits. edit_ok e" by (simp add: move_edits_def edit_ok_def range_file_def VersionEdit_init_def kNumLevels_def)
  have n: "numbers_fresh Version_init move_edits" unfolding numbers_fresh_def move_edits_at by (simp add: Version_init_def kNumLevels_def)
  have f: "fold (abs_level 1) move_edits {} = {installed (range_file 5 [97] [98])}" "fold (abs_level 0) move_edits {} = {}"
    by (auto simp: move_edits_def abs_level_def added_at_def deleted_at_def range_file_def VersionEdit_init_def)
  have "set (v_files Version_init ! 1) = {}" "set (v_files Version_init ! 0) = {}" "1 < kNumLevels" "0 < kNumLevels" by (simp_all add: Version_init_def kNumLevels_def)
  with builder_replay [OF bw.internal_keys_axioms v e n, of "[]"] f show ?thesis by metis
qed

text \<open>
  C31: Overlapping inputs.  The search for the files of a level that overlap a range always returns.  It finds every file that overlaps the
  range; at level 0, where files overlap each other, it grows the range until no file that is left out shares a user
  key with a file it returns.
\<close>

theorem overlapping_inputs_closed:
  assumes "internal_keys ucmp"
  shows "\<exists>inputs. GetOverlappingInputs ucmp v level b e = Some inputs \<and> set inputs \<subseteq> set (v_files v ! level)
    \<and> (\<forall>f\<in>set (v_files v ! level). overlaps ucmp (map_option ExtractUserKey b) (map_option ExtractUserKey e) f \<longrightarrow> f \<in> set inputs)
    \<and> (if level = 0 then \<forall>f\<in>set inputs. \<forall>g\<in>set (v_files v ! 0) - set inputs.
         Compare ucmp (large_user g) (small_user f) < 0 \<or> Compare ucmp (large_user f) (small_user g) < 0
       else \<forall>f\<in>set inputs. overlaps ucmp (map_option ExtractUserKey b) (map_option ExtractUserKey e) f)"
proof (cases "level = 0")
  case True
  then show ?thesis using internal_keys.GetOverlappingInputs_zero [OF assms, of v b e] by metis
next
  case False
  then show ?thesis using internal_keys.overlap_loop_level [OF assms, of level 0 "v_files v ! level" "map_option ExtractUserKey b" "map_option ExtractUserKey e" "[]"]
    by (simp add: GetOverlappingInputs_def)
qed

definition small_version :: Version where
  "small_version = Version_init\<lparr> v_files := [[range_file 5 [97] [98], range_file 6 [98] [99], range_file 7 [101] [102]], [range_file 3 [97] [98], range_file 4 [99] [101]], [], [], [], [], []] \<rparr>"

theorem overlapping_inputs_closed_witness:
  "\<exists>inputs. GetOverlappingInputs BytewiseComparator small_version 0 (Some (InternalKey [97] 9 kTypeValue)) (Some (InternalKey [97] 1 kTypeValue)) = Some inputs
     \<and> range_file 5 [97] [98] \<in> set inputs \<and> range_file 6 [98] [99] \<in> set inputs"
proof -
  obtain inputs where i: "GetOverlappingInputs BytewiseComparator small_version 0 (Some (InternalKey [97] 9 kTypeValue)) (Some (InternalKey [97] 1 kTypeValue)) = Some inputs"
    "\<forall>f\<in>set (v_files small_version ! 0). overlaps BytewiseComparator (Some [97]) (Some [97]) f \<longrightarrow> f \<in> set inputs"
    "\<forall>f\<in>set inputs. \<forall>g\<in>set (v_files small_version ! 0) - set inputs.
         Compare BytewiseComparator (large_user g) (small_user f) < 0 \<or> Compare BytewiseComparator (large_user f) (small_user g) < 0"
    using overlapping_inputs_closed [OF bw.internal_keys_axioms, of small_version 0 "Some (InternalKey [97] 9 kTypeValue)" "Some (InternalKey [97] 1 kTypeValue)"] by auto
  have "overlaps BytewiseComparator (Some [97]) (Some [97]) (range_file 5 [97] [98])" by (simp add: overlaps_def range_file_def Bytewise_Compare)
  then have 5: "range_file 5 [97] [98] \<in> set inputs" using i(2) by (simp add: small_version_def)
  have "range_file 6 [98] [99] \<in> set inputs"
  proof (rule ccontr)
    assume "range_file 6 [98] [99] \<notin> set inputs"
    then have "range_file 6 [98] [99] \<in> set (v_files small_version ! 0) - set inputs" by (simp add: small_version_def)
    from i(3) [rule_format, OF 5 this] show False by (simp add: range_file_def Bytewise_Compare)
  qed
  then show ?thesis using i(1) 5 by blast
qed

text \<open>
  C32: Overlap by binary search.  On a sorted level of disjoint files the test for an overlap with a range looks at one file only, the first that ends at or
  after the start of the range; it answers as the test that looks at every file does.
\<close>

theorem some_file_overlaps_agrees:
  assumes "internal_keys ucmp" "level_ok ucmp files"
  shows "SomeFileOverlapsRange ucmp True files smallest largest = SomeFileOverlapsRange ucmp False files smallest largest"
  using internal_keys.SomeFileOverlapsRange_iff [OF assms] internal_keys.overlaps_alt [OF assms(1)]
  by (simp add: SomeFileOverlapsRange_def list_ex_iff)

theorem some_file_overlaps_agrees_witness:
  "SomeFileOverlapsRange BytewiseComparator True (v_files small_version ! 1) (Some [98]) (Some [98])
   = SomeFileOverlapsRange BytewiseComparator False (v_files small_version ! 1) (Some [98]) (Some [98])
   \<and> SomeFileOverlapsRange BytewiseComparator False (v_files small_version ! 1) (Some [98]) (Some [98])"
proof -
  have "level_ok BytewiseComparator (v_files small_version ! 1)"
    by (simp add: level_ok_def file_ok_def small_version_def range_file_def kMaxSequenceNumber_def bw.ik_less Bytewise_Compare bw.ik.cmp_not_less [symmetric] order_le_less)
  from some_file_overlaps_agrees [OF bw.internal_keys_axioms this, of "Some [98]" "Some [98]"]
  have "SomeFileOverlapsRange BytewiseComparator True (v_files small_version ! 1) (Some [98]) (Some [98])
    = SomeFileOverlapsRange BytewiseComparator False (v_files small_version ! 1) (Some [98]) (Some [98])" .
  moreover have "SomeFileOverlapsRange BytewiseComparator False (v_files small_version ! 1) (Some [98]) (Some [98])"
    by (simp add: SomeFileOverlapsRange_def AfterFile_def BeforeFile_def small_version_def range_file_def Bytewise_Compare)
  ultimately show ?thesis by simp
qed

text \<open>
  C33: The size of a list of files is summed in 32 bits.  The result is the sum of the file sizes reduced to a signed 32-bit number, so that it is the true size
  exactly below 2 GB; two files of 1 GB have the size -2 GB.
\<close>

theorem total_file_size_wraps:
  "TotalFileSize files = (int (sum_list (map (\<lambda>f. unat (fm_file_size f)) files)) + 2 ^ 31) mod 2 ^ 32 - 2 ^ 31
   \<and> (TotalFileSize files = int (sum_list (map (\<lambda>f. unat (fm_file_size f)) files)) \<longleftrightarrow> sum_list (map (\<lambda>f. unat (fm_file_size f)) files) < 2 ^ 31)
   \<and> TotalFileSize [range_file 1 [97] [98], range_file 2 [99] [100]] = - (2 ^ 31)"
proof -
  have eq: "TotalFileSize files = (int (sum_list (map (\<lambda>f. unat (fm_file_size f)) files)) + 2 ^ 31) mod 2 ^ 32 - 2 ^ 31" for files
    unfolding TotalFileSize_def TotalFileSize_sum by (simp add: signed_of_nat signed_take_bit_eq_take_bit_shift take_bit_eq_mod)
  have "(x + 2 ^ 31) mod 2 ^ 32 - 2 ^ 31 = x \<longleftrightarrow> x < 2 ^ 31" if "0 \<le> x" for x :: int
  proof
    assume "(x + 2 ^ 31) mod 2 ^ 32 - 2 ^ 31 = x"
    moreover have "(x + 2 ^ 31) mod 2 ^ 32 < 2 ^ 32" by simp
    ultimately show "x < 2 ^ 31" by simp
  qed (use that in simp)
  from this [of "int (sum_list (map (\<lambda>f. unat (fm_file_size f)) files))"] show ?thesis unfolding eq
    by (simp add: range_file_def)
qed

end
