(* ===== verification/Table_Cache.thy ===== *)
theory Table_Cache
  imports SSTable Filenames
begin

text \<open>
  The cache of open tables (\<^verbatim>\<open>src/db/table_cache.h\<close>, \<^verbatim>\<open>src/db/table_cache.cc\<close>).  The cache below it is a partial function from keys to
  tables, which may have dropped any table.  An operation that would put a table into the cache returns the key and the table, so that nothing is assumed of
  what the cache then keeps.  The environment is the function that opens a file by name; \<open>Inl\<close> is a failure.
\<close>

record TableCache =
  tc_env :: "string \<Rightarrow> status + RandomAccessFile"
  tc_dbname :: string
  tc_options :: Options
  tc_cache :: "bytes \<Rightarrow> Table option"

text \<open>\<open>cache_id\<close> is the number the block cache gives to the next table that is opened.\<close>

definition FindTable :: "compress_lib \<Rightarrow> TableCache \<Rightarrow> u64 \<Rightarrow> u64 \<Rightarrow> u64 \<Rightarrow> status \<times> Table option \<times> (bytes \<times> Table) option" where
  "FindTable lib tc cache_id file_number file_size =
     (let key = EncodeFixed64 file_number
      in case tc_cache tc key of
           Some t \<Rightarrow> (OK, Some t, None)
         | None \<Rightarrow>
             (case (case tc_env tc (TableFileName (tc_dbname tc) file_number) of
                      Inr file \<Rightarrow> Inr file
                    | Inl s \<Rightarrow> (case tc_env tc (SSTTableFileName (tc_dbname tc) file_number) of Inr file \<Rightarrow> Inr file | Inl _ \<Rightarrow> Inl s)) of
                Inl s \<Rightarrow> (s, None, None)
              | Inr file \<Rightarrow>
                  (case Table_Open lib cache_id (tc_options tc) file (unat file_size) of
                     (s, table) \<Rightarrow> if \<not> ok s then (s, None, None) else (s, table, Some (key, the table)))))"

definition TableCache_NewIterator ::
  "compress_lib \<Rightarrow> TableCache \<Rightarrow> u64 \<Rightarrow> u64 \<Rightarrow> u64 \<Rightarrow> (status + Table \<times> (status + BlockIter, status + BlockIter) TwoLevelIter) \<times> (bytes \<times> Table) option" where
  "TableCache_NewIterator lib tc cache_id file_number file_size =
     (case FindTable lib tc cache_id file_number file_size of
        (s, table, put) \<Rightarrow> if \<not> ok s then (Inl (NewErrorIterator s), put) else (Inr (the table, Table_NewIterator (the table)), put))"

text \<open>The entry is the one given to \<^verbatim>\<open>handle_result\<close>.\<close>

definition TableCache_Get ::
  "compress_lib \<Rightarrow> block_cache \<Rightarrow> TableCache \<Rightarrow> u64 \<Rightarrow> ReadOptions \<Rightarrow> u64 \<Rightarrow> u64 \<Rightarrow> bytes \<Rightarrow> (status \<times> (bytes \<times> bytes) option) \<times> (bytes \<times> Table) option" where
  "TableCache_Get lib blocks tc cache_id options file_number file_size k =
     (case FindTable lib tc cache_id file_number file_size of
        (s, table, put) \<Rightarrow> if ok s then (InternalGet lib blocks (the table) options k, put) else ((s, None), put))"

definition TableCache_Evict :: "u64 \<Rightarrow> TableCache \<Rightarrow> TableCache" where
  "TableCache_Evict file_number tc = tc\<lparr> tc_cache := (tc_cache tc)(EncodeFixed64 file_number := None) \<rparr>"

section \<open>Tables on disk\<close>

text \<open>A file of either name that holds the bytes \<open>W\<close> can be opened.\<close>

definition on_disk :: "TableCache \<Rightarrow> u64 \<Rightarrow> bytes \<Rightarrow> bool" where
  "on_disk tc n W \<longleftrightarrow> (\<exists>file. raf_holds file W \<and>
     (tc_env tc (TableFileName (tc_dbname tc) n) = Inr file
      \<or> (\<exists>s. tc_env tc (TableFileName (tc_dbname tc) n) = Inl s) \<and> tc_env tc (SSTTableFileName (tc_dbname tc) n) = Inr file))"

text \<open>A table in the cache was opened on the bytes of its file.\<close>

definition cached_ok :: "compress_lib \<Rightarrow> TableCache \<Rightarrow> u64 \<Rightarrow> bytes \<Rightarrow> bool" where
  "cached_ok lib tc n W \<longleftrightarrow> (\<forall>t. tc_cache tc (EncodeFixed64 n) = Some t \<longrightarrow>
     (\<exists>cache_id file. raf_holds file W \<and> Table_Open lib cache_id (tc_options tc) file (length W) = (OK, Some t)))"

text \<open>The file of number \<open>n\<close> is the table the builder wrote for \<open>es\<close>.\<close>

definition built_file ::
  "compress_lib \<Rightarrow> 'f WritableFile \<Rightarrow> ('f \<Rightarrow> bytes) \<Rightarrow> TableCache \<Rightarrow> u64 \<Rightarrow> entries \<Rightarrow> bytes \<Rightarrow> bool" where
  "built_file lib fc written tc n es W \<longleftrightarrow>
     (\<exists>f b. written f = [] \<and> tb_Finish lib fc (tb_AddAll lib fc es (TableBuilder_init (tc_options tc) f)) = (OK, b) \<and> W = written (tb_file b))
     \<and> length W < 2 ^ 32 \<and> table_size es < 2 ^ 32 \<and> on_disk tc n W \<and> cached_ok lib tc n W"

text \<open>The options of a database: internal keys, and a filter policy for them that wraps the user's.\<close>

definition db_options :: "comparator \<Rightarrow> Options \<Rightarrow> bool" where
  "db_options ucmp options \<longleftrightarrow> opt_comparator options = InternalKeyComparator ucmp \<and> 1 \<le> opt_block_restart_interval options
     \<and> (\<forall>p. opt_filter_policy options = Some p \<longrightarrow>
          (\<exists>up. p = InternalFilterPolicy up \<and> filter_policy_contract up) \<and> length (fp_Name p) < 2 ^ 30)"

text \<open>What a table promises of a lookup: the first entry at or after the key, which may be withheld when its user key is another.\<close>

definition table_lookup :: "comparator \<Rightarrow> entries \<Rightarrow> (bytes \<Rightarrow> status \<times> (bytes \<times> bytes) option) \<Rightarrow> bool" where
  "table_lookup ucmp es get \<longleftrightarrow> (\<forall>k. 8 \<le> length k \<longrightarrow> (\<exists>r. get k = (OK, r)
     \<and> (\<forall>e. r = Some e \<longrightarrow> seek_pos (InternalKeyComparator ucmp) k es < length es \<and> e = es ! seek_pos (InternalKeyComparator ucmp) k es)
     \<and> (seek_pos (InternalKeyComparator ucmp) k es < length es
        \<and> ExtractUserKey (fst (es ! seek_pos (InternalKeyComparator ucmp) k es)) = ExtractUserKey k
        \<longrightarrow> r = Some (es ! seek_pos (InternalKeyComparator ucmp) k es))))"

lemma EncodeFixed64_inject [simp]: "EncodeFixed64 a = EncodeFixed64 b \<longleftrightarrow> a = b"
  by (metis DecodeFixed64_Encode append_Nil2)

lemma FindTable_opens:
  assumes f: "table_file cmp key_ok lib (tc_options tc) W bs ix" and disk: "on_disk tc n W" "cached_ok lib tc n W" and len: "length W < 2 ^ 64"
    and iv: "1 \<le> opt_block_restart_interval (tc_options tc)" and name: "\<And>p. opt_filter_policy (tc_options tc) = Some p \<Longrightarrow> length (fp_Name p) < 2 ^ 30"
  obtains t put where "FindTable lib tc cache_id n (of_nat (length W)) = (OK, Some t, put)" "table_open cmp key_ok lib (tc_options tc) W bs ix t"
    "put = None \<or> put = Some (EncodeFixed64 n, t) \<and> (\<exists>file. raf_holds file W \<and> Table_Open lib cache_id (tc_options tc) file (length W) = (OK, Some t))"
proof -
  have sz: "unat (of_nat (length W) :: u64) = length W" using len by (simp add: unat_of_nat take_bit_nat_eq_self)
  note op = Table_Open_file [OF f _ len iv name]
  show ?thesis
  proof (cases "tc_cache tc (EncodeFixed64 n)")
    case None
    obtain raf where R: "raf_holds raf W" "tc_env tc (TableFileName (tc_dbname tc) n) = Inr raf
      \<or> (\<exists>s. tc_env tc (TableFileName (tc_dbname tc) n) = Inl s) \<and> tc_env tc (SSTTableFileName (tc_dbname tc) n) = Inr raf"
      using disk(1) by (auto simp: on_disk_def)
    obtain t where t: "Table_Open lib cache_id (tc_options tc) raf (length W) = (OK, Some t)" "table_open cmp key_ok lib (tc_options tc) W bs ix t"
      using op [OF R(1)] by blast
    have "FindTable lib tc cache_id n (of_nat (length W)) = (OK, Some t, Some (EncodeFixed64 n, t))"
      using None R(2) t(1) by (auto simp: FindTable_def sz)
    then show ?thesis using that t R(1) by blast
  next
    case (Some t)
    then obtain cid raf where R: "raf_holds raf W" "Table_Open lib cid (tc_options tc) raf (length W) = (OK, Some t)"
      using disk(2) by (auto simp: cached_ok_def)
    with op [OF R(1), of cid] have "table_open cmp key_ok lib (tc_options tc) W bs ix t" by auto
    then show ?thesis using that [of t None] Some by (simp add: FindTable_def)
  qed
qed

context internal_keys
begin

lemma InternalGet_table_lookup:
  assumes t: "table_open (InternalKeyComparator ucmp) (\<lambda>k. 8 \<le> length k) lib options W bs ix t" and c: "cache_ok options bs (t_cache_id t) blocks"
    and len: "length W < 2 ^ 32" "length (bl_data (t_index_block t)) < 2 ^ 32" "sizes_ok bs" and opt: "db_options ucmp options"
  shows "table_lookup ucmp (concat (map pl_entries bs)) (InternalGet lib blocks t ro)"
  unfolding table_lookup_def
proof (intro allI impI, goal_cases)
  case (1 k)
  have "bl_data (t_index_block t) = block_of 1 ix" using t by (auto simp: table_open_def Block_init_def Let_def)
  then have ix: "length (block_of 1 ix) < 2 ^ 32" using len(2) by simp
  have o: "1 \<le> opt_block_restart_interval options" "opt_comparator options = InternalKeyComparator ucmp"
    "\<forall>p. opt_filter_policy options = Some p \<longrightarrow> (\<exists>up. p = InternalFilterPolicy up \<and> filter_policy_contract up)" using opt by (auto simp: db_options_def)
  show ?case by (rule internal_table_get [OF t c len(1) ix len(3) o 1, of ro]) blast
qed

lemma ik_contract: "comparator_contract (InternalKeyComparator ucmp) (\<lambda>k. 8 \<le> length k)"
  by (rule ik.comparator_contract_axioms)

lemma db_options_policy:
  "db_options ucmp options \<Longrightarrow> opt_filter_policy options = Some p \<Longrightarrow> filter_policy_contract p \<and> length (fp_Name p) < 2 ^ 30"
  using internal_filter_contract by (auto simp: db_options_def)

text \<open>The table that \<open>FindTable\<close> returns for a file that the builder wrote.\<close>

lemma FindTable_built:
  assumes lib: "block_codec lib" and wfile: "writable_file fc written stored durable clean" and opt: "db_options ucmp (tc_options tc)"
    and es: "sorted_entries (InternalKeyComparator ucmp) (\<lambda>k. 8 \<le> length k) es" and built: "built_file lib fc written tc n es W"
  obtains t put bs ix where "FindTable lib tc cache_id n (of_nat (length W)) = (OK, Some t, put)" "concat (map pl_entries bs) = es" "sizes_ok bs"
    "table_open (InternalKeyComparator ucmp) (\<lambda>k. 8 \<le> length k) lib (tc_options tc) W bs ix t"
    "put = None \<or> put = Some (EncodeFixed64 n, t) \<and> (\<exists>raf. raf_holds raf W \<and> Table_Open lib cache_id (tc_options tc) raf (length W) = (OK, Some t))"
proof -
  obtain f b where b: "written f = []" "tb_Finish lib fc (tb_AddAll lib fc es (TableBuilder_init (tc_options tc) f)) = (OK, b)" "W = written (tb_file b)"
    and B: "length W < 2 ^ 32" "table_size es < 2 ^ 32" "on_disk tc n W" "cached_ok lib tc n W"
    using built by (auto simp: built_file_def)
  have tb: "table_build (InternalKeyComparator ucmp) (\<lambda>k. 8 \<le> length k) lib fc written stored durable clean"
    using ik.comparator_contract_axioms lib wfile by (rule table_build.intro)
  have o: "opt_comparator (tc_options tc) = InternalKeyComparator ucmp" "1 \<le> opt_block_restart_interval (tc_options tc)" using opt by (auto simp: db_options_def)
  have len: "length W < 2 ^ 64" using B(1) by simp
  obtain bs ix where f: "table_file (InternalKeyComparator ucmp) (\<lambda>k. 8 \<le> length k) lib (tc_options tc) W bs ix" "concat (map pl_entries bs) = es"
    using table_build.built_table [OF tb b(1) o(1) es _ b(2)] db_options_policy [OF opt] len unfolding b(3) by blast
  have "sizes_ok bs" using table_size_part [OF f(2)] B(2) by (fastforce simp: sizes_ok_def)
  then show ?thesis using FindTable_opens [OF f(1) B(3,4) len o(2)] db_options_policy [OF opt] f(2) that by metis
qed

end

section \<open>Tables of one entry\<close>

definition ik_options :: Options where
  "ik_options = Options_init\<lparr> opt_comparator := InternalKeyComparator BytewiseComparator \<rparr>"

definition one_builder :: "bytes \<Rightarrow> bytes \<Rightarrow> PosixWritableFile TableBuilder" where
  "one_builder k v = tb_AddAll no_lib posix_writable [(k, v)] (TableBuilder_init ik_options sample_file)"

definition one_table :: "bytes \<Rightarrow> bytes \<Rightarrow> bytes" where
  "one_table k v = pwf_written (tb_file (snd (tb_Finish no_lib posix_writable (one_builder k v))))"

interpretation ik_table: table_build "InternalKeyComparator BytewiseComparator" "\<lambda>k. 8 \<le> length k" no_lib posix_writable pwf_written pwf_stored pwf_durable pwf_clean
  by (intro table_build.intro bw.ik.comparator_contract_axioms no_codec.block_codec_axioms pwf.writable_file_axioms)

lemma one_builder_fields:
  assumes "length k + length v \<le> 100"
  shows "tb_file (one_builder k v) = sample_file" "tb_status (one_builder k v) = OK" "tb_options (one_builder k v) = ik_options" "tb_last_key (one_builder k v) = k"
    "bb_CurrentSizeEstimate (tb_data_block (one_builder k v)) \<le> 150" "tb_index_block (one_builder k v) = BlockBuilder_init 1"
    "tb_filter_block (one_builder k v) = None"
proof -
  define b where "b = tb_push k v (TableBuilder_init ik_options sample_file)"
  have d: "tb_data_block b = bb_Add k v (BlockBuilder_init 16)"
    by (simp add: b_def tb_push_def TableBuilder_init_def ik_options_def Options_init_def Let_def)
  have sz: "bb_CurrentSizeEstimate (tb_data_block b) \<le> 150"
    using bb_Add_size [of "BlockBuilder_init 16" k v] assms unfolding d by (simp add: BlockBuilder_init_def bb_CurrentSizeEstimate_def)
  have o: "tb_options b = ik_options" by (simp add: b_def tb_push_def TableBuilder_init_def)
  have "opt_block_size ik_options = 4096" "tb_status (TableBuilder_init ik_options sample_file) = OK"
    by (simp_all add: ik_options_def Options_init_def TableBuilder_init_def)
  then have eq: "one_builder k v = b" using sz unfolding one_builder_def by (simp add: tb_AddAll_def ik_table.tb_Add_push b_def [symmetric] o)
  show "tb_file (one_builder k v) = sample_file" "tb_status (one_builder k v) = OK" "tb_options (one_builder k v) = ik_options" "tb_last_key (one_builder k v) = k"
    "bb_CurrentSizeEstimate (tb_data_block (one_builder k v)) \<le> 150" "tb_index_block (one_builder k v) = BlockBuilder_init 1"
    "tb_filter_block (one_builder k v) = None"
    unfolding eq using sz o by (simp_all add: b_def tb_push_def TableBuilder_init_def ik_options_def Options_init_def)
qed

lemma one_table_ok:
  "length k + length v \<le> 100 \<Longrightarrow> tb_Finish no_lib posix_writable (one_builder k v) = (OK, snd (tb_Finish no_lib posix_writable (one_builder k v)))"
  using tb_Finish_quiet [OF posix_quiet, of "one_builder k v" no_lib] one_builder_fields
  by (simp add: prod_eq_iff pwf_quiet_def sample_file_def PosixWritableFile_init_def)

lemma one_table_length:
  assumes kv: "length k + length v \<le> 100" and su: "length (FindShortSuccessor (InternalKeyComparator BytewiseComparator) k) \<le> 100"
  shows "length (one_table k v) < 2 ^ 32"
proof -
  define b0 where "b0 = tb_Flush no_lib posix_writable (one_builder k v)"
  have q: "pwf_quiet sample_file" by (simp add: pwf_quiet_def sample_file_def PosixWritableFile_init_def)
  have "tb_options b0 = ik_options" "tb_last_key b0 = k" "tb_index_block b0 = BlockBuilder_init 1" "tb_filter_block b0 = None"
    using one_builder_fields [OF kv] by (auto simp: b0_def tb_Flush_def WriteBlock_def WriteRawBlock_def Let_def split: prod.splits)
  moreover have "length (pwf_written (tb_file b0)) \<le> 200"
    using ik_table.tb_Flush_len [of "one_builder k v"] tb_Flush_quiet [OF posix_quiet, of "one_builder k v" no_lib] one_builder_fields [OF kv] q
    by (simp add: b0_def sample_file_def PosixWritableFile_init_def pwf_written_def kBlockTrailerSize_def)
  ultimately show ?thesis using ik_table.tb_Finish_len [OF one_table_ok [OF kv] b0_def] su
    by (simp add: one_table_def ik_options_def Options_init_def BlockBuilder_init_def bb_CurrentSizeEstimate_def)
qed

text \<open>A directory of such tables, with nothing cached.\<close>

definition one_dir :: "(u64 \<Rightarrow> (bytes \<times> bytes) option) \<Rightarrow> TableCache" where
  "one_dir fs = \<lparr> tc_env = (\<lambda>name. case ParseFileName (drop 3 name) of
       Some (n, kTableFile) \<Rightarrow> (case fs n of Some (k, v) \<Rightarrow> Inr (posix_mmap name (one_table k v)) | None \<Rightarrow> Inl (NotFound []))
     | _ \<Rightarrow> Inl (NotFound [])), tc_dbname = ''db'', tc_options = ik_options, tc_cache = (\<lambda>_. None) \<rparr>"

lemma one_dir_file:
  assumes "fs n = Some (k, v)"
  shows "tc_env (one_dir fs) (TableFileName ''db'' n) = Inr (posix_mmap (TableFileName ''db'' n) (one_table k v))"
proof -
  have "ParseFileName (drop 3 (TableFileName ''db'' n)) = Some (n, kTableFile)"
    using parse_numbered [of "''.ldb''" n] by (simp add: TableFileName_def MakeFileName_def is_digit_def)
  then show ?thesis using assms by (simp add: one_dir_def)
qed

lemma one_dir_index:
  assumes "fs n = Some (k, v)" "FindTable no_lib (one_dir fs) cache_id n sz = (OK, Some t, put)"
  shows "length (bl_data (t_index_block t)) \<le> length (one_table k v)" "put = Some (EncodeFixed64 n, t)"
proof -
  have d: "tc_cache (one_dir fs) key = None" "tc_dbname (one_dir fs) = ''db''" "tc_options (one_dir fs) = ik_options" for key by (simp_all add: one_dir_def)
  have "Table_Open no_lib cache_id ik_options (posix_mmap (TableFileName ''db'' n) (one_table k v)) (unat sz) = (OK, Some t)"
    and p: "put = Some (EncodeFixed64 n, t)"
    using assms(2) by (auto simp: FindTable_def d one_dir_file [of fs n k v, OF assms(1)] split: prod.splits if_splits)
  then show "length (bl_data (t_index_block t)) \<le> length (one_table k v)"
    by (intro Table_Open_mapped_index) (simp_all add: ik_options_def Options_init_def)
  show "put = Some (EncodeFixed64 n, t)" by (rule p)
qed

lemma one_dir_built:
  assumes "fs n = Some (k, v)" "length k + length v \<le> 100" "length (FindShortSuccessor (InternalKeyComparator BytewiseComparator) k) \<le> 100"
  shows "built_file no_lib posix_writable pwf_written (one_dir fs) n [(k, v)] (one_table k v)"
proof -
  have "on_disk (one_dir fs) n (one_table k v)"
    using one_dir_file [of fs n k v, OF assms(1)] raf_holds_posix(2) by (auto simp: on_disk_def one_dir_def)
  moreover have "pwf_written sample_file = []" by (simp add: sample_file_def PosixWritableFile_init_def pwf_written_def)
  moreover have "table_size [(k, v)] < 2 ^ 32" using assms(2) by (simp add: table_size_def)
  ultimately show ?thesis
    using one_table_ok [OF assms(2)] one_table_length [OF assms(2,3)] unfolding built_file_def
    by (auto simp: one_dir_def one_table_def one_builder_def cached_ok_def)
qed

section \<open>Properties\<close>

text \<open>
  C1: Tables through the cache.  For a file that the table builder wrote, under either of its two names, and with any sound cached table,
  \<open>FindTable\<close> finds the table and \<open>NewIterator\<close> returns its iterator, which runs over exactly the entries.  \<open>Get\<close> gives the first entry at or after the
  internal key sought whenever that entry has the user key sought, through the filter and for every user filter policy.  What is put into the cache keeps the cached tables of all files sound, and
  so does \<open>Evict\<close>, after which the file's table is not in the cache.
\<close>

theorem table_cache_serves:
  assumes "internal_keys ucmp" "block_codec lib" "writable_file fc written stored durable clean" "db_options ucmp (tc_options tc)"
    and "sorted_entries (InternalKeyComparator ucmp) (\<lambda>k. 8 \<le> length k) es" and built: "built_file lib fc written tc n es W"
  shows "\<exists>t put bs. FindTable lib tc cache_id n (of_nat (length W)) = (OK, Some t, put)
    \<and> TableCache_NewIterator lib tc cache_id n (of_nat (length W)) = (Inr (t, Table_NewIterator t), put)
    \<and> (\<forall>key t' m X. put = Some (key, t') \<and> cached_ok lib tc m X \<and> (m = n \<longrightarrow> X = W) \<longrightarrow> cached_ok lib (tc\<lparr> tc_cache := (tc_cache tc)(key \<mapsto> t') \<rparr>) m X)
    \<and> (\<forall>m X. cached_ok lib tc m X \<longrightarrow> cached_ok lib (TableCache_Evict n tc) m X) \<and> tc_cache (TableCache_Evict n tc) (EncodeFixed64 n) = None
    \<and> cache_ok (tc_options tc) bs (t_cache_id t) (Some (\<lambda>_. None))
    \<and> (length (bl_data (t_index_block t)) < 2 ^ 32 \<longrightarrow> (\<forall>blocks ro. cache_ok (tc_options tc) bs (t_cache_id t) blocks \<longrightarrow>
         iterates (InternalKeyComparator ucmp) (\<lambda>k. 8 \<le> length k) (TableIterator lib blocks t ro) (Table_NewIterator t) es
         \<and> table_lookup ucmp es (\<lambda>k. fst (TableCache_Get lib blocks tc cache_id ro n (of_nat (length W)) k))))"
proof -
  obtain t put bs ix where t: "FindTable lib tc cache_id n (of_nat (length W)) = (OK, Some t, put)" "concat (map pl_entries bs) = es" "sizes_ok bs"
    "table_open (InternalKeyComparator ucmp) (\<lambda>k. 8 \<le> length k) lib (tc_options tc) W bs ix t"
    and put: "put = None \<or> put = Some (EncodeFixed64 n, t) \<and> (\<exists>raf. raf_holds raf W \<and> Table_Open lib cache_id (tc_options tc) raf (length W) = (OK, Some t))"
    by (rule internal_keys.FindTable_built [OF assms, of cache_id]) blast
  have W: "length W < 2 ^ 32" using built by (simp add: built_file_def)
  have get: "(\<lambda>k. fst (TableCache_Get lib blocks tc cache_id ro n (of_nat (length W)) k)) = InternalGet lib blocks t ro" for blocks ro
    by (rule ext) (simp add: TableCache_Get_def t(1))
  have cmp: "comparator_contract (InternalKeyComparator ucmp) (\<lambda>k. 8 \<le> length k)" using assms(1) by (rule internal_keys.ik_contract)
  have ix: "bl_data (t_index_block t) = block_of 1 ix" using t(4) by (auto simp: table_open_def Block_init_def Let_def)
  have o: "1 \<le> opt_block_restart_interval (tc_options tc)" "opt_comparator (tc_options tc) = InternalKeyComparator ucmp" using assms(4) by (auto simp: db_options_def)
  show ?thesis
  proof (rule exI [of _ t], rule exI [of _ put], rule exI [of _ bs], intro conjI allI impI, goal_cases)
    case (3 key t' m X)
    then show ?case using put by (auto simp: cached_ok_def)
  next
    case (7 blocks ro)
    then show ?case using comparator_contract.table_iterates [OF cmp t(4) 7(2) _ _ t(3) o] ix W t(2) by simp
  next
    case (8 blocks ro)
    then show ?case using internal_keys.InternalGet_table_lookup [OF assms(1) t(4) 8(2) W 8(1) t(3) assms(4), of ro] t(2) by (simp add: get)
  qed (use t in \<open>auto simp: TableCache_NewIterator_def TableCache_Evict_def cached_ok_def cache_ok_def\<close>)
qed

theorem table_cache_serves_witness:
  "let key = InternalKey [97] 5 kTypeValue; tc = one_dir [5 \<mapsto> (key, [7])]; size = of_nat (length (one_table key [7]))
   in \<exists>t. FindTable no_lib tc 1 5 size = (OK, Some t, Some (EncodeFixed64 5, t))
        \<and> fst (TableCache_Get no_lib (Some (\<lambda>_. None)) tc 1 ReadOptions_init 5 size (InternalKey [97] 9 kTypeValue)) = (OK, Some (key, [7]))"
proof -
  define key where "key = InternalKey [97] 5 kTypeValue"
  define tc where "tc = one_dir [5 \<mapsto> (key, [7])]"
  define W where "W = one_table key [7]"
  have o: "db_options BytewiseComparator (tc_options tc)" by (simp add: tc_def one_dir_def db_options_def ik_options_def Options_init_def)
  have so: "sorted_entries (InternalKeyComparator BytewiseComparator) (\<lambda>k. 8 \<le> length k) [(key, [7])]" by (simp add: sorted_entries_def key_def)
  have kv: "length key + length [7 :: 8 word] \<le> 100" "length (FindShortSuccessor (InternalKeyComparator BytewiseComparator) key) \<le> 100"
    by (simp_all add: key_def InternalKeyComparator_def InternalKey_FindShortSuccessor_def BytewiseComparator_def Let_def)
  have B: "built_file no_lib posix_writable pwf_written tc 5 [(key, [7])] W"
    unfolding tc_def W_def by (rule one_dir_built) (use kv in auto)
  from table_cache_serves [OF bw.internal_keys_axioms no_codec.block_codec_axioms pwf.writable_file_axioms o so B, of 1]
  obtain t put bs where t: "FindTable no_lib tc 1 5 (of_nat (length W)) = (OK, Some t, put)" and c: "cache_ok (tc_options tc) bs (t_cache_id t) (Some (\<lambda>_. None))"
    and L: "\<And>blocks ro. length (bl_data (t_index_block t)) < 2 ^ 32 \<Longrightarrow> cache_ok (tc_options tc) bs (t_cache_id t) blocks
      \<Longrightarrow> table_lookup BytewiseComparator [(key, [7])] (\<lambda>k. fst (TableCache_Get no_lib blocks tc 1 ro 5 (of_nat (length W)) k))" by blast
  note I = one_dir_index [of "[5 \<mapsto> (key, [7])]" 5 key "[7]", folded tc_def W_def, OF _ t]
  have "length W < 2 ^ 32" using B by (simp add: built_file_def)
  then have L: "table_lookup BytewiseComparator [(key, [7])] (\<lambda>k. fst (TableCache_Get no_lib (Some (\<lambda>_. None)) tc 1 ReadOptions_init 5 (of_nat (length W)) k))"
    using L [OF _ c, of ReadOptions_init] I(1) by simp
  have "seek_pos (InternalKeyComparator BytewiseComparator) (InternalKey [97] 9 kTypeValue) [(key, [7])] = 0"
    by (simp add: seek_pos_def key_def bw.ik_less Pack_less_iff kMaxSequenceNumber_def bytewise.cmp_refl)
  then have "fst (TableCache_Get no_lib (Some (\<lambda>_. None)) tc 1 ReadOptions_init 5 (of_nat (length W)) (InternalKey [97] 9 kTypeValue)) = (OK, Some (key, [7]))"
    using L [unfolded table_lookup_def, THEN spec, of "InternalKey [97] 9 kTypeValue"] by (auto simp: key_def)
  then show ?thesis using t I(2) unfolding Let_def tc_def W_def key_def by auto
qed

end
