(* ===== verification/Version_Read.thy ===== *)
theory Version_Read
  imports Version_Set Table_Cache
begin

text \<open>
  Lookups in a version (\<open>Version_Get\<close> of \<open>Version_Set\<close>) through the table cache: what the tables of the levels together answer.  \<open>contents\<close> gives the
  entries of a file.
\<close>

section \<open>The files of a version\<close>

definition contents_ok :: "comparator \<Rightarrow> (FileMetaData \<Rightarrow> entries) \<Rightarrow> FileMetaData \<Rightarrow> bool" where
  "contents_ok ucmp contents f \<longleftrightarrow> contents f \<noteq> [] \<and> versions_ok (contents f)
     \<and> sorted_entries (InternalKeyComparator ucmp) (\<lambda>k. 8 \<le> length k) (contents f)
     \<and> fm_smallest f = fst (hd (contents f)) \<and> fm_largest f = fst (last (contents f))"

text \<open>Newer entries of a key are in lower levels, and at level 0 in files with larger numbers.\<close>

definition newer_above :: "(FileMetaData \<Rightarrow> entries) \<Rightarrow> FileMetaData \<Rightarrow> FileMetaData \<Rightarrow> bool" where
  "newer_above contents f g \<longleftrightarrow>
     (\<forall>d\<in>set (contents f). \<forall>e\<in>set (contents g). user_key (pk d) = user_key (pk e) \<longrightarrow> sequence (pk e) < sequence (pk d))"

definition version_ok :: "comparator \<Rightarrow> (FileMetaData \<Rightarrow> entries) \<Rightarrow> Version \<Rightarrow> bool" where
  "version_ok ucmp contents v \<longleftrightarrow> length (v_files v) = kNumLevels
     \<and> (\<forall>l<kNumLevels. \<forall>f\<in>set (v_files v ! l). contents_ok ucmp contents f)
     \<and> (\<forall>l<kNumLevels. 0 < l \<longrightarrow> level_ok ucmp (v_files v ! l))
     \<and> (\<forall>f\<in>set (v_files v ! 0). \<forall>g\<in>set (v_files v ! 0). fm_number g < fm_number f \<longrightarrow> newer_above contents f g)
     \<and> (\<forall>l<kNumLevels. distinct (map fm_number (v_files v ! l)))
     \<and> (\<forall>l<kNumLevels. \<forall>k<l. \<forall>f\<in>set (v_files v ! k). \<forall>g\<in>set (v_files v ! l). newer_above contents f g)"

definition version_entries :: "(FileMetaData \<Rightarrow> entries) \<Rightarrow> Version \<Rightarrow> (bytes \<times> bytes) set" where
  "version_entries contents v = (\<Union>files\<in>set (v_files v). \<Union>f\<in>set files. set (contents f))"

text \<open>The table of a file was written by the builder and is found through the table cache, with an index block below 4 GB; the blocks cached for it are its own.\<close>

definition table_present ::
  "comparator \<Rightarrow> compress_lib \<Rightarrow> 'f WritableFile \<Rightarrow> ('f \<Rightarrow> bytes) \<Rightarrow> TableCache \<Rightarrow> block_cache \<Rightarrow> u64 \<Rightarrow> (FileMetaData \<Rightarrow> entries) \<Rightarrow> FileMetaData \<Rightarrow> bool" where
  "table_present ucmp lib fc written tc blocks cache_id contents f \<longleftrightarrow>
     (\<exists>W. built_file lib fc written tc (fm_number f) (contents f) W \<and> fm_file_size f = of_nat (length W)
        \<and> (\<forall>t put. FindTable lib tc cache_id (fm_number f) (fm_file_size f) = (OK, Some t, put) \<longrightarrow>
             length (bl_data (t_index_block t)) < 2 ^ 32
             \<and> (\<forall>bs ix. table_open (InternalKeyComparator ucmp) (\<lambda>k. 8 \<le> length k) lib (tc_options tc) W bs ix t
                  \<longrightarrow> cache_ok (tc_options tc) bs (t_cache_id t) blocks)))"

lemma kNumLevels_pos [simp]: "0 < kNumLevels"
  by (simp add: kNumLevels_def)

lemma version_ok_contents:
  assumes "version_ok ucmp contents v" "files \<in> set (v_files v)" "f \<in> set files"
  shows "contents_ok ucmp contents f"
proof -
  obtain l where "l < length (v_files v)" "files = v_files v ! l" using assms(2) by (metis in_set_conv_nth)
  then show ?thesis using assms(1,3) unfolding version_ok_def by metis
qed

lemma UN_nth: "e \<in> (\<Union>f\<in>set fs. g f) \<Longrightarrow> \<exists>j<length fs. e \<in> g (fs ! j)"
proof -
  assume "e \<in> (\<Union>f\<in>set fs. g f)"
  then obtain f where f: "f \<in> set fs" "e \<in> g f" by blast
  then obtain j where "j < length fs" "fs ! j = f" by (auto simp: in_set_conv_nth)
  with f(2) show ?thesis by blast
qed

section \<open>Lookup in one file\<close>

text \<open>The newest visible entry of a key in a list of entries.\<close>

definition newest_in :: "bytes \<Rightarrow> u64 \<Rightarrow> (bytes \<times> bytes) set \<Rightarrow> bytes \<times> bytes \<Rightarrow> bool" where
  "newest_in k s E e \<longleftrightarrow> e \<in> E \<and> user_key (pk e) = k \<and> visible s e
     \<and> (\<forall>d\<in>E. user_key (pk d) = k \<longrightarrow> visible s d \<longrightarrow> sequence (pk d) \<le> sequence (pk e))"

definition none_in :: "bytes \<Rightarrow> u64 \<Rightarrow> (bytes \<times> bytes) set \<Rightarrow> bool" where
  "none_in k s E \<longleftrightarrow> (\<forall>e\<in>E. user_key (pk e) = k \<longrightarrow> \<not> visible s e)"

definition lookup_in :: "comparator \<Rightarrow> bytes \<Rightarrow> u64 \<Rightarrow> entries \<Rightarrow> (bytes \<times> bytes) option" where
  "lookup_in ucmp k s es =
     (let n = seek_pos (InternalKeyComparator ucmp) (InternalKey k s kTypeValue) es
      in if n < length es \<and> user_key (pk (es ! n)) = k then Some (es ! n) else None)"

context internal_keys
begin

lemma lookup_newest:
  assumes so: "versions_ok es" "sorted_entries (InternalKeyComparator ucmp) (\<lambda>k. 8 \<le> length k) es" and s: "s \<le> kMaxSequenceNumber"
  shows "lookup_in ucmp k s es = Some e \<Longrightarrow> newest_in k s (set es) e" "lookup_in ucmp k s es = None \<Longrightarrow> none_in k s (set es)"
proof -
  define n where "n = seek_pos (InternalKeyComparator ucmp) (InternalKey k s kTypeValue) es"
  have lt: "j < n \<longleftrightarrow> Compare ucmp (ukey es j) k < 0 \<or> ukey es j = k \<and> \<not> visible s (es ! j)" if "j < length es" for j
    unfolding n_def using seek_pos_iff [OF so(2) _ that, of "InternalKey k s kTypeValue"] target_less(1) [OF so(1) _ s, of "es ! j" k] that by (simp add: ukey_def)
  have at: "n \<le> j \<and> n < length es \<and> ukey es n = k" if j: "j < length es" "ukey es j = k" "visible s (es ! j)" for j
  proof -
    have nj: "n \<le> j" using lt [OF j(1)] j user.cmp_refl [of k] by auto
    then have "Compare ucmp (ukey es n) k \<le> 0" using ukey_mono [OF so nj j(1)] j(2) by simp
    moreover have "\<not> Compare ucmp (ukey es n) k < 0" using lt [of n] nj j(1) by auto
    ultimately show ?thesis using user.cmp_eq [of "ukey es n" k] nj j(1) by simp
  qed
  show "none_in k s (set es)" if "lookup_in ucmp k s es = None"
    unfolding none_in_def
  proof (intro ballI impI notI)
    fix e assume e: "e \<in> set es" "user_key (pk e) = k" "visible s e"
    then obtain j where "j < length es" "e = es ! j" by (metis in_set_conv_nth)
    with at [of j] e that show False by (auto simp: lookup_in_def n_def [symmetric] ukey_def Let_def split: if_splits)
  qed
  show "newest_in k s (set es) e" if "lookup_in ucmp k s es = Some e"
  proof -
    have n: "n < length es" "ukey es n = k" "e = es ! n" using that by (auto simp: lookup_in_def n_def [symmetric] ukey_def Let_def split: if_splits)
    have v: "visible s e" using lt [OF n(1)] n by auto
    have "sequence (pk d) \<le> sequence (pk e)" if d: "d \<in> set es" "user_key (pk d) = k" "visible s d" for d
    proof -
      obtain j where j: "j < length es" "d = es ! j" using d(1) by (metis in_set_conv_nth)
      have "n \<le> j" using at [of j] j d by (simp add: ukey_def)
      moreover have "sequence (pk d) \<le> sequence (pk e)" if "n < j"
      proof -
        have "Compare (InternalKeyComparator ucmp) (fst e) (fst d) < 0" using so(2) that j n(1,3) by (simp add: sorted_entries_def sorted_wrt_iff_nth_less)
        then show ?thesis
          using entry_less [OF so(1), of e "sequence (pk d)" "user_key (pk d)" "vtype (pk d)"] pk_key(2,3) [OF so(1) d(1)] n d(2) user.cmp_refl [of k]
          by (auto simp: ukey_def)
      qed
      ultimately show ?thesis using j n by (cases "n = j") auto
    qed
    then show ?thesis using n v by (auto simp: newest_in_def ukey_def)
  qed
qed

end

section \<open>Lookup in all files\<close>

text \<open>\<open>answers k s H E\<close>: the first of the hits \<open>H\<close> is the newest visible entry of the key in \<open>E\<close>.\<close>

definition answers :: "bytes \<Rightarrow> u64 \<Rightarrow> (bytes \<times> bytes) list \<Rightarrow> (bytes \<times> bytes) set \<Rightarrow> bool" where
  "answers k s H E \<longleftrightarrow> (case H of [] \<Rightarrow> none_in k s E | e # _ \<Rightarrow> newest_in k s E e)"

definition older_below :: "bytes \<Rightarrow> (bytes \<times> bytes) set \<Rightarrow> (bytes \<times> bytes) set \<Rightarrow> bool" where
  "older_below k D E \<longleftrightarrow> (\<forall>d\<in>D. \<forall>e\<in>E. user_key (pk d) = k \<longrightarrow> user_key (pk e) = k \<longrightarrow> sequence (pk e) < sequence (pk d))"

lemma answers_append:
  assumes "answers k s H D" "answers k s I E" "older_below k D E"
  shows "answers k s (H @ I) (D \<union> E)"
  using assms by (cases H; cases I) (auto simp: answers_def none_in_def newest_in_def older_below_def less_imp_le)

lemma answers_concat:
  assumes "\<forall>x\<in>set xs. answers k s (H x) (E x)" "sorted_wrt (\<lambda>x y. older_below k (E x) (E y)) xs"
  shows "answers k s (concat (map H xs)) (\<Union>x\<in>set xs. E x)"
  using assms
proof (induction xs)
  case Nil
  then show ?case by (simp add: answers_def none_in_def)
next
  case (Cons x xs)
  have "older_below k (E x) (\<Union>y\<in>set xs. E y)" using Cons.prems(2) by (auto simp: older_below_def)
  then show ?case using answers_append [of k s "H x" "E x" "concat (map H xs)" "\<Union>y\<in>set xs. E y"] Cons by simp
qed

lemma answers_other:
  assumes "answers k s H E" "\<forall>d\<in>D. user_key (pk d) \<noteq> k"
  shows "answers k s H (E \<union> D)"
  using assms by (auto simp: answers_def none_in_def newest_in_def split: list.split)

definition hits :: "comparator \<Rightarrow> bytes \<Rightarrow> u64 \<Rightarrow> (FileMetaData \<Rightarrow> entries) \<Rightarrow> FileMetaData list \<Rightarrow> (bytes \<times> bytes) list" where
  "hits ucmp k s contents fs = List.map_filter (\<lambda>f. lookup_in ucmp k s (contents f)) fs"

lemma hits_simps [simp]:
  "hits ucmp k s contents [] = []"
  "hits ucmp k s contents (f # fs) = (case lookup_in ucmp k s (contents f) of None \<Rightarrow> [] | Some e \<Rightarrow> [e]) @ hits ucmp k s contents fs"
  "hits ucmp k s contents (fs @ gs) = hits ucmp k s contents fs @ hits ucmp k s contents gs"
  by (simp_all add: hits_def List.map_filter_def split: option.split)

context internal_keys
begin

lemma contents_okD:
  assumes "contents_ok ucmp contents f"
  shows "file_ok ucmp f" "e \<in> set (contents f) \<Longrightarrow> Compare ucmp (small_user f) (user_key (pk e)) \<le> 0"
    "e \<in> set (contents f) \<Longrightarrow> Compare ucmp (user_key (pk e)) (large_user f) \<le> 0"
    "e \<in> set (contents f) \<Longrightarrow> Compare (InternalKeyComparator ucmp) (fm_smallest f) (fst e) \<le> 0"
    "e \<in> set (contents f) \<Longrightarrow> Compare (InternalKeyComparator ucmp) (fst e) (fm_largest f) \<le> 0"
    "last (contents f) \<in> set (contents f)" "fm_largest f = fst (last (contents f))"
proof -
  have so: "versions_ok (contents f)" "sorted_entries (InternalKeyComparator ucmp) (\<lambda>k. 8 \<le> length k) (contents f)" and ne: "contents f \<noteq> []"
    and sl: "fm_smallest f = fst (contents f ! 0)" "fm_largest f = fst (contents f ! (length (contents f) - 1))"
    using assms by (auto simp: contents_ok_def hd_conv_nth last_conv_nth)
  have le: "Compare (InternalKeyComparator ucmp) (fst (contents f ! i)) (fst (contents f ! j)) \<le> 0" if "i \<le> j" "j < length (contents f)" for i j
  proof (cases "i = j")
    case True
    then show ?thesis using ik.cmp_refl so(2) that by (simp add: sorted_entries_def)
  next
    case False
    then show ?thesis using so(2) that by (auto simp: sorted_entries_def sorted_wrt_iff_nth_less less_imp_le)
  qed
  have small: "small_user f = ukey (contents f) 0" "large_user f = ukey (contents f) (length (contents f) - 1)"
    using pk_key(4) [OF so(1)] ne by (auto simp: sl ukey_def)
  show "file_ok ucmp f" using le [of 0 "length (contents f) - 1"] ne so(1) by (auto simp: file_ok_def sl versions_ok_def)
  show "last (contents f) \<in> set (contents f)" "fm_largest f = fst (last (contents f))" using ne assms by (auto simp: contents_ok_def)
  assume "e \<in> set (contents f)"
  then obtain i where i: "i < length (contents f)" "e = contents f ! i" by (metis in_set_conv_nth)
  show "Compare ucmp (small_user f) (user_key (pk e)) \<le> 0" "Compare ucmp (user_key (pk e)) (large_user f) \<le> 0"
    using ukey_mono [OF so, of 0 i] ukey_mono [OF so, of i "length (contents f) - 1"] i small by (auto simp: ukey_def)
  show "Compare (InternalKeyComparator ucmp) (fm_smallest f) (fst e) \<le> 0" "Compare (InternalKeyComparator ucmp) (fst e) (fm_largest f) \<le> 0"
    using le [of 0 i] le [of i "length (contents f) - 1"] i sl by auto
qed

lemma lookup_answers:
  assumes "contents_ok ucmp contents f" "s \<le> kMaxSequenceNumber"
  shows "answers k s (case lookup_in ucmp k s (contents f) of None \<Rightarrow> [] | Some e \<Rightarrow> [e]) (set (contents f))"
  using lookup_newest [of "contents f" s k] assms by (auto simp: answers_def contents_ok_def split: option.split)

lemma hits_concat: "hits ucmp k s contents fs = concat (map (\<lambda>f. case lookup_in ucmp k s (contents f) of None \<Rightarrow> [] | Some e \<Rightarrow> [e]) fs)"
  by (induction fs) auto

lemma level0_answers:
  assumes v: "version_ok ucmp contents v" and s: "s \<le> kMaxSequenceNumber"
  shows "answers k s (hits ucmp k s contents (level0_candidates ucmp (v_files v ! 0) k)) (\<Union>f\<in>set (v_files v ! 0). set (contents f))"
proof -
  let ?in = "\<lambda>f. 0 \<le> Compare ucmp k (small_user f) \<and> Compare ucmp k (large_user f) \<le> 0" and ?files = "v_files v ! 0"
  have ok: "contents_ok ucmp contents f" if "f \<in> set ?files" for f using v that kNumLevels_pos unfolding version_ok_def by blast
  define c where "c = level0_candidates ucmp ?files k"
  have c: "set c = {f \<in> set ?files. ?in f}" by (auto simp: c_def level0_candidates_def)
  have "sorted_wrt (\<lambda>f g. fm_number g < fm_number f) c"
  proof -
    have "distinct (map fm_number (filter ?in ?files))" using v by (simp add: version_ok_def distinct_map_filter)
    then have "distinct (map (\<lambda>f. - int (unat (fm_number f))) (filter ?in ?files))" by (auto simp: distinct_map inj_on_def word_uint_eq_iff)
    then have "distinct (map (\<lambda>f. - int (unat (fm_number f))) c)"
      unfolding c_def level0_candidates_def by (simp add: distinct_map)
    moreover have "sorted (map (\<lambda>f. - int (unat (fm_number f))) c)" by (simp add: c_def level0_candidates_def)
    ultimately have "sorted_wrt (<) (map (\<lambda>f. - int (unat (fm_number f))) c)" by (simp add: strict_sorted_iff)
    then show ?thesis by (simp add: sorted_wrt_map word_less_def)
  qed
  then have "sorted_wrt (\<lambda>f g. older_below k (set (contents f)) (set (contents g))) c"
    using v c by (auto simp: version_ok_def newer_above_def older_below_def elim!: sorted_wrt_mono_rel [rotated])
  then have "answers k s (hits ucmp k s contents c) (\<Union>f\<in>set c. set (contents f))"
    unfolding hits_concat using lookup_answers [OF ok s] c by (intro answers_concat) auto
  moreover have "user_key (pk d) \<noteq> k" if d: "d \<in> (\<Union>f\<in>set ?files - set c. set (contents f))" for d
  proof
    assume k: "user_key (pk d) = k"
    obtain f where f: "f \<in> set ?files" "f \<notin> set c" "d \<in> set (contents f)" using d by blast
    have "?in f" using contents_okD(2,3) [OF ok [OF f(1)] f(3)] user.cmp_sym [of k "small_user f"] k by simp
    then show False using f(1,2) c by blast
  qed
  ultimately have "answers k s (hits ucmp k s contents c) ((\<Union>f\<in>set c. set (contents f)) \<union> (\<Union>f\<in>set ?files - set c. set (contents f)))"
    by (intro answers_other) auto
  moreover have "(\<Union>f\<in>set c. set (contents f)) \<union> (\<Union>f\<in>set ?files - set c. set (contents f)) = (\<Union>f\<in>set ?files. set (contents f))" using c by auto
  ultimately show ?thesis by (simp add: c_def)
qed

text \<open>Above level 0 one file is read: a visible entry further on is older than an entry of that file.\<close>

lemma level_answers:
  assumes ok: "level_ok ucmp files" "\<forall>f\<in>set files. contents_ok ucmp contents f" and s: "s \<le> kMaxSequenceNumber"
  shows "answers k s (hits ucmp k s contents (level_candidates ucmp files k (InternalKey k s kTypeValue))) (\<Union>f\<in>set files. set (contents f))"
proof -
  let ?t = "InternalKey k s kTypeValue" and ?icmp = "InternalKeyComparator ucmp"
  define i where "i = length (takeWhile (\<lambda>f. Compare ?icmp (fm_largest f) ?t < 0) files)"
  have cand: "level_candidates ucmp files k ?t = (if i < length files \<and> \<not> Compare ucmp k (small_user (files ! i)) < 0 then [files ! i] else [])"
    using FindFile_eq [OF ok(1), of ?t] by (simp add: level_candidates_def i_def Let_def)
  have c: "contents_ok ucmp contents (files ! j)" if "j < length files" for j using ok(2) that by simp
  have vis: "Compare ?icmp (fst e) ?t < 0 \<longleftrightarrow> Compare ucmp (user_key (pk e)) k < 0 \<or> user_key (pk e) = k \<and> \<not> visible s e"
    if "j < length files" "e \<in> set (contents (files ! j))" for j e
    using target_less(1) [OF _ that(2) s] c [OF that(1)] by (simp add: contents_ok_def)
  have len: "8 \<le> length (fst e)" if "j < length files" "e \<in> set (contents (files ! j))" for j e using c [OF that(1)] that(2) by (simp add: contents_ok_def sorted_entries_def)
  have fromi: "i \<le> j" if j: "j < length files" and e: "e \<in> set (contents (files ! j))" "user_key (pk e) = k" "visible s e" for j e
  proof (rule ccontr)
    assume "\<not> i \<le> j"
    then have "Compare ?icmp (fm_largest (files ! j)) ?t < 0" using nth_takeWhile_P [of j "\<lambda>f. Compare ?icmp (fm_largest f) ?t < 0" files] by (simp add: i_def)
    moreover have "Compare ?icmp (fst e) (fm_largest (files ! j)) \<le> 0" using contents_okD(5) [OF c [OF j] e(1)] .
    ultimately have "Compare ?icmp (fst e) ?t < 0" using ik.cmp_le_less_trans len [OF j e(1)] file_okD(2) [OF contents_okD(1) [OF c [OF j]]] by simp
    then show False using vis [OF j e(1)] e user.cmp_refl [of k] by simp
  qed
  have later: "i = j \<or> (\<exists>d\<in>set (contents (files ! i)). user_key (pk d) = k \<and> visible s d \<and> sequence (pk e) \<le> sequence (pk d))"
    if j: "j < length files" and e: "e \<in> set (contents (files ! j))" "user_key (pk e) = k" "visible s e" for j e
  proof (cases "i = j")
    case False
    then have ij: "i < j" "i < length files" using fromi [OF that] j by auto
    let ?d = "last (contents (files ! i))"
    have d: "?d \<in> set (contents (files ! i))" "fm_largest (files ! i) = fst ?d" using contents_okD(6,7) [OF c [OF ij(2)]] by auto
    have nlt: "\<not> Compare ?icmp (fst ?d) ?t < 0" using nth_length_takeWhile [of "\<lambda>f. Compare ?icmp (fm_largest f) ?t < 0" files] ij(2) d(2) by (simp add: i_def)
    have lt: "Compare ?icmp (fst ?d) (fst e) < 0"
      using ik.cmp_less_le_trans [OF _ _ _ level_largest(1) [OF ok(1) ij(1) j] contents_okD(4) [OF c [OF j] e(1)]] len [OF ij(2) d(1)] len [OF j e(1)]
        file_okD(1) [OF contents_okD(1) [OF c [OF j]]] d(2) by simp
    have e': "fst e = InternalKey k (sequence (pk e)) (vtype (pk e))" "sequence (pk e) \<le> kMaxSequenceNumber"
      using pk_key(2,3) [OF _ e(1)] c [OF j] e(2) by (auto simp: contents_ok_def)
    have vo: "versions_ok (contents (files ! i))" using c [OF ij(2)] by (simp add: contents_ok_def)
    have "user_key (pk ?d) = k \<and> sequence (pk e) \<le> sequence (pk ?d)"
      using lt vis [OF ij(2) d(1)] nlt unfolding e'(1) entry_less [OF vo d(1) e'(2)] by auto
    then show ?thesis using vis [OF ij(2) d(1)] nlt d(1) by blast
  qed simp
  have small: "\<not> Compare ucmp k (small_user (files ! i)) < 0" if "i < length files" "d \<in> set (contents (files ! i))" "user_key (pk d) = k" for d
    using contents_okD(2) [OF c [OF that(1)] that(2)] that(3) user.cmp_not_less [of k "small_user (files ! i)"] by simp
  show ?thesis
  proof (cases "i < length files \<and> \<not> Compare ucmp k (small_user (files ! i)) < 0")
    case True
    have A: "answers k s (case lookup_in ucmp k s (contents (files ! i)) of None \<Rightarrow> [] | Some e \<Rightarrow> [e]) (set (contents (files ! i)))"
      using lookup_answers [OF c s] True by simp
    have near: "\<exists>d\<in>set (contents (files ! i)). user_key (pk d) = k \<and> visible s d \<and> sequence (pk e) \<le> sequence (pk d)"
      if u: "e \<in> (\<Union>f\<in>set files. set (contents f))" and e: "user_key (pk e) = k" "visible s e" for e
    proof -
      obtain j where j: "j < length files" "e \<in> set (contents (files ! j))" using UN_nth [OF u] by blast
      show ?thesis using later [OF j e] j(2) e by blast
    qed
    show ?thesis unfolding cand if_P [OF True]
    proof (cases "lookup_in ucmp k s (contents (files ! i))")
      case None
      then have "none_in k s (set (contents (files ! i)))" using A by (simp add: answers_def)
      then have "none_in k s (\<Union>f\<in>set files. set (contents f))" using near unfolding none_in_def by blast
      then show "answers k s (hits ucmp k s contents [files ! i]) (\<Union>f\<in>set files. set (contents f))" using None by (simp add: answers_def)
    next
      case (Some e)
      then have n: "newest_in k s (set (contents (files ! i))) e" using A by (simp add: answers_def)
      have "newest_in k s (\<Union>f\<in>set files. set (contents f)) e"
        unfolding newest_in_def
      proof (intro conjI ballI impI)
        show "e \<in> (\<Union>f\<in>set files. set (contents f))" using n True unfolding newest_in_def by force
        fix d assume "d \<in> (\<Union>f\<in>set files. set (contents f))" "user_key (pk d) = k" "visible s d"
        from near [OF this] n show "sequence (pk d) \<le> sequence (pk e)" unfolding newest_in_def by (meson order_trans)
      qed (use n in \<open>auto simp: newest_in_def\<close>)
      then show "answers k s (hits ucmp k s contents [files ! i]) (\<Union>f\<in>set files. set (contents f))" using Some by (simp add: answers_def)
    qed
  next
    case False
    have "none_in k s (\<Union>f\<in>set files. set (contents f))"
      unfolding none_in_def
    proof (intro ballI impI notI)
      fix e assume u: "e \<in> (\<Union>f\<in>set files. set (contents f))" and e: "user_key (pk e) = k" "visible s e"
      obtain j where j: "j < length files" "e \<in> set (contents (files ! j))" using UN_nth [OF u] by blast
      have "i < length files" using fromi [OF j e] j(1) by simp
      then show False using later [OF j e] small j(2) e False by blast
    qed
    then show ?thesis unfolding cand if_not_P [OF False] by (simp add: answers_def)
  qed
qed

lemma version_answers:
  assumes v: "version_ok ucmp contents v" and s: "s \<le> kMaxSequenceNumber"
  shows "answers k s (hits ucmp k s contents (level0_candidates ucmp (v_files v ! 0) k
      @ concat (map (\<lambda>l. level_candidates ucmp (v_files v ! l) k (InternalKey k s kTypeValue)) [1..<kNumLevels]))) (version_entries contents v)"
proof -
  define H where "H l = hits ucmp k s contents (if l = 0 then level0_candidates ucmp (v_files v ! 0) k else level_candidates ucmp (v_files v ! l) k (InternalKey k s kTypeValue))" for l
  define E where "E l = (\<Union>f\<in>set (v_files v ! l). set (contents f))" for l
  have "\<forall>l\<in>set [0..<kNumLevels]. answers k s (H l) (E l)"
  proof
    fix l assume l: "l \<in> set [0..<kNumLevels]"
    show "answers k s (H l) (E l)"
    proof (cases "l = 0")
      case True
      then show ?thesis using level0_answers [OF v s] by (simp add: H_def E_def)
    next
      case False
      then show ?thesis using level_answers [of "v_files v ! l" contents s k] v l s unfolding H_def E_def version_ok_def by simp
    qed
  qed
  moreover have "older_below k (E i) (E j)" if "i < j" "j < kNumLevels" for i j
    using v that unfolding older_below_def E_def version_ok_def newer_above_def by blast
  then have "sorted_wrt (\<lambda>i j. older_below k (E i) (E j)) [0..<kNumLevels]" by (simp add: sorted_wrt_iff_nth_less)
  ultimately have "answers k s (concat (map H [0..<kNumLevels])) (\<Union>l\<in>set [0..<kNumLevels]. E l)" by (rule answers_concat)
  moreover have "(\<Union>l\<in>set [0..<kNumLevels]. E l) = version_entries contents v"
  proof -
    have "length (v_files v) = kNumLevels" using v by (simp add: version_ok_def)
    then have "set (v_files v) = (!) (v_files v) ` set [0..<kNumLevels]" by (metis map_nth list.set_map)
    then show ?thesis unfolding E_def version_entries_def by simp
  qed
  moreover have "concat (map H [0..<kNumLevels]) = hits ucmp k s contents (level0_candidates ucmp (v_files v ! 0) k
      @ concat (map (\<lambda>l. level_candidates ucmp (v_files v ! l) k (InternalKey k s kTypeValue)) [1..<kNumLevels]))"
  proof -
    have hc: "hits ucmp k s contents (concat (map g ls)) = concat (map (\<lambda>l. hits ucmp k s contents (g l)) ls)" for g and ls :: "nat list"
      by (induction ls) simp_all
    have m: "map H [1..<kNumLevels] = map (\<lambda>l. hits ucmp k s contents (level_candidates ucmp (v_files v ! l) k (InternalKey k s kTypeValue))) [1..<kNumLevels]"
      by (simp add: H_def)
    have u: "[0..<kNumLevels] = 0 # [1..<kNumLevels]" by (simp add: upt_conv_Cons)
    show ?thesis unfolding u list.map concat.simps m hits_simps(3) hc by (simp add: H_def)
  qed
  ultimately show ?thesis by simp
qed

text \<open>One file: the search goes on when it has no visible entry, and stops with the entry otherwise.\<close>

lemma Match_lookup:
  assumes t: "table_lookup ucmp (contents f) (get f)" and ok: "contents_ok ucmp contents f"
    and st: "sv_state (st_saver st) = kNotFound" "sv_ucmp (st_saver st) = ucmp" "sv_user_key (st_saver st) = k" "\<not> st_found st"
  shows "case lookup_in ucmp k s (contents f) of
      None \<Rightarrow> \<exists>st'. Match get (InternalKey k s kTypeValue) st level f = (True, st') \<and> sv_value (st_saver st') = sv_value (st_saver st)
        \<and> sv_state (st_saver st') = kNotFound \<and> sv_ucmp (st_saver st') = ucmp \<and> sv_user_key (st_saver st') = k \<and> \<not> st_found st'
    | Some e \<Rightarrow> \<exists>st'. Match get (InternalKey k s kTypeValue) st level f = (False, st')
        \<and> (if vtype (pk e) = kTypeValue then st_found st' \<and> st_s st' = OK \<and> sv_value (st_saver st') = snd e
           else \<not> st_found st' \<and> sv_value (st_saver st') = sv_value (st_saver st))"
proof -
  let ?n = "seek_pos (InternalKeyComparator ucmp) (InternalKey k s kTypeValue) (contents f)"
  have "8 \<le> length (InternalKey k s kTypeValue)" by simp
  from t [unfolded table_lookup_def, THEN spec, THEN mp, OF this]
  obtain r where r: "get f (InternalKey k s kTypeValue) = (OK, r)" "\<forall>e. r = Some e \<longrightarrow> ?n < length (contents f) \<and> e = contents f ! ?n"
    "?n < length (contents f) \<and> ExtractUserKey (fst (contents f ! ?n)) = ExtractUserKey (InternalKey k s kTypeValue) \<longrightarrow> r = Some (contents f ! ?n)"
    by (elim exE conjE)
  have u: "ExtractUserKey (InternalKey k s kTypeValue) = k" by simp
  note r = r [unfolded u]
  have vo: "versions_ok (contents f)" using ok by (simp add: contents_ok_def)
  show ?thesis
  proof (cases r)
    case None
    then have "lookup_in ucmp k s (contents f) = None"
      using r(3) pk_key(4) [OF vo nth_mem, of ?n] by (auto simp: lookup_in_def Let_def)
    then show ?thesis using None r(1) st by (auto simp: Match_def Let_def)
  next
    case (Some e)
    then have n: "?n < length (contents f)" "e = contents f ! ?n" using r(2) by auto
    then have p: "ParseInternalKey (fst e) = Some (pk e)" using pk_key(1) [OF vo nth_mem [OF n(1)]] by simp
    have l: "lookup_in ucmp k s (contents f) = (if user_key (pk e) = k then Some e else None)" using n by (simp add: lookup_in_def Let_def)
    have eq: "Compare ucmp (user_key (pk e)) k = 0 \<longleftrightarrow> user_key (pk e) = k" using user.cmp_eq_iff by simp
    show ?thesis using Some r(1) st p l eq by (cases e) (auto simp: Match_def SaveValue_def Let_def)
  qed
qed

lemma for_files_lookup:
  assumes "\<forall>(l, f)\<in>set fs. table_lookup ucmp (contents f) (get f) \<and> contents_ok ucmp contents f"
    and "sv_state (st_saver st) = kNotFound" "sv_ucmp (st_saver st) = ucmp" "sv_user_key (st_saver st) = k" "\<not> st_found st"
  shows "\<exists>st'. snd (for_files (Match get (InternalKey k s kTypeValue)) fs st) = st'
    \<and> (case hits ucmp k s contents (map snd fs) of
         e # _ \<Rightarrow> if vtype (pk e) = kTypeValue then st_found st' \<and> st_s st' = OK \<and> sv_value (st_saver st') = snd e
            else \<not> st_found st' \<and> sv_value (st_saver st') = sv_value (st_saver st)
       | [] \<Rightarrow> \<not> st_found st' \<and> sv_value (st_saver st') = sv_value (st_saver st))"
  using assms
proof (induction fs arbitrary: st)
  case (Cons x fs)
  obtain l f where x: "x = (l, f)" by fastforce
  have tf: "table_lookup ucmp (contents f) (get f)" "contents_ok ucmp contents f" using Cons.prems(1) x by auto
  note M = Match_lookup [of contents f get, OF tf Cons.prems(2-5), of s l]
  show ?case
  proof (cases "lookup_in ucmp k s (contents f)")
    case None
    then obtain st' where st': "Match get (InternalKey k s kTypeValue) st l f = (True, st')" "sv_value (st_saver st') = sv_value (st_saver st)"
      "sv_state (st_saver st') = kNotFound" "sv_ucmp (st_saver st') = ucmp" "sv_user_key (st_saver st') = k" "\<not> st_found st'" using M by auto
    have "\<forall>(l, f)\<in>set fs. table_lookup ucmp (contents f) (get f) \<and> contents_ok ucmp contents f" using Cons.prems(1) by auto
    from Cons.IH [OF this st'(3-6)] show ?thesis unfolding st'(2) using st'(1) None by (simp add: x)
  next
    case (Some e)
    then show ?thesis using M by (auto simp: x)
  qed
qed simp

lemma Version_Get_lookup:
  assumes "version_ok ucmp contents v" "s \<le> kMaxSequenceNumber"
    and "\<forall>files\<in>set (v_files v). \<forall>f\<in>set files. table_lookup ucmp (contents f) (get f)"
  shows "\<exists>st value stats. Version_Get ucmp get v (LookupKey_init k s) val = (st, value, stats)
    \<and> (none_in k s (version_entries contents v) \<and> st = NotFound [] \<and> value = val
       \<or> (\<exists>e. newest_in k s (version_entries contents v) e
            \<and> (st, value) = (if vtype (pk e) = kTypeValue then (OK, snd e) else (NotFound [], val))))"
proof -
  define fs where "fs = map (Pair 0) (level0_candidates ucmp (v_files v ! 0) k)
    @ concat (map (\<lambda>l. map (Pair l) (level_candidates ucmp (v_files v ! l) k (InternalKey k s kTypeValue))) [1..<kNumLevels])"
  define st0 where "st0 = \<lparr> st_saver = \<lparr> sv_state = kNotFound, sv_ucmp = ucmp, sv_user_key = k, sv_value = val \<rparr>,
    st_stats = \<lparr> gs_seek_file = None, gs_seek_file_level = -1 \<rparr>, st_last_file_read = None, st_last_file_read_level = -1, st_s = OK, st_found = False \<rparr>"
  have snd: "map snd fs = level0_candidates ucmp (v_files v ! 0) k
      @ concat (map (\<lambda>l. level_candidates ucmp (v_files v ! l) k (InternalKey k s kTypeValue)) [1..<kNumLevels])"
    by (simp add: fs_def map_concat comp_def)
  have "f \<in> set (v_files v ! l)" "l < kNumLevels" if "(l, f) \<in> set fs" for l f
    using that by (auto simp: fs_def level0_candidates_def level_candidates_def Let_def split: if_splits)
  then have "\<forall>(l, f)\<in>set fs. table_lookup ucmp (contents f) (get f) \<and> contents_ok ucmp contents f"
    using assms(1,3) unfolding version_ok_def by (metis (mono_tags, lifting) case_prodI2 nth_mem)
  note ff = this
  have s0: "sv_state (st_saver st0) = kNotFound" "sv_ucmp (st_saver st0) = ucmp" "sv_user_key (st_saver st0) = k" "\<not> st_found st0" "sv_value (st_saver st0) = val"
    by (simp_all add: st0_def)
  obtain st1 where st1: "snd (for_files (Match get (InternalKey k s kTypeValue)) fs st0) = st1"
    and F: "case hits ucmp k s contents (map snd fs) of
      e # _ \<Rightarrow> if vtype (pk e) = kTypeValue then st_found st1 \<and> st_s st1 = OK \<and> sv_value (st_saver st1) = snd e else \<not> st_found st1 \<and> sv_value (st_saver st1) = val
    | [] \<Rightarrow> \<not> st_found st1 \<and> sv_value (st_saver st1) = val"
    using for_files_lookup [OF ff s0(1-4), of s] unfolding s0(5) by blast
  have A: "answers k s (hits ucmp k s contents (map snd fs)) (version_entries contents v)" unfolding snd by (rule version_answers [OF assms(1,2)])
  have "Version_Get ucmp get v (LookupKey_init k s) val = (if st_found st1 then st_s st1 else NotFound [], sv_value (st_saver st1), st_stats st1)"
    by (simp add: LookupKey_views st1 [symmetric] Version_Get_def ForEachOverlapping_def fs_def st0_def kValueTypeForSeek_def Let_def)
  note G = this
  show ?thesis
  proof (cases "hits ucmp k s contents (map snd fs)")
    case Nil
    then show ?thesis using G F A by (simp add: answers_def)
  next
    case (Cons e es)
    then have "newest_in k s (version_entries contents v) e" using A by (simp add: answers_def)
    moreover have "(if st_found st1 then st_s st1 else NotFound [], sv_value (st_saver st1)) = (if vtype (pk e) = kTypeValue then (OK, snd e) else (NotFound [], val))"
      using F Cons by (simp split: if_splits)
    ultimately show ?thesis using G by blast
  qed
qed

lemma table_present_table:
  assumes "block_codec lib" "writable_file fc written stored durable clean" "db_options ucmp (tc_options tc)" "contents_ok ucmp contents f"
    and "table_present ucmp lib fc written tc blocks cache_id contents f"
  obtains W t put bs ix where "FindTable lib tc cache_id (fm_number f) (fm_file_size f) = (OK, Some t, put)" "concat (map pl_entries bs) = contents f" "sizes_ok bs"
    "table_open (InternalKeyComparator ucmp) (\<lambda>k. 8 \<le> length k) lib (tc_options tc) W bs ix t"
    "length W < 2 ^ 32" "length (bl_data (t_index_block t)) < 2 ^ 32" "cache_ok (tc_options tc) bs (t_cache_id t) blocks"
proof -
  obtain W where W: "built_file lib fc written tc (fm_number f) (contents f) W" "fm_file_size f = of_nat (length W)"
    and P: "\<And>t put bs ix. FindTable lib tc cache_id (fm_number f) (fm_file_size f) = (OK, Some t, put) \<Longrightarrow> length (bl_data (t_index_block t)) < 2 ^ 32 \<and>
        (table_open (InternalKeyComparator ucmp) (\<lambda>k. 8 \<le> length k) lib (tc_options tc) W bs ix t \<longrightarrow> cache_ok (tc_options tc) bs (t_cache_id t) blocks)"
    using assms(5) unfolding table_present_def by blast
  have so: "sorted_entries (InternalKeyComparator ucmp) (\<lambda>k. 8 \<le> length k) (contents f)" using assms(4) by (simp add: contents_ok_def)
  obtain t put bs ix where t: "FindTable lib tc cache_id (fm_number f) (of_nat (length W)) = (OK, Some t, put)" "concat (map pl_entries bs) = contents f" "sizes_ok bs"
    "table_open (InternalKeyComparator ucmp) (\<lambda>k. 8 \<le> length k) lib (tc_options tc) W bs ix t"
    by (rule FindTable_built [OF assms(1-3) so W(1), of cache_id]) blast
  have "length W < 2 ^ 32" using W(1) by (simp add: built_file_def)
  then show ?thesis using that [of t put bs W ix] t P [of t put bs ix] by (simp add: W(2))
qed

lemma table_present_lookup:
  assumes "block_codec lib" "writable_file fc written stored durable clean" and opt: "db_options ucmp (tc_options tc)" and ok: "contents_ok ucmp contents f"
    and p: "table_present ucmp lib fc written tc blocks cache_id contents f"
  shows "table_lookup ucmp (contents f) (\<lambda>key. fst (TableCache_Get lib blocks tc cache_id ro (fm_number f) (fm_file_size f) key))"
proof -
  obtain W t put bs ix where t: "FindTable lib tc cache_id (fm_number f) (fm_file_size f) = (OK, Some t, put)" "concat (map pl_entries bs) = contents f" "sizes_ok bs"
    "table_open (InternalKeyComparator ucmp) (\<lambda>k. 8 \<le> length k) lib (tc_options tc) W bs ix t"
    "length W < 2 ^ 32" "length (bl_data (t_index_block t)) < 2 ^ 32" "cache_ok (tc_options tc) bs (t_cache_id t) blocks"
    by (rule table_present_table [OF assms(1-3) ok p])
  then show ?thesis using InternalGet_table_lookup [OF t(4,7,5,6,3) opt, of ro] by (simp add: TableCache_Get_def)
qed

end

section \<open>Properties\<close>

text \<open>
  C1: Lookup in a version.  Let the tables of a version have been written by the table builder, with newer entries of a key above older ones and the levels above 0 sorted.  Then
  \<open>Get\<close> at a sequence number, through the table cache, the filters and the block cache, returns the value of the newest entry of the key that is visible at that number, over all files of all
  levels.  It reports that the key is not found when this entry is a deletion or there is none.
\<close>

theorem version_get_newest:
  assumes "internal_keys ucmp" "block_codec lib" "writable_file fc written stored durable clean" "db_options ucmp (tc_options tc)"
    and "version_ok ucmp contents v" "s \<le> kMaxSequenceNumber"
    and "\<forall>files\<in>set (v_files v). \<forall>f\<in>set files. table_present ucmp lib fc written tc blocks (ids (fm_number f)) contents f"
  shows "\<exists>st value stats. Version_Get ucmp (\<lambda>f key. fst (TableCache_Get lib blocks tc (ids (fm_number f)) ro (fm_number f) (fm_file_size f) key)) v (LookupKey_init k s) val
        = (st, value, stats)
    \<and> (none_in k s (version_entries contents v) \<and> st = NotFound [] \<and> value = val
       \<or> (\<exists>e. newest_in k s (version_entries contents v) e
            \<and> (st, value) = (if vtype (pk e) = kTypeValue then (OK, snd e) else (NotFound [], val))))"
proof (rule internal_keys.Version_Get_lookup [OF assms(1,5,6)], intro ballI)
  fix files f assume f: "files \<in> set (v_files v)" "f \<in> set files"
  then have ok: "contents_ok ucmp contents f" using version_ok_contents [OF assms(5)] by blast
  show "table_lookup ucmp (contents f) (\<lambda>key. fst (TableCache_Get lib blocks tc (ids (fm_number f)) ro (fm_number f) (fm_file_size f) key))"
    using internal_keys.table_present_lookup [OF assms(1-4) ok] assms(7) f by blast
qed

text \<open>A deletion in a table of level 0 over a value in a table of level 1.\<close>

definition del_entry :: "bytes \<times> bytes" where "del_entry = (InternalKey [97] 5 kTypeDeletion, [])"
definition put_entry :: "bytes \<times> bytes" where "put_entry = (InternalKey [97] 3 kTypeValue, [7])"

definition entry_file :: "u64 \<Rightarrow> bytes \<times> bytes \<Rightarrow> FileMetaData" where
  "entry_file n e = FileMetaData_init\<lparr> fm_number := n, fm_file_size := of_nat (length (one_table (fst e) (snd e))), fm_smallest := fst e, fm_largest := fst e \<rparr>"

definition two_levels :: Version where
  "two_levels = Version_init\<lparr> v_files := [[entry_file 9 del_entry], [entry_file 4 put_entry], [], [], [], [], []] \<rparr>"

definition two_entries :: "u64 \<Rightarrow> (bytes \<times> bytes) option" where
  "two_entries = [9 \<mapsto> del_entry, 4 \<mapsto> put_entry]"

definition two_contents :: "FileMetaData \<Rightarrow> entries" where
  "two_contents f = (case two_entries (fm_number f) of None \<Rightarrow> [] | Some e \<Rightarrow> [e])"

lemma two_fields:
  "fm_number (entry_file n e) = n" "fm_file_size (entry_file n e) = of_nat (length (one_table (fst e) (snd e)))"
  "fm_smallest (entry_file n e) = fst e" "fm_largest (entry_file n e) = fst e"
  "pk del_entry = \<lparr> user_key = [97], sequence = 5, vtype = kTypeDeletion \<rparr>" "pk put_entry = \<lparr> user_key = [97], sequence = 3, vtype = kTypeValue \<rparr>"
  "two_contents (entry_file 9 e) = [del_entry]" "two_contents (entry_file 4 e) = [put_entry]"
  by (simp_all add: pk_def del_entry_def put_entry_def two_contents_def two_entries_def entry_file_def kMaxSequenceNumber_def)

lemma two_levels_ok: "version_ok BytewiseComparator two_contents two_levels"
proof -
  have c: "contents_ok BytewiseComparator two_contents (entry_file 9 del_entry)" "contents_ok BytewiseComparator two_contents (entry_file 4 put_entry)"
    by (simp_all add: contents_ok_def two_fields versions_ok_def sorted_entries_def)
      (simp_all add: del_entry_def put_entry_def kMaxSequenceNumber_def)
  have "newer_above two_contents (entry_file 9 del_entry) (entry_file 4 put_entry)" by (simp add: newer_above_def two_fields)
  moreover have "level_ok BytewiseComparator [entry_file 4 put_entry]" using bw.contents_okD(1) [OF c(2)] by (simp add: level_ok_def)
  moreover have "v_files two_levels ! l = (if l = 0 then [entry_file 9 del_entry] else if l = 1 then [entry_file 4 put_entry] else [])" if "l < kNumLevels" for l
    using that by (auto simp: kNumLevels_def two_levels_def less_Suc_eq numeral_eq_Suc)
  moreover have "length (v_files two_levels) = kNumLevels" by (simp add: two_levels_def kNumLevels_def)
  ultimately show ?thesis
    using c unfolding version_ok_def by (auto simp: level_ok_def)
qed

lemma two_present:
  assumes "two_entries n = Some e"
  shows "table_present BytewiseComparator no_lib posix_writable pwf_written (one_dir two_entries) (Some (\<lambda>_. None)) 1 two_contents (entry_file n e)"
proof -
  have e: "two_entries n = Some (fst e, snd e)" "two_contents (entry_file n e) = [(fst e, snd e)]"
    using assms by (simp_all add: two_contents_def two_fields)
  have "e = del_entry \<or> e = put_entry" using assms by (auto simp: two_entries_def split: if_splits)
  then have kv: "length (fst e) + length (snd e) \<le> 100" "length (FindShortSuccessor (InternalKeyComparator BytewiseComparator) (fst e)) \<le> 100"
    by (auto simp: del_entry_def put_entry_def InternalKeyComparator_def InternalKey_FindShortSuccessor_def BytewiseComparator_def Let_def)
  note B = one_dir_built [of two_entries n, OF e(1) kv]
  have "length (one_table (fst e) (snd e)) < 2 ^ 32" using B by (simp add: built_file_def)
  then show ?thesis
    unfolding table_present_def two_fields e(2) using B one_dir_index(1) [of two_entries n, OF e(1)]
    by (intro exI [of _ "one_table (fst e) (snd e)"]) (fastforce simp: cache_ok_def)
qed

theorem version_get_newest_witness:
  "let get = (\<lambda>f key. fst (TableCache_Get no_lib (Some (\<lambda>_. None)) (one_dir two_entries) 1 ReadOptions_init (fm_number f) (fm_file_size f) key))
   in (\<exists>stats. Version_Get BytewiseComparator get two_levels (LookupKey_init [97] 4) [] = (OK, [7], stats))
      \<and> (\<exists>stats. Version_Get BytewiseComparator get two_levels (LookupKey_init [97] 8) [] = (NotFound [], [], stats))"
proof -
  have o: "db_options BytewiseComparator (tc_options (one_dir two_entries))" by (simp add: one_dir_def db_options_def ik_options_def Options_init_def)
  have p: "\<forall>files\<in>set (v_files two_levels). \<forall>f\<in>set files.
      table_present BytewiseComparator no_lib posix_writable pwf_written (one_dir two_entries) (Some (\<lambda>_. None)) 1 two_contents f"
    using two_present [of 9 del_entry] two_present [of 4 put_entry] by (simp add: two_levels_def two_entries_def)
  note G = version_get_newest [OF bw.internal_keys_axioms no_codec.block_codec_axioms pwf.writable_file_axioms o two_levels_ok _ p, where k = "[97]" and val = "[]" and ro = ReadOptions_init]
  have E: "version_entries two_contents two_levels = {del_entry, put_entry}" by (auto simp: version_entries_def two_levels_def two_fields)
  have 4: "\<not> none_in [97] 4 {del_entry, put_entry}" "newest_in [97] 4 {del_entry, put_entry} e \<Longrightarrow> e = put_entry" for e
    by (auto simp: none_in_def newest_in_def visible_def two_fields)
  have 8: "\<not> none_in [97] 8 {del_entry, put_entry}" "newest_in [97] 8 {del_entry, put_entry} e \<Longrightarrow> e = del_entry" for e
    by (auto simp: none_in_def newest_in_def visible_def two_fields)
  have m: "(4 :: u64) \<le> kMaxSequenceNumber" "(8 :: u64) \<le> kMaxSequenceNumber" by (simp_all add: kMaxSequenceNumber_def)
  show ?thesis using G [OF m(1)] G [OF m(2)] 4 8 unfolding Let_def E by (fastforce simp: two_fields put_entry_def [THEN arg_cong, of snd])
qed

end
