(* ===== verification/Spec2Isabelle.thy ===== *)
theory Spec2Isabelle
  imports Wal Write_Batch SSTable Version_Read
begin

text \<open>
  A verification library for the RocketDB storage engine, a log-structured merge tree in C++.

  \<^bold>\<open>The program.\<close>  A write is a batch of puts and deletions.  It is appended to the write-ahead log and inserted into
  the memtable, a skip list over arena memory whose entries are internal keys: a user key with a sequence number and a
  type.  A full memtable is written to a table file, a sequence of prefix-compressed blocks with an index, a
  filter block and a footer.  The manifest, itself a log of version edits, records which table files exist.  Readers
  merge memtables and tables with iterators, and the database iterator shows the user the newest visible version of
  every key.

  \<^bold>\<open>Theories and the code they model\<close> (paths under \<^verbatim>\<open>src/\<close>; every definition keeps the name of the function or
  method it translates, with a prefix for the class where two classes have a method of that name).

    \<^item> \<open>RDB_Prelude\<close>: bytes, machine words, statuses (\<^verbatim>\<open>include/status.h\<close>), collections of rewrite rules, facts on lists.
    \<^item> \<open>Coding\<close>: \<^verbatim>\<open>src/util/coding.cc\<close>.  Round trips of fixed and variable length integers and of length-prefixed slices,
      and the equality of the unrolled and the looping varint encoder.
    \<^item> \<open>Comparators\<close>, \<open>Dbformat\<close>: \<^verbatim>\<open>src/util/comparator.cc\<close>, \<^verbatim>\<open>src/db/dbformat.cc\<close>.  The contract of a comparator is the
      locale \<open>comparator_contract\<close>; \<open>internal_keys\<close> turns a user comparator that tells any two keys apart into the internal one.  Order of internal keys, separators, round trip.
    \<^item> \<open>Bloom\<close>: \<^verbatim>\<open>src/util/bloom.cc\<close>, \<^verbatim>\<open>src/util/hash.cc\<close>.  No false negatives; the contract is \<open>filter_policy_contract\<close>.
    \<^item> \<open>Crc_Tables\<close>, \<open>Crc32c\<close>: \<^verbatim>\<open>src/util/crc32c.cc\<close>.  The strided, table-driven routine equals the bitwise CRC-32C.
    \<^item> \<open>Env_Posix\<close>: the files of \<^verbatim>\<open>src/util/env_posix.cc\<close> over system calls that may fail, be interrupted or be short.
      The contracts are \<open>sequential_file\<close> and \<open>writable_file\<close>.
    \<^item> \<open>Wal\<close>: \<^verbatim>\<open>src/wal/log_writer.cc\<close>, \<^verbatim>\<open>src/wal/log_reader.cc\<close>.  What an acknowledged append stores, what a reader returns after a
      crash that keeps any prefix of the file, and that reading ends on every content.
    \<^item> \<open>RDB_Random\<close>, \<open>Skiplist\<close>, \<open>Arena\<close>, \<open>Memtable\<close>: \<^verbatim>\<open>src/util/random.h\<close>, \<^verbatim>\<open>src/db/skiplist.h\<close>, \<^verbatim>\<open>src/util/arena.cc\<close>,
      \<^verbatim>\<open>src/db/memtable.cc\<close>.  The skip list is a store of nodes and refines a sorted list; allocations are disjoint and aligned; a lookup finds the newest version.
    \<^item> \<open>Write_Batch\<close>: \<^verbatim>\<open>src/db/write_batch.cc\<close>.  A batch refines a list of operations, and inserting it adds them with consecutive sequence numbers.
    \<^item> \<open>Iterators\<close>, \<open>Blocks\<close>, \<open>Merger\<close>, \<open>Two_Level\<close>: \<^verbatim>\<open>src/table/iterator.cc\<close>, \<^verbatim>\<open>src/table/iterator_wrapper.h\<close>,
      \<^verbatim>\<open>src/table/block_builder.cc\<close>, \<^verbatim>\<open>src/table/block.cc\<close>, \<^verbatim>\<open>src/table/merger.cc\<close>, \<^verbatim>\<open>src/table/two_level_iterator.cc\<close>.  A class of
      iterators is a record of its methods; the locale \<open>sorted_iterator\<close> is what an iterator over a sorted list promises.  Each theory proves it for
      its class, from the same contract of the iterators below it: scans visit exactly the entries and end, and through any sequence of calls the
      iterator stands where a cursor into the list stands.
    \<^item> \<open>Formats\<close>, \<open>Filter_Block\<close>, \<open>Table_Builder\<close>, \<open>SSTable\<close>: \<^verbatim>\<open>src/table/format.cc\<close>, \<^verbatim>\<open>src/table/filter_block.cc\<close>,
      \<^verbatim>\<open>src/table/table_builder.cc\<close>, \<^verbatim>\<open>src/table/table.cc\<close>.  A table that was built over a file can be opened, iterates over
      the entries that were added, and a lookup finds the newest entry of a key.
    \<^item> \<open>Filenames\<close>, \<open>Version_Edit\<close>: \<^verbatim>\<open>src/util/logging.cc\<close>, \<^verbatim>\<open>src/db/filename.cc\<close>, \<^verbatim>\<open>src/db/version_edit.cc\<close>.  Round trips of file names and of the
      records of the manifest.
    \<^item> \<open>DB_Iter\<close>: \<^verbatim>\<open>src/db/db_iter.cc\<close>.  Every sequence of calls behaves as on a cursor into the visible versions, whatever the skip limit.
    \<^item> \<open>Version_Set\<close>: the versions and their builder in \<^verbatim>\<open>src/db/version_set.cc\<close>.  Applying edits one by one or together gives the same sorted files; the
      overlap tests find the overlapping files; the sum of file sizes is exact below 2 GB only.

  \<^bold>\<open>Conventions.\<close>  State is passed explicitly, a class is a record of its fields, a virtual class a record of its methods.
  A failing operation returns a status.  Lengths and offsets the code keeps in \<^verbatim>\<open>size_t\<close> are natural numbers; fixed-width values
  (checksums, tags, sequence numbers, hashes, restart offsets) are words, and theorems that
  need sizes below a width say so.  Assertions and checks compiled only without \<^verbatim>\<open>NDEBUG\<close> are not modelled, unless a definition says otherwise: the model is that
  of a release build.

  \<^bold>\<open>Loops.\<close>  Most loops are functions with a termination proof.  \<open>ReadRecord\<close> carries fuel: a byte of the file per round, so that the length of the
  file suffices, which \<open>ReadRecord_ends\<close> shows for every content.  The two-level iterator carries a number of rounds; more rounds than
  the index has entries suffice.  The searches of the skip list and of the database iterator are partial functions, and the theorems show that they return on
  every well-formed state.

  \<^bold>\<open>Parameters.\<close>  The compression libraries, the heap below the arena, the outcomes of system calls and user-defined comparators, filter policies and
  batch handlers are parameters; what is assumed of them are the locales and the named hypotheses of the theorems.

  \<^bold>\<open>Not modelled.\<close>  Threads, mutexes and condition variables, and with them the scheduling of background work in the database object; the repair and dump
  tools, the C interface and the benchmarks, which call the modelled code or only print; memory reclamation (reference counts, cleanup functions); of \<^verbatim>\<open>src/db/version_set.cc\<close> the iterators over the contents of a version's files, the choice of
  compactions and the writing and recovery of the manifest.
\<close>

end
